(* ===== verification/Prelude.thy ===== *)
theory Prelude
  imports Main "HOL-Library.Word"
begin

unbundle bit_operations_syntax

text \<open>
  Shared vocabulary of the development: JavaScript strings as lists of UTF-16 code units,
  the exceptions the code throws, error-propagating composition, and the generic facts on
  lists, words and decimal digits that the component theories use.

  A JavaScript string is a sequence of 16-bit code units, so \<open>jsstr\<close> is \<open>16 word list\<close>;
  an ASCII literal of the source such as \<open>'probe'\<close> is written \<open>lit ''probe''\<close>.
  An exception is a value \<open>Inl e\<close> of a sum type.
\<close>


subsection \<open>Strings and errors\<close>

type_synonym jschar = "16 word"
type_synonym jsstr = "16 word list"
type_synonym bytes = "8 word list"

definition lit :: "string \<Rightarrow> jsstr" where
  "lit s = map of_char s"

datatype js_error =
    Error string
  | TypeError
  | SyntaxError
  | URIError

type_synonym 'a result = "js_error + 'a"

fun bindE :: "'e + 'a \<Rightarrow> ('a \<Rightarrow> 'e + 'b) \<Rightarrow> 'e + 'b" where
  "bindE (Inl e) f = Inl e"
| "bindE (Inr x) f = f x"

lemma bindE_Inr_iff: "bindE m f = Inr y \<longleftrightarrow> (\<exists>x. m = Inr x \<and> f x = Inr y)"
  by (cases m) auto

lemma bindE_assoc: "bindE (bindE m f) g = bindE m (\<lambda>x. bindE (f x) g)"
  by (cases m) auto

lemma unat_of_char [simp]: "unat (of_char c :: jschar) = of_char c"
proof -
  have "unat (of_nat (of_char c) :: jschar) = of_char c"
    using less_trans [OF nat_of_char_less_256, of 65536 c] by (simp add: unat_of_nat)
  then show ?thesis by (simp add: of_nat_of_char)
qed

lemma of_char_jschar_eq_iff [simp]: "(of_char a :: jschar) = of_char b \<longleftrightarrow> a = b"
proof
  assume "(of_char a :: jschar) = of_char b"
  then have "unat (of_char a :: jschar) = unat (of_char b :: jschar)" by (rule arg_cong)
  then have "(of_char a :: nat) = of_char b" unfolding unat_of_char .
  then show "a = b" by simp
qed simp

lemma lit_eq_iff [simp]: "lit a = lit b \<longleftrightarrow> a = b"
proof -
  have "inj (of_char :: char \<Rightarrow> jschar)" by (rule injI) simp
  then show ?thesis by (simp add: lit_def inj_map_eq_map)
qed

lemma length_lit [simp]: "length (lit s) = length s"
  by (simp add: lit_def)

lemma nth_lit: "i < length s \<Longrightarrow> lit s ! i = of_char (s ! i)"
  by (simp add: lit_def)

lemma distinct_lit [simp]: "distinct (lit s) = distinct s"
  by (simp add: lit_def distinct_map inj_on_def)

lemma lit_Nil [simp]: "lit [] = []"
  by (simp add: lit_def)

subsection \<open>Words as bit patterns\<close>

text \<open>
  The source takes numbers apart with masks and shifts and puts them together with
  \<open>|\<close>. Rewriting a mask test as \<open>take_bit\<close> and gluing adjacent bit fields is all the
  codecs need.
\<close>

lemma and_mask_take_bit:
  fixes x :: "'a::len word"
  shows "x AND 0x3 = take_bit 2 x" "x AND 0x7 = take_bit 3 x" "x AND 0xF = take_bit 4 x"
    "x AND 0x1F = take_bit 5 x" "x AND 0x3F = take_bit 6 x" "x AND 0xFF = take_bit 8 x"
    "x AND 0x3FF = take_bit 10 x"
  by (simp_all add: take_bit_eq_mask mask_eq_exp_minus_1)

lemma glue_bits:
  fixes c :: "'a::len word"
  shows "push_bit k (take_bit n (drop_bit k c)) OR take_bit k c = take_bit (n + k) c"
  by (rule bit_word_eqI) (auto simp: bit_simps)

lemma take_bit_self_iff:
  fixes c :: "'a::len word"
  assumes "k < LENGTH('a)"
  shows "take_bit k c = c \<longleftrightarrow> c < 2 ^ k"
  using assms by (simp add: take_bit_eq_mask mask_eq_iff_w2p word_size)

lemma and_not_mask_eq_0_iff:
  fixes c :: "'a::len word"
  shows "c AND NOT (mask k) = 0 \<longleftrightarrow> take_bit k c = c"
  by (auto simp: bit_eq_iff bit_simps)

subsection \<open>Tables and lists\<close>

lemma fold_update_nth:
  assumes "inj_on f {..<k}" and "\<forall>i < k. f i < length t"
  shows "length (fold (\<lambda>i t. t[f i := g i]) [0..<k] t) = length t"
    and "j < k \<Longrightarrow> fold (\<lambda>i t. t[f i := g i]) [0..<k] t ! f j = g j"
    and "x \<notin> f ` {..<k} \<Longrightarrow> fold (\<lambda>i t. t[f i := g i]) [0..<k] t ! x = t ! x"
proof -
  have "length (fold (\<lambda>i t. t[f i := g i]) [0..<k] t) = length t \<and>
    (\<forall>j < k. fold (\<lambda>i t. t[f i := g i]) [0..<k] t ! f j = g j) \<and>
    (\<forall>x. x \<notin> f ` {..<k} \<longrightarrow> fold (\<lambda>i t. t[f i := g i]) [0..<k] t ! x = t ! x)"
    using assms
  proof (induction k)
    case (Suc k)
    then have "inj_on f {..<k}" by (auto intro: inj_on_subset)
    with Suc have IH: "length (fold (\<lambda>i t. t[f i := g i]) [0..<k] t) = length t"
      "\<forall>j < k. fold (\<lambda>i t. t[f i := g i]) [0..<k] t ! f j = g j"
      "\<forall>x. x \<notin> f ` {..<k} \<longrightarrow> fold (\<lambda>i t. t[f i := g i]) [0..<k] t ! x = t ! x"
      by auto
    have "f k \<noteq> f j" if "j < k" for j
      using inj_onD [OF Suc.prems(1), of k j] that by auto
    then show ?case
      using IH Suc.prems(2) by (auto simp: nth_list_update less_Suc_eq lessThan_Suc)
  qed simp
  then show "length (fold (\<lambda>i t. t[f i := g i]) [0..<k] t) = length t"
    "j < k \<Longrightarrow> fold (\<lambda>i t. t[f i := g i]) [0..<k] t ! f j = g j"
    "x \<notin> f ` {..<k} \<Longrightarrow> fold (\<lambda>i t. t[f i := g i]) [0..<k] t ! x = t ! x"
    by blast+
qed

lemma replicate_two: "replicate 2 x = [x, x]"
  by (simp add: numeral_eq_Suc)

end
