(* ===== verification/Wtf8.thy ===== *)
theory Wtf8
  imports Prelude
begin

text \<open>
  The WTF-8 codec of the engine.io parser (module 32 of the bundle): \<open>ucs2decode\<close> and
  \<open>ucs2encode\<close> between UTF-16 code units and code points, \<open>encodeCodePoint\<close>/\<open>wtf8encode\<close>
  to a string of bytes, and \<open>decodeSymbol\<close>/\<open>wtf8decode\<close> back, with their three exceptions.

  Code points and bytes are JavaScript numbers used through bitwise operators only, which
  act on 32-bit integers: they are \<open>32 word\<close> here. The reader's \<open>byteIndex\<close> into
  \<open>byteArray\<close> is the suffix of the array that is still unread.
\<close>

subsection \<open>Code units and code points\<close>

fun ucs2decode :: "jsstr \<Rightarrow> 32 word list" where
  "ucs2decode [] = []"
| "ucs2decode [value] = [ucast value]"
| "ucs2decode (value # extra # rest) =
     (if value \<ge> 0xD800 \<and> value \<le> 0xDBFF then
        (if extra AND 0xFC00 = 0xDC00
         then (push_bit 10 (ucast value AND 0x3FF) + (ucast extra AND 0x3FF) + 0x10000)
              # ucs2decode rest
         else ucast value # ucs2decode (extra # rest))
      else ucast value # ucs2decode (extra # rest))"

definition stringFromCharCode :: "32 word \<Rightarrow> jschar" where
  "stringFromCharCode v = ucast v"

fun ucs2encode :: "32 word list \<Rightarrow> jsstr" where
  "ucs2encode [] = []"
| "ucs2encode (value # rest) =
     (if value > 0xFFFF then
        let value' = value - 0x10000 in
        stringFromCharCode (drop_bit 10 value' AND 0x3FF OR 0xD800)
        # stringFromCharCode (0xDC00 OR value' AND 0x3FF) # ucs2encode rest
      else stringFromCharCode value # ucs2encode rest)"

subsection \<open>Encoding\<close>

definition createByte :: "32 word \<Rightarrow> nat \<Rightarrow> jschar" where
  "createByte codePoint shift =
     stringFromCharCode ((drop_bit shift codePoint AND 0x3F) OR 0x80)"

definition encodeCodePoint :: "32 word \<Rightarrow> jsstr" where
  "encodeCodePoint codePoint =
     (if codePoint AND 0xFFFFFF80 = 0 then [stringFromCharCode codePoint]
      else
        (if codePoint AND 0xFFFFF800 = 0
         then [stringFromCharCode ((drop_bit 6 codePoint AND 0x1F) OR 0xC0)]
         else if codePoint AND 0xFFFF0000 = 0
         then [stringFromCharCode ((drop_bit 12 codePoint AND 0x0F) OR 0xE0),
               createByte codePoint 6]
         else if codePoint AND 0xFFE00000 = 0
         then [stringFromCharCode ((drop_bit 18 codePoint AND 0x07) OR 0xF0),
               createByte codePoint 12, createByte codePoint 6]
         else [])
        @ [stringFromCharCode ((codePoint AND 0x3F) OR 0x80)])"

definition wtf8encode :: "jsstr \<Rightarrow> jsstr" where
  "wtf8encode string = concat (map encodeCodePoint (ucs2decode string))"

subsection \<open>Decoding\<close>

fun readContinuationByte :: "32 word list \<Rightarrow> (32 word \<times> 32 word list) result" where
  "readContinuationByte [] = Inl (Error ''Invalid byte index'')"
| "readContinuationByte (b # bs) =
     (let continuationByte = b AND 0xFF in
      if continuationByte AND 0xC0 = 0x80 then Inr (continuationByte AND 0x3F, bs)
      else Inl (Error ''Invalid continuation byte''))"

text \<open>
  \<open>decodeSymbol\<close> returns \<open>false\<close> at the end of the array: \<open>None\<close>. Its first guard
  (\<open>byteIndex > byteCount\<close>) cannot be met by a suffix and has no counterpart.
\<close>

fun decodeSymbol :: "32 word list \<Rightarrow> (32 word \<times> 32 word list) option result" where
  "decodeSymbol [] = Inr None"
| "decodeSymbol (b # bs) =
     (let byte1 = b AND 0xFF in
      if byte1 AND 0x80 = 0 then Inr (Some (byte1, bs))
      else if byte1 AND 0xE0 = 0xC0 then
        bindE (readContinuationByte bs) (\<lambda>(byte2, bs2).
          let codePoint = push_bit 6 (byte1 AND 0x1F) OR byte2 in
          if codePoint \<ge> 0x80 then Inr (Some (codePoint, bs2))
          else Inl (Error ''Invalid continuation byte''))
      else if byte1 AND 0xF0 = 0xE0 then
        bindE (readContinuationByte bs) (\<lambda>(byte2, bs2).
        bindE (readContinuationByte bs2) (\<lambda>(byte3, bs3).
          let codePoint = push_bit 12 (byte1 AND 0x0F) OR push_bit 6 byte2 OR byte3 in
          if codePoint \<ge> 0x0800 then Inr (Some (codePoint, bs3))
          else Inl (Error ''Invalid continuation byte'')))
      else if byte1 AND 0xF8 = 0xF0 then
        bindE (readContinuationByte bs) (\<lambda>(byte2, bs2).
        bindE (readContinuationByte bs2) (\<lambda>(byte3, bs3).
        bindE (readContinuationByte bs3) (\<lambda>(byte4, bs4).
          let codePoint = push_bit 18 (byte1 AND 0x0F) OR push_bit 12 byte2
                          OR push_bit 6 byte3 OR byte4 in
          if codePoint \<ge> 0x010000 \<and> codePoint \<le> 0x10FFFF then Inr (Some (codePoint, bs4))
          else Inl (Error ''Invalid WTF-8 detected''))))
      else Inl (Error ''Invalid WTF-8 detected''))"

lemma readContinuationByte_shorter:
  "readContinuationByte bs = Inr (x, bs') \<Longrightarrow> length bs' < length bs"
  by (cases bs) (auto simp: Let_def split: if_splits)

lemma decodeSymbol_shorter:
  "decodeSymbol bs = Inr (Some (cp, bs')) \<Longrightarrow> length bs' < length bs"
  by (cases bs)
    (auto simp: Let_def bindE_Inr_iff dest!: readContinuationByte_shorter split: if_splits)

function decodeSymbols :: "32 word list \<Rightarrow> 32 word list result" where
  "decodeSymbols bs =
     (case decodeSymbol bs of
        Inl e \<Rightarrow> Inl e
      | Inr None \<Rightarrow> Inr []
      | Inr (Some (cp, bs')) \<Rightarrow> bindE (decodeSymbols bs') (\<lambda>cps. Inr (cp # cps)))"
  by pat_completeness auto
termination
  by (relation "measure length") (auto dest: decodeSymbol_shorter)

declare decodeSymbols.simps [simp del]

definition wtf8decode :: "jsstr \<Rightarrow> jsstr result" where
  "wtf8decode byteString =
     bindE (decodeSymbols (ucs2decode byteString)) (\<lambda>codePoints. Inr (ucs2encode codePoints))"


subsection \<open>Bit patterns of the lead and continuation bytes\<close>

lemma bit_marker_iffs:
  "bit (0x80 :: int) n \<longleftrightarrow> n = 7"
  "bit (0xC0 :: int) n \<longleftrightarrow> n = 7 \<or> n = 6"
  "bit (0xE0 :: int) n \<longleftrightarrow> n = 7 \<or> n = 6 \<or> n = 5"
  "bit (0xF0 :: int) n \<longleftrightarrow> n = 7 \<or> n = 6 \<or> n = 5 \<or> n = 4"
  "bit (0xF8 :: int) n \<longleftrightarrow> n = 7 \<or> n = 6 \<or> n = 5 \<or> n = 4 \<or> n = 3"
proof -
  have eqs: "(0x80 :: int) = 2 ^ 7" "(0xC0 :: int) = 2 ^ 7 OR 2 ^ 6"
    "(0xE0 :: int) = 2 ^ 7 OR 2 ^ 6 OR 2 ^ 5"
    "(0xF0 :: int) = 2 ^ 7 OR 2 ^ 6 OR 2 ^ 5 OR 2 ^ 4"
    "(0xF8 :: int) = 2 ^ 7 OR 2 ^ 6 OR 2 ^ 5 OR 2 ^ 4 OR 2 ^ 3"
    by simp_all
  show "bit (0x80 :: int) n \<longleftrightarrow> n = 7"
    "bit (0xC0 :: int) n \<longleftrightarrow> n = 7 \<or> n = 6"
    "bit (0xE0 :: int) n \<longleftrightarrow> n = 7 \<or> n = 6 \<or> n = 5"
    "bit (0xF0 :: int) n \<longleftrightarrow> n = 7 \<or> n = 6 \<or> n = 5 \<or> n = 4"
    "bit (0xF8 :: int) n \<longleftrightarrow> n = 7 \<or> n = 6 \<or> n = 5 \<or> n = 4 \<or> n = 3"
    unfolding eqs by (auto simp only: bit_or_iff bit_exp_iff possible_bit_int)
qed

lemma byte_tests1:
  fixes x :: "32 word"
  shows "(take_bit 7 x AND 0x80 = 0)"
   "(take_bit 6 x OR 0x80) AND 0xC0 = 0x80"
   "(take_bit 5 x OR 0xC0) AND 0xE0 = 0xC0"
   "(take_bit 4 x OR 0xE0) AND 0xF0 = 0xE0"
   "(take_bit 3 x OR 0xF0) AND 0xF8 = 0xF0"
  by (rule bit_word_eqI, auto simp: bit_simps bit_marker_iffs)+

lemma neq_bitI: "bit a k \<noteq> bit b k \<Longrightarrow> a \<noteq> b"
  by auto

lemma byte_tests2:
  fixes x :: "32 word"
  shows
  "(take_bit 5 x OR 0xC0) AND 0x80 \<noteq> 0"
  "(take_bit 4 x OR 0xE0) AND 0x80 \<noteq> 0"
  "(take_bit 4 x OR 0xE0) AND 0xE0 \<noteq> 0xC0"
  "(take_bit 3 x OR 0xF0) AND 0x80 \<noteq> 0"
  "(take_bit 3 x OR 0xF0) AND 0xE0 \<noteq> 0xC0"
  "(take_bit 3 x OR 0xF0) AND 0xF0 \<noteq> 0xE0"
  by (rule neq_bitI [of _ 7], simp add: bit_simps bit_marker_iffs,
      rule neq_bitI [of _ 7], simp add: bit_simps bit_marker_iffs,
      rule neq_bitI [of _ 5], simp add: bit_simps bit_marker_iffs,
      rule neq_bitI [of _ 7], simp add: bit_simps bit_marker_iffs,
      rule neq_bitI [of _ 5], simp add: bit_simps bit_marker_iffs,
      rule neq_bitI [of _ 4], simp add: bit_simps bit_marker_iffs)

lemma byte_tests3:
  fixes x :: "32 word"
  shows
   "(take_bit 6 x OR 0x80) AND 0x3F = take_bit 6 x"
   "(take_bit 5 x OR 0xC0) AND 0x1F = take_bit 5 x"
   "(take_bit 4 x OR 0xE0) AND 0x0F = take_bit 4 x"
   "(take_bit 3 x OR 0xF0) AND 0x0F = take_bit 3 x"
   "take_bit 8 (take_bit 6 x OR 0x80) = take_bit 6 x OR 0x80"
   "take_bit 8 (take_bit 5 x OR 0xC0)  = take_bit 5 x OR 0xC0"
   "take_bit 8 (take_bit 4 x OR 0xE0) = take_bit 4 x OR 0xE0"
   "take_bit 8 (take_bit 3 x OR 0xF0) = take_bit 3 x OR 0xF0"
  by (rule bit_word_eqI, auto simp: and_mask_take_bit bit_simps bit_marker_iffs)+

subsection \<open>One symbol\<close>

declare readContinuationByte.simps [simp del]

lemma fits_iff:
  fixes cp :: "32 word"
  shows "cp AND 0xFFFFFF80 = 0 \<longleftrightarrow> take_bit 7 cp = cp"
    and "cp AND 0xFFFFF800 = 0 \<longleftrightarrow> take_bit 11 cp = cp"
    and "cp AND 0xFFFF0000 = 0 \<longleftrightarrow> take_bit 16 cp = cp"
    and "cp AND 0xFFE00000 = 0 \<longleftrightarrow> take_bit 21 cp = cp"
proof -
  have "(0xFFFFFF80 :: 32 word) = NOT (mask 7)" "(0xFFFFF800 :: 32 word) = NOT (mask 11)"
    "(0xFFFF0000 :: 32 word) = NOT (mask 16)" "(0xFFE00000 :: 32 word) = NOT (mask 21)"
    by (simp_all add: mask_eq_exp_minus_1)
  then show "cp AND 0xFFFFFF80 = 0 \<longleftrightarrow> take_bit 7 cp = cp"
    and "cp AND 0xFFFFF800 = 0 \<longleftrightarrow> take_bit 11 cp = cp"
    and "cp AND 0xFFFF0000 = 0 \<longleftrightarrow> take_bit 16 cp = cp"
    and "cp AND 0xFFE00000 = 0 \<longleftrightarrow> take_bit 21 cp = cp"
    by (simp_all only: and_not_mask_eq_0_iff)
qed

lemma readContinuationByte_cont:
  "readContinuationByte ((take_bit 6 x OR 0x80) # bs) = Inr (take_bit 6 x, bs)"
  by (simp add: readContinuationByte.simps Let_def and_mask_take_bit byte_tests1 byte_tests3)

lemma ucast_char: "(ucast (stringFromCharCode x) :: 32 word) = take_bit 16 x"
  unfolding stringFromCharCode_def by (rule bit_word_eqI) (auto simp: bit_simps)

lemma take_bit_16_of_8: "take_bit 8 x = x \<Longrightarrow> take_bit 16 (x :: 32 word) = x"
  by (metis min.absorb2 numeral_le_iff semiring_norm(68) semiring_norm(71) take_bit_take_bit le_num_simps)

lemmas byte_chars = byte_tests3(5-8) byte_tests3(5-8) [THEN take_bit_16_of_8]

lemma fits_less: 
  fixes cp :: "32 word"
  shows "take_bit 7 cp = cp \<longleftrightarrow> cp < 0x80" "take_bit 11 cp = cp \<longleftrightarrow> cp < 0x800"
  "take_bit 16 cp = cp \<longleftrightarrow> cp < 0x10000" "take_bit 21 cp = cp \<longleftrightarrow> cp < 0x200000"
  by (simp_all add: take_bit_self_iff)

lemmas encode_simps = encodeCodePoint_def createByte_def and_mask_take_bit ucast_char byte_chars fits_iff
lemmas decode_simps = Let_def and_mask_take_bit byte_tests1 byte_tests2 byte_tests3 readContinuationByte_cont

lemma encodeCodePoint_bytes:
  fixes cp :: "32 word"
  shows "cp < 0x80 \<Longrightarrow> map ucast (encodeCodePoint cp) = [take_bit 7 cp]"
    and "0x80 \<le> cp \<Longrightarrow> cp < 0x800 \<Longrightarrow> map ucast (encodeCodePoint cp) =
      [take_bit 5 (drop_bit 6 cp) OR 0xC0, take_bit 6 cp OR 0x80]"
    and "0x800 \<le> cp \<Longrightarrow> cp < 0x10000 \<Longrightarrow> map ucast (encodeCodePoint cp) =
      [take_bit 4 (drop_bit 12 cp) OR 0xE0, take_bit 6 (drop_bit 6 cp) OR 0x80, take_bit 6 cp OR 0x80]"
    and "0x10000 \<le> cp \<Longrightarrow> cp < 0x200000 \<Longrightarrow> map ucast (encodeCodePoint cp) =
      [take_bit 3 (drop_bit 18 cp) OR 0xF0, take_bit 6 (drop_bit 12 cp) OR 0x80,
       take_bit 6 (drop_bit 6 cp) OR 0x80, take_bit 6 cp OR 0x80]"
  using fits_less [of cp] by (auto simp: encode_simps not_less order_less_le_trans)

lemma decodeSymbol_encodeCodePoint:
  assumes "cp \<le> 0x10FFFF"
  shows "decodeSymbol (map ucast (encodeCodePoint cp) @ rest) = Inr (Some (cp, rest))"
proof -
  consider "cp < 0x80" | "0x80 \<le> cp" "cp < 0x800" | "0x800 \<le> cp" "cp < 0x10000"
    | "0x10000 \<le> cp" by (meson not_le)
  then show ?thesis
  proof cases
    case 1
    have "decodeSymbol (take_bit 7 cp # rest) = Inr (Some (take_bit 7 cp, rest))"
      by (simp add: decode_simps)
    with 1 show ?thesis by (simp add: encodeCodePoint_bytes fits_less)
  next
    case 2
    then have "push_bit 6 (take_bit 5 (drop_bit 6 cp)) OR take_bit 6 cp = cp"
      using glue_bits [of 6 5 cp] fits_less [of cp] by simp
    with 2 show ?thesis by (simp add: encodeCodePoint_bytes decode_simps)
  next
    case 3
    then have "push_bit 12 (take_bit 4 (drop_bit 12 cp)) OR push_bit 6 (take_bit 6 (drop_bit 6 cp)) OR take_bit 6 cp = cp"
      using glue_bits [of 6 6 cp] glue_bits [of 12 4 cp] fits_less [of cp] by (simp add: or.assoc)
    with 3 show ?thesis by (simp add: encodeCodePoint_bytes decode_simps)
  next
    case 4
    have "cp < 0x200000" by (rule order_le_less_trans [OF assms]) simp
    then have "push_bit 18 (take_bit 3 (drop_bit 18 cp)) OR push_bit 12 (take_bit 6 (drop_bit 12 cp))
      OR push_bit 6 (take_bit 6 (drop_bit 6 cp)) OR take_bit 6 cp = cp"
      using glue_bits [of 6 6 cp] glue_bits [of 12 6 cp] glue_bits [of 18 3 cp] fits_less [of cp]
      by (simp add: or.assoc)
    with 4 assms \<open>cp < 0x200000\<close> show ?thesis by (simp add: encodeCodePoint_bytes decode_simps)
  qed
qed

subsection \<open>Strings\<close>

lemma ucs2decode_bytes: "(\<forall>c \<in> set s. c < 0xD800) \<Longrightarrow> ucs2decode s = map ucast s"
  by (induction s rule: ucs2decode.induct) auto

lemma jschar_byteI:
  fixes c :: jschar
  assumes "take_bit 8 (ucast c :: 32 word) = ucast c"
  shows "c < 0x100"
proof -
  have "bit (take_bit 8 c) n = bit c n" if "n < 16" for n
    using arg_cong [OF assms, of "\<lambda>w. bit w n"] that by (simp add: bit_simps)
  then have "take_bit 8 c = c"
    by (intro bit_word_eqI) simp
  then show ?thesis by (simp add: take_bit_self_iff)
qed

lemma encodeCodePoint_lt:
  assumes "cp \<le> 0x10FFFF" and "c \<in> set (encodeCodePoint cp)"
  shows "c < 0x100"
proof (rule jschar_byteI)
  have lt: "cp < 0x200000" by (rule order_le_less_trans [OF assms(1)]) simp
  consider "cp < 0x80" | "0x80 \<le> cp" "cp < 0x800" | "0x800 \<le> cp" "cp < 0x10000"
    | "0x10000 \<le> cp" by (meson not_le)
  then have "\<forall>y \<in> set (map ucast (encodeCodePoint cp)). take_bit 8 y = (y :: 32 word)"
    using lt by cases (simp_all add: encodeCodePoint_bytes byte_chars del: set_map)
  with assms(2) show "take_bit 8 (ucast c :: 32 word) = ucast c" by auto
qed

subsection \<open>Surrogate pairs\<close>

lemma high_surrogate: 
  assumes "0xD800 \<le> v" "v \<le> (0xDBFF :: jschar)" shows "take_bit 10 v OR 0xD800 = v"
proof -
  have "drop_bit 10 v = 54"
  proof (rule word_unat_eq_iff[THEN iffD2])
    have "55296 \<le> unat v" "unat v \<le> 56319" using assms by (simp_all add: word_le_nat_alt)
    then have "unat v div 1024 = 54" by linarith
    then show "unat (drop_bit 10 v) = unat (54 :: jschar)" by (simp add: drop_bit_eq_div unat_div)
  qed
  moreover have "push_bit 10 (drop_bit 10 v) OR take_bit 10 v = v"
    using glue_bits [of 10 16 v] by (simp add: take_bit_word_eq_self)
  ultimately show ?thesis by (simp add: or.commute)
qed

lemma low_surrogate: 
  assumes "x AND 0xFC00 = (0xDC00 :: jschar)" shows "take_bit 10 x OR 0xDC00 = x"
proof -
  have "(0xFC00 OR 0x3FF :: jschar) = NOT 0" by simp
  then have "x AND (0xFC00 OR 0x3FF) = x" by (simp only: bit.conj_one_right bit.compl_zero)
  then have "(x AND 0xFC00) OR (x AND 0x3FF) = x" by (simp only: bit.conj_disj_distrib)
  with assms show ?thesis by (simp add: and_mask_take_bit or.commute)
qed

lemma surrogate_pair:
  fixes v x :: jschar
  defines "b \<equiv> push_bit 10 (take_bit 10 (ucast v)) + (take_bit 10 (ucast x) :: 32 word)"
  assumes "0xD800 \<le> v" "v \<le> 0xDBFF" "x AND 0xFC00 = 0xDC00"
  shows "stringFromCharCode (take_bit 10 (drop_bit 10 b) OR 0xD800) = v"
    and "stringFromCharCode (0xDC00 OR take_bit 10 b) = x"
    and "b < 0x100000"
proof -
  have b: "b = push_bit 10 (take_bit 10 (ucast v)) OR take_bit 10 (ucast x)"
    unfolding b_def by (subst disjunctive_add) (auto simp: bit_simps)
  have "stringFromCharCode (take_bit 10 (drop_bit 10 b) OR 0xD800) = take_bit 10 v OR 0xD800"
    unfolding b stringFromCharCode_def by (rule bit_word_eqI) (auto simp: bit_simps)
  then show "stringFromCharCode (take_bit 10 (drop_bit 10 b) OR 0xD800) = v"
    by (simp add: high_surrogate assms)
  have "stringFromCharCode (0xDC00 OR take_bit 10 b) = take_bit 10 x OR 0xDC00"
    unfolding b stringFromCharCode_def by (rule bit_word_eqI) (auto simp: bit_simps)
  then show "stringFromCharCode (0xDC00 OR take_bit 10 b) = x"
    by (simp add: low_surrogate assms)
  have "take_bit 20 b = b" 
    unfolding b by (rule bit_word_eqI) (auto simp: bit_simps)
  then show "b < 0x100000" by (simp add: take_bit_self_iff)
qed

lemma ucast_jschar_le: "(ucast (v :: jschar) :: 32 word) \<le> 0xFFFF"
proof -
  have "take_bit 16 (ucast v :: 32 word) = ucast v"
    by (rule bit_word_eqI) (auto simp: bit_simps dest: bit_imp_le_length)
  then have "(ucast v :: 32 word) < 0x10000" by (simp add: take_bit_self_iff)
  then show ?thesis by (simp add: word_less_nat_alt word_le_nat_alt)
qed

lemma stringFromCharCode_ucast [simp]: "stringFromCharCode (ucast v) = v"
  unfolding stringFromCharCode_def by (rule bit_word_eqI) (auto simp: bit_simps)

lemma astral_bounds:
  assumes "(b :: 32 word) < 0x100000"
  shows "0xFFFF < b + 0x10000" and "b + 0x10000 \<le> 0x10FFFF"
proof -
  have "unat (b + 0x10000) = unat b + 0x10000"
    using assms by (simp add: unat_word_ariths word_less_nat_alt)
  then show "0xFFFF < b + 0x10000" and "b + 0x10000 \<le> 0x10FFFF"
    using assms by (simp_all add: word_less_nat_alt word_le_nat_alt)
qed

lemma ucast_jschar_le_max: "(ucast (v :: jschar) :: 32 word) \<le> 0x10FFFF"
  by (rule order_trans [OF ucast_jschar_le]) simp

lemma ucs2decode_range: "cp \<in> set (ucs2decode s) \<Longrightarrow> cp \<le> 0x10FFFF"
  by (induction s rule: ucs2decode.induct)
    (auto simp: ucast_jschar_le_max astral_bounds surrogate_pair and_mask_take_bit
      split: if_splits)

lemma ucs2encode_ucast [simp]: "ucs2encode (ucast v # cps) = v # ucs2encode cps"
  using ucast_jschar_le [of v] by (simp add: not_less [symmetric])

lemma ucs2encode_pair:
  assumes "0xD800 \<le> v" "v \<le> 0xDBFF" "x AND 0xFC00 = (0xDC00 :: jschar)"
  shows "ucs2encode ((push_bit 10 (take_bit 10 (ucast v)) + take_bit 10 (ucast x) + 0x10000) # cps)
         = v # x # ucs2encode cps"
  using surrogate_pair [OF assms] astral_bounds [OF surrogate_pair(3) [OF assms]]
  by (simp add: and_mask_take_bit Let_def)

declare ucs2encode.simps(2) [simp del]

lemma ucs2encode_ucs2decode: "ucs2encode (ucs2decode s) = s"
  by (induction s rule: ucs2decode.induct) (simp_all add: ucs2encode_pair and_mask_take_bit)

lemma decodeSymbols_encode:
  "(\<forall>cp \<in> set cps. cp \<le> 0x10FFFF) \<Longrightarrow>
   decodeSymbols (map ucast (concat (map encodeCodePoint cps))) = Inr cps"
proof (induction cps)
  case Nil
  then show ?case by (simp add: decodeSymbols.simps)
next
  case (Cons cp cps)
  then show ?case
    by (simp add: decodeSymbols.simps [of "map ucast (encodeCodePoint cp) @ _"]
        decodeSymbol_encodeCodePoint)
qed

subsection \<open>Round trip\<close>

lemma wtf8decode_encode: "wtf8decode (wtf8encode s) = Inr s"
proof -
  let ?b = "wtf8encode s"
  have "c < 0xD800" if c: "c \<in> set ?b" for c
  proof -
    from c have "c < 0x100"
      by (auto simp: wtf8encode_def dest: encodeCodePoint_lt [OF ucs2decode_range])
    then show ?thesis by (rule order_less_trans) simp
  qed
  then have "ucs2decode ?b = map ucast ?b" by (simp add: ucs2decode_bytes)
  then show ?thesis
    by (simp add: wtf8decode_def wtf8encode_def decodeSymbols_encode ucs2decode_range
        ucs2encode_ucs2decode del: map_concat map_map)
qed

text \<open>
  C32. Every JavaScript string, unpaired surrogates included, survives the engine.io
  WTF-8 codec: decoding the bytes that \<open>wtf8encode\<close> makes of it raises no exception and
  gives the same code units back.
\<close>

theorem wtf8_roundtrip: "wtf8decode (wtf8encode s) = Inr s"
  by (rule wtf8decode_encode)

end
