(* ===== verification/Base64.thy ===== *)
theory Base64
  imports Prelude
begin

text \<open>
  The base64-arraybuffer codec (module 33 of the bundle), with which the engine.io parser
  decodes the binary frames of a text transport.

  A \<open>Uint8Array\<close> is a list of bytes. An element read past its end is \<open>undefined\<close>, which every
  bitwise operator turns into 0 (\<open>byteAt\<close>); an element written past its end is dropped (the
  \<open>take\<close> of \<open>base64_decode\<close>); \<open>new ArrayBuffer(n)\<close> truncates a fractional length.
\<close>

subsection \<open>The code\<close>

definition chars :: jsstr where
  "chars = lit ''ABCDEFGHIJKLMNOPQRSTUVWXYZabcdefghijklmnopqrstuvwxyz0123456789+/''"

definition lookup :: bytes where
  "lookup = fold (\<lambda>i t. t[unat (chars ! i) := of_nat i]) [0..<length chars] (replicate 256 0)"

definition byteAt :: "bytes \<Rightarrow> nat \<Rightarrow> 32 word" where
  "byteAt xs i = (if i < length xs then ucast (xs ! i) else 0)"

definition lookupAt :: "jsstr \<Rightarrow> nat \<Rightarrow> 32 word" where
  "lookupAt s i = (if i < length s then byteAt lookup (unat (s ! i)) else 0)"

definition encodeGroup :: "bytes \<Rightarrow> jsstr" where
  "encodeGroup bs =
     [chars ! unat (drop_bit 2 (byteAt bs 0)),
      chars ! unat (push_bit 4 (byteAt bs 0 AND 3) OR drop_bit 4 (byteAt bs 1)),
      chars ! unat (push_bit 2 (byteAt bs 1 AND 15) OR drop_bit 6 (byteAt bs 2)),
      chars ! unat (byteAt bs 2 AND 63)]"

fun encodeGroups :: "bytes \<Rightarrow> jsstr" where
  "encodeGroups [] = []"
| "encodeGroups (b # bs) = encodeGroup (b # bs) @ encodeGroups (drop 2 bs)"

definition base64_encode :: "bytes \<Rightarrow> jsstr" where
  "base64_encode bytes =
     (let base64 = encodeGroups bytes in
      if length bytes mod 3 = 2 then take (length base64 - 1) base64 @ lit ''=''
      else if length bytes mod 3 = 1 then take (length base64 - 2) base64 @ lit ''==''
      else base64)"

definition decodeGroup :: "jsstr \<Rightarrow> bytes" where
  "decodeGroup s =
     (let encoded1 = lookupAt s 0; encoded2 = lookupAt s 1;
          encoded3 = lookupAt s 2; encoded4 = lookupAt s 3 in
      [ucast (push_bit 2 encoded1 OR drop_bit 4 encoded2),
       ucast (push_bit 4 (encoded2 AND 15) OR drop_bit 2 encoded3),
       ucast (push_bit 6 (encoded3 AND 3) OR (encoded4 AND 63))])"

fun decodeGroups :: "jsstr \<Rightarrow> bytes" where
  "decodeGroups [] = []"
| "decodeGroups (c # s) = decodeGroup (c # s) @ decodeGroups (drop 3 s)"

definition bufferLength :: "jsstr \<Rightarrow> nat" where
  "bufferLength base64 =
     (let pad = (if base64 \<noteq> [] \<and> base64 ! (length base64 - 1) = of_char (CHR ''='')
                 then if length base64 \<ge> 2 \<and> base64 ! (length base64 - 2) = of_char (CHR ''='')
                      then 2 else 1
                 else 0)
      in (3 * length base64 - 4 * pad) div 4)"

definition base64_decode :: "jsstr \<Rightarrow> bytes" where
  "base64_decode base64 = take (bufferLength base64) (decodeGroups base64)"

subsection \<open>The tables\<close>

lemma length_chars: "length chars = 64"
  by (simp add: chars_def)

lemma distinct_chars: "distinct chars"
  by (simp add: chars_def)

lemma chars_less: "i < 64 \<Longrightarrow> unat (chars ! i) < 256"
  by (simp add: chars_def nth_lit)

lemma pad_not_in_chars: "of_char (CHR ''='') \<notin> set chars"
  by (auto simp: chars_def lit_def)

lemma lookup_table:
  shows length_lookup: "length lookup = 256"
    and lookup_nth: "i < 64 \<Longrightarrow> lookup ! unat (chars ! i) = of_nat i"
    and lookup_other: "c \<notin> set chars \<Longrightarrow> unat c < 256 \<Longrightarrow> lookup ! unat c = 0"
proof -
  have inj: "inj_on (\<lambda>i. unat (chars ! i)) {..<64}"
  proof (rule inj_onI)
    fix i j assume "i \<in> {..<64}" "j \<in> {..<64}" "unat (chars ! i) = unat (chars ! j)"
    then have "chars ! i = chars ! j" "i < length chars" "j < length chars"
      by (simp_all add: word_unat_eq_iff length_chars)
    with distinct_chars show "i = j" by (simp add: nth_eq_iff_index_eq)
  qed
  have range: "\<forall>i < 64. unat (chars ! i) < length (replicate 256 (0 :: 8 word))"
    unfolding length_replicate by (simp add: chars_less)
  note fold = fold_update_nth [where k = 64 and f = "\<lambda>i. unat (chars ! i)" and
      t = "replicate 256 0" and g = "of_nat :: nat \<Rightarrow> 8 word", OF inj range]
  show "length lookup = 256"
    unfolding lookup_def length_chars by (rule fold(1) [unfolded length_replicate])
  show "lookup ! unat (chars ! i) = of_nat i" if "i < 64"
    unfolding lookup_def length_chars using that by (rule fold(2))
  show "lookup ! unat c = 0" if "c \<notin> set chars" "unat c < 256" for c
  proof -
    have "unat c \<notin> (\<lambda>i. unat (chars ! i)) ` {..<64}"
      using that by (auto simp: length_chars in_set_conv_nth word_unat_eq_iff)
    then have "lookup ! unat c = replicate 256 0 ! unat c"
      unfolding lookup_def length_chars by (rule fold(3))
    then show ?thesis using that by simp
  qed
qed

lemma lookup_chars:
  assumes "take_bit 6 x = (x :: 32 word)"
  shows "byteAt lookup (unat (chars ! unat x)) = x" and "chars ! unat x \<noteq> of_char (CHR ''='')"
proof -
  have x: "unat x < 64"
    using assms by (simp add: take_bit_self_iff word_less_nat_alt)
  have "(ucast (ucast (take_bit 6 x) :: 8 word) :: 32 word) = take_bit 6 x"
    by (auto intro!: bit_word_eqI simp: bit_simps)
  then show "byteAt lookup (unat (chars ! unat x)) = x"
    using x assms by (simp add: byteAt_def chars_less length_lookup lookup_nth)
  show "chars ! unat x \<noteq> of_char (CHR ''='')"
    using x pad_not_in_chars by (metis length_chars nth_mem)
qed

lemma lookup_pad: "byteAt lookup (unat (of_char (CHR ''='') :: jschar)) = 0"
  using lookup_other [OF pad_not_in_chars] by (simp add: byteAt_def)

subsection \<open>One group\<close>

lemma byteAt_8: "take_bit 8 (byteAt bs i) = byteAt bs i"
  using bit_imp_le_length [of "bs ! i"]
  unfolding byteAt_def by (auto intro!: bit_word_eqI simp: bit_simps)

lemma sextets:
  "take_bit 6 (drop_bit 2 (byteAt bs i)) = drop_bit 2 (byteAt bs i)"
  "take_bit 6 (push_bit 4 (byteAt bs i AND 3) OR drop_bit 4 (byteAt bs j))
   = push_bit 4 (byteAt bs i AND 3) OR drop_bit 4 (byteAt bs j)"
  "take_bit 6 (push_bit 2 (byteAt bs i AND 15) OR drop_bit 6 (byteAt bs j))
   = push_bit 2 (byteAt bs i AND 15) OR drop_bit 6 (byteAt bs j)"
  "take_bit 6 (byteAt bs i AND 63) = byteAt bs i AND 63"
proof -
  have "bit (byteAt bs k) n \<Longrightarrow> n < 8" for k n
    using byteAt_8 [of bs k] by (metis bit_take_bit_iff)
  then show
    "take_bit 6 (drop_bit 2 (byteAt bs i)) = drop_bit 2 (byteAt bs i)"
    "take_bit 6 (push_bit 4 (byteAt bs i AND 3) OR drop_bit 4 (byteAt bs j))
     = push_bit 4 (byteAt bs i AND 3) OR drop_bit 4 (byteAt bs j)"
    "take_bit 6 (push_bit 2 (byteAt bs i AND 15) OR drop_bit 6 (byteAt bs j))
     = push_bit 2 (byteAt bs i AND 15) OR drop_bit 6 (byteAt bs j)"
    "take_bit 6 (byteAt bs i AND 63) = byteAt bs i AND 63"
    unfolding and_mask_take_bit
    by (fastforce intro!: bit_word_eqI simp: bit_simps)+
qed

lemma length_encodeGroup [simp]: "length (encodeGroup bs) = 4"
  by (simp add: encodeGroup_def)

lemma decodeGroup_chars:
  assumes "take_bit 6 w = w" "take_bit 6 x = x" "take_bit 6 y = (y :: 32 word)" "take_bit 6 z = z"
  defines "c \<equiv> (\<lambda>v :: 32 word. chars ! unat v)" and "pad \<equiv> of_char (CHR ''='')"
  shows "decodeGroup (c w # c x # c y # c z # s) =
      [ucast (push_bit 2 w OR drop_bit 4 x), ucast (push_bit 4 (x AND 15) OR drop_bit 2 y),
       ucast (push_bit 6 (y AND 3) OR (z AND 63))]"
    and "decodeGroup (c w # c x # c y # pad # s) =
      [ucast (push_bit 2 w OR drop_bit 4 x), ucast (push_bit 4 (x AND 15) OR drop_bit 2 y),
       ucast (push_bit 6 (y AND 3))]"
    and "decodeGroup (c w # c x # pad # pad # s) =
      [ucast (push_bit 2 w OR drop_bit 4 x), ucast (push_bit 4 (x AND 15)), 0]"
  unfolding c_def pad_def decodeGroup_def
  by (simp_all add: lookupAt_def lookup_chars assms lookup_pad [simplified])

lemma byte_eqI:
  fixes x y :: "8 word"
  assumes "bit x 0 = bit y 0" "bit x 1 = bit y 1" "bit x 2 = bit y 2" "bit x 3 = bit y 3"
    "bit x 4 = bit y 4" "bit x 5 = bit y 5" "bit x 6 = bit y 6" "bit x 7 = bit y 7"
  shows "x = y"
proof (rule bit_word_eqI)
  fix n :: nat
  assume "n < LENGTH(8)"
  then have "n \<in> {0, 1, 2, 3, 4, 5, 6, 7}" by auto
  with assms show "bit x n = bit y n" by auto
qed

lemma bit_byte_high: "8 \<le> n \<Longrightarrow> \<not> bit (x :: 8 word) n"
  using bit_imp_le_length [of x n] by auto

lemma regroup:
  fixes a b c :: "8 word"
  defines "A \<equiv> ucast a :: 32 word" and "B \<equiv> ucast b :: 32 word" and "C \<equiv> ucast c :: 32 word"
  shows "ucast (push_bit 2 (drop_bit 2 A) OR drop_bit 4 (push_bit 4 (A AND 3) OR drop_bit 4 B)) = a"
    and "ucast (push_bit 4 ((push_bit 4 (A AND 3) OR drop_bit 4 B) AND 15)
                OR drop_bit 2 (push_bit 2 (B AND 15) OR drop_bit 6 C)) = b"
    and "ucast (push_bit 6 ((push_bit 2 (B AND 15) OR drop_bit 6 C) AND 3) OR ((C AND 63) AND 63)) = c"
  unfolding A_def B_def C_def and_mask_take_bit
  by (rule byte_eqI; simp add: bit_simps bit_byte_high)+

lemma take_groups:
  "take 3 [w, x, y, z] = [w, x, y]" "take 2 [w, x, y, z] = [w, x]"
  by simp_all

lemma decodeGroup_encodeGroup:
  "decodeGroup (encodeGroup [a, b, c] @ s) = [a, b, c]"
  "\<exists>x. decodeGroup (take 3 (encodeGroup [a, b]) @ lit ''='') = [a, b, x]"
  "\<exists>x y. decodeGroup (take 2 (encodeGroup [a]) @ lit ''=='') = [a, x, y]"
proof -
  have full: "byteAt [a, b, c] 0 = ucast a" "byteAt [a, b, c] 1 = ucast b" "byteAt [a, b, c] 2 = ucast c"
    and two: "byteAt [a, b] 0 = ucast a" "byteAt [a, b] 1 = ucast b" "byteAt [a, b] 2 = ucast (0 :: 8 word)"
    and one: "byteAt [a] 0 = ucast a" "byteAt [a] 1 = ucast (0 :: 8 word)"
    by (simp_all add: byteAt_def)
  have lits: "lit ''='' = [of_char (CHR ''='')]"
    "lit ''=='' = [of_char (CHR ''=''), of_char (CHR ''='')]"
    by (simp_all add: lit_def)
  note groups = decodeGroup_chars [OF sextets(1) [of _ 0] sextets(2) [of _ 0 1]
      sextets(3) [of _ 1 2] sextets(4) [of _ 2]]
  show "decodeGroup (encodeGroup [a, b, c] @ s) = [a, b, c]"
    by (simp only: encodeGroup_def append_Cons append_Nil groups, simp only: full regroup)
  show "\<exists>x. decodeGroup (take 3 (encodeGroup [a, b]) @ lit ''='') = [a, b, x]"
    by (simp only: encodeGroup_def take_groups lits append_Cons append_Nil groups, simp only: two regroup, blast)
  show "\<exists>x y. decodeGroup (take 2 (encodeGroup [a]) @ lit ''=='') = [a, x, y]"
    by (simp only: encodeGroup_def take_groups lits append_Cons append_Nil groups, simp only: one regroup, blast)
qed

subsection \<open>Whole buffers\<close>

lemma encodeGroups_neq_Nil: "bs \<noteq> [] \<Longrightarrow> 4 \<le> length (encodeGroups bs)"
  by (cases bs) simp_all

lemma encodeGroup_cong: "encodeGroup (a # b # c # rest) = encodeGroup [a, b, c]"
  by (simp add: encodeGroup_def byteAt_def)

lemma take_butlast_append:
  "k \<le> length x \<Longrightarrow> take (length (g @ x) - k) (g @ x) = g @ take (length x - k) x"
  by simp

lemma base64_encode_simps:
  "base64_encode [] = []"
  "base64_encode [a] = take 2 (encodeGroup [a]) @ lit ''==''"
  "base64_encode [a, b] = take 3 (encodeGroup [a, b]) @ lit ''=''"
  "base64_encode (a # b # c # rest) = encodeGroup [a, b, c] @ base64_encode rest"
proof -
  have len: "length (a # b # c # rest) mod 3 = length rest mod 3" by simp
  have grp: "encodeGroups (a # b # c # rest) = encodeGroup [a, b, c] @ encodeGroups rest"
    by (simp add: encodeGroup_cong [of a b c rest])
  have ge: "length rest mod 3 \<noteq> 0 \<Longrightarrow> 4 \<le> length (encodeGroups rest)"
    using encodeGroups_neq_Nil [of rest] by (cases "rest = []") simp_all
  consider "length rest mod 3 = 0" | "length rest mod 3 = 1" | "length rest mod 3 = 2"
    using mod_less_divisor [of 3 "length rest"] by fastforce
  then show "base64_encode (a # b # c # rest) = encodeGroup [a, b, c] @ base64_encode rest"
    using ge
    by cases (simp_all only: base64_encode_def Let_def len grp, simp_all)
  show "base64_encode [a, b] = take 3 (encodeGroup [a, b]) @ lit ''=''"
    by (simp add: base64_encode_def Let_def)
  show "base64_encode [a] = take 2 (encodeGroup [a]) @ lit ''==''"
    by (simp add: base64_encode_def Let_def)
  show "base64_encode [] = []"
    by (simp add: base64_encode_def)
qed

lemma list3_induct [case_names Nil One Two Three]:
  assumes "P []" and "\<And>a. P [a]" and "\<And>a b. P [a, b]"
    and "\<And>a b c rest. P rest \<Longrightarrow> P (a # b # c # rest)"
  shows "P bs"
proof (induction bs rule: length_induct)
  case (1 bs)
  consider "bs = []" | a where "bs = [a]" | a b where "bs = [a, b]"
    | a b c rest where "bs = a # b # c # rest"
    by (metis list.exhaust)
  then show ?case using 1 assms by cases auto
qed

lemma base64_encode_length: "bs \<noteq> [] \<Longrightarrow> 4 \<le> length (base64_encode bs)"
  by (induction bs rule: list3_induct) (simp_all add: base64_encode_simps)

lemma decodeGroups_append:
  assumes "length g = 4"
  shows "decodeGroups (g @ s) = decodeGroup g @ decodeGroups s"
proof -
  from assms obtain w x y z where g: "g = [w, x, y, z]"
    by (auto simp: length_Suc_conv numeral_eq_Suc)
  have "decodeGroup ([w, x, y, z] @ s) = decodeGroup [w, x, y, z]"
    by (simp add: decodeGroup_def lookupAt_def)
  then show ?thesis by (simp add: g)
qed

lemma encodeGroup_no_pad: "c \<in> set (encodeGroup bs) \<Longrightarrow> c \<noteq> of_char (CHR ''='')"
  unfolding encodeGroup_def set_simps insert_iff empty_iff
  by (elim disjE FalseE; hypsubst, rule lookup_chars(2), rule sextets)

lemma bufferLength_append:
  assumes "length g = 4" "4 \<le> length s"
  shows "bufferLength (g @ s) = 3 + bufferLength s"
  using assms by (auto simp: bufferLength_def nth_append Let_def)

lemma bufferLength_groups:
  "bufferLength [] = 0"
  "bufferLength (encodeGroup bs) = 3"
  "bufferLength (take 3 (encodeGroup bs) @ lit ''='') = 2"
  "bufferLength (take 2 (encodeGroup bs) @ lit ''=='') = 1"
proof -
  have "encodeGroup bs ! i \<noteq> of_char (CHR ''='')" if "i < 4" for i
    using that by (intro encodeGroup_no_pad [of _ bs]) simp
  from this [of 3] this [of 2] this [of 1]
  show "bufferLength [] = 0" "bufferLength (encodeGroup bs) = 3"
    "bufferLength (take 3 (encodeGroup bs) @ lit ''='') = 2"
    "bufferLength (take 2 (encodeGroup bs) @ lit ''=='') = 1"
    by (simp_all add: bufferLength_def nth_append lit_def Let_def)
qed

lemma base64_decode_encode: "base64_decode (base64_encode bs) = bs"
proof (induction bs rule: list3_induct)
  case (One a)
  obtain x y where "decodeGroup (take 2 (encodeGroup [a]) @ lit ''=='') = [a, x, y]"
    using decodeGroup_encodeGroup(3) by blast
  then show ?case
    using decodeGroups_append [of "take 2 (encodeGroup [a]) @ lit ''==''" "[]"]
    by (simp add: base64_decode_def base64_encode_simps bufferLength_groups)
next
  case (Two a b)
  obtain x where "decodeGroup (take 3 (encodeGroup [a, b]) @ lit ''='') = [a, b, x]"
    using decodeGroup_encodeGroup(2) by blast
  then show ?case
    using decodeGroups_append [of "take 3 (encodeGroup [a, b]) @ lit ''=''" "[]"]
    by (simp add: base64_decode_def base64_encode_simps bufferLength_groups)
next
  case (Three a b c rest)
  have "decodeGroup (encodeGroup [a, b, c]) = [a, b, c]"
    using decodeGroup_encodeGroup(1) [of a b c "[]"] by simp
  then show ?case
    using Three base64_encode_length [of rest]
    by (cases "rest = []")
      (simp_all add: base64_decode_def base64_encode_simps decodeGroups_append
        decodeGroups_append [of _ "[]", simplified] bufferLength_append bufferLength_groups
        numeral_eq_Suc)
qed (simp add: base64_decode_def base64_encode_simps)

subsection \<open>The standard\<close>

text \<open>
  Base 64 as RFC 4648 states it: the octets in order as one bit string, most significant
  bit first, cut into groups of six with zero bits appended to the last one, one character
  for each group, and \<open>=\<close> up to a multiple of four characters.
\<close>

definition octet_bits :: "8 word \<Rightarrow> bool list" where
  "octet_bits b = map (bit b) [7, 6, 5, 4, 3, 2, 1, 0]"

fun sextet_chars :: "bool list \<Rightarrow> jsstr" where
  "sextet_chars [] = []"
| "sextet_chars (v # vs) =
     chars ! horner_sum of_bool 2 (rev (take 6 ((v # vs) @ replicate 5 False)))
     # sextet_chars (drop 5 vs)"

definition rfc4648 :: "bytes \<Rightarrow> jsstr" where
  "rfc4648 bs =
     (let s = sextet_chars (concat (map octet_bits bs)) in
      s @ replicate ((4 - length s mod 4) mod 4) (of_char (CHR ''='')))"

lemma sextet_value:
  assumes "take_bit 6 w = (w :: 32 word)"
  shows "unat w = horner_sum of_bool 2 [bit w 0, bit w 1, bit w 2, bit w 3, bit w 4, bit w 5]"
proof -
  have "unat w = take_bit 6 (unat w)"
    using assms by (metis unsigned_take_bit_eq)
  also have "\<dots> = horner_sum of_bool 2 (map (bit (unat w)) [0..<6])"
    by (simp add: horner_sum_bit_eq_take_bit)
  also have "map (bit (unat w)) [0..<6] = [bit w 0, bit w 1, bit w 2, bit w 3, bit w 4, bit w 5]"
    by (simp add: upt_rec bit_unsigned_iff numeral_eq_Suc)
  finally show ?thesis .
qed

lemma octet_bits_byteAt: "octet_bits b = map (bit (ucast b :: 32 word)) [7, 6, 5, 4, 3, 2, 1, 0]"
  by (simp add: octet_bits_def bit_ucast_iff)

lemma encodeGroup_bits:
  "encodeGroup bs =
     (let b = (\<lambda>i. bit (byteAt bs i)); v = (\<lambda>bits. chars ! horner_sum of_bool 2 bits) in
      [v [b 0 2, b 0 3, b 0 4, b 0 5, b 0 6, b 0 7],
       v [b 1 4, b 1 5, b 1 6, b 1 7, b 0 0, b 0 1],
       v [b 2 6, b 2 7, b 1 0, b 1 1, b 1 2, b 1 3],
       v [b 2 0, b 2 1, b 2 2, b 2 3, b 2 4, b 2 5]])"
proof -
  have high: "\<not> bit (byteAt bs i) n" if "8 \<le> n" for i n
    using byteAt_8 [of bs i] that by (metis bit_take_bit_iff not_less)
  show ?thesis
    unfolding encodeGroup_def Let_def
    by (simp only: sextet_value [OF sextets(1)] sextet_value [OF sextets(2)]
        sextet_value [OF sextets(3)] sextet_value [OF sextets(4)])
      (simp add: bit_simps and_mask_take_bit high)
qed

lemma sextet_chars_steps:
  "sextet_chars (v0 # v1 # v2 # v3 # v4 # v5 # vs) =
     chars ! horner_sum of_bool 2 [v5, v4, v3, v2, v1, v0] # sextet_chars vs"
  "sextet_chars [v0, v1, v2, v3] = [chars ! horner_sum of_bool 2 [False, False, v3, v2, v1, v0]]"
  "sextet_chars [v0, v1] = [chars ! horner_sum of_bool 2 [False, False, False, False, v1, v0]]"
  by (simp_all add: numeral_eq_Suc del: horner_sum_simps)

lemma bit_byteAt:
  "bit (byteAt [a, b, c] 0) n \<longleftrightarrow> bit (ucast a :: 32 word) n"
  "bit (byteAt [a, b, c] 1) n \<longleftrightarrow> bit (ucast b :: 32 word) n"
  "bit (byteAt [a, b, c] 2) n \<longleftrightarrow> bit (ucast c :: 32 word) n"
  "bit (byteAt [a, b] 0) n \<longleftrightarrow> bit (ucast a :: 32 word) n"
  "bit (byteAt [a, b] 1) n \<longleftrightarrow> bit (ucast b :: 32 word) n"
  "bit (byteAt [a, b] 2) n \<longleftrightarrow> False"
  "bit (byteAt [a] 0) n \<longleftrightarrow> bit (ucast a :: 32 word) n"
  "bit (byteAt [a] 1) n \<longleftrightarrow> False"
  "bit (byteAt [a] 2) n \<longleftrightarrow> False"
  by (simp_all add: byteAt_def)

lemma sextet_chars_groups:
  "sextet_chars (octet_bits a @ octet_bits b @ octet_bits c @ vs) = encodeGroup [a, b, c] @ sextet_chars vs"
  "sextet_chars (octet_bits a @ octet_bits b) = take 3 (encodeGroup [a, b])"
  "sextet_chars (octet_bits a) = take 2 (encodeGroup [a])"
  by (simp_all only: encodeGroup_bits octet_bits_byteAt Let_def bit_byteAt list.map append_Cons
      append_Nil sextet_chars_steps take_groups)

lemma rfc4648_eq_encode: "rfc4648 bs = base64_encode bs"
proof (induction bs rule: list3_induct)
  case Nil
  show ?case by (simp add: rfc4648_def base64_encode_simps)
next
  case (One a)
  show ?case
    by (simp add: rfc4648_def base64_encode_simps sextet_chars_groups Let_def lit_def replicate_two)
next
  case (Two a b)
  show ?case
    by (simp add: rfc4648_def base64_encode_simps sextet_chars_groups Let_def lit_def)
next
  case (Three a b c rest)
  then show ?case
    by (simp add: rfc4648_def base64_encode_simps sextet_chars_groups Let_def)
qed

subsection \<open>Properties\<close>

text \<open>
  C33. Decoding what \<open>encode\<close> makes of a buffer gives exactly the buffer back: the length
  computed from the padding is right and no byte of the partial last group is lost.
\<close>

theorem base64_roundtrip: "base64_decode (base64_encode buffer) = buffer"
  by (rule base64_decode_encode)

text \<open>
  C34. The group-wise encoder with its substring corrections computes base 64 as RFC 4648
  defines it on the bit string of the octets, padding included.
\<close>

theorem base64_encode_standard: "base64_encode buffer = rfc4648 buffer"
  by (rule rfc4648_eq_encode [symmetric])

end
