(* ===== verification/Yeast.thy ===== *)
theory Yeast
  imports Prelude
begin

text \<open>
  Yeast (module 38 of the bundle), the generator of the cache-busting identifiers that the
  polling and WebSocket transports add to their query. Its module variables \<open>prev\<close> and
  \<open>seed\<close> are a record, the clock is an argument. Times are natural numbers: JavaScript
  computes these integers exactly below 2^53.
\<close>

subsection \<open>The code\<close>

definition alphabet :: jsstr where
  "alphabet = lit ''0123456789ABCDEFGHIJKLMNOPQRSTUVWXYZabcdefghijklmnopqrstuvwxyz-_''"

definition radix :: nat where
  "radix = 64"

function encode_acc :: "nat \<Rightarrow> jsstr \<Rightarrow> jsstr" where
  "encode_acc num encoded =
     (let encoded' = alphabet ! (num mod radix) # encoded; num' = num div radix in
      if num' > 0 then encode_acc num' encoded' else encoded')"
  by pat_completeness auto
termination
  by (relation "measure fst") (auto simp: radix_def)

declare encode_acc.simps [simp del]

definition yeast_encode :: "nat \<Rightarrow> jsstr" where
  "yeast_encode num = encode_acc num []"

text \<open>
  The index of a character is read from the object \<open>map\<close>; a character without an entry is
  \<open>undefined\<close> and makes the sum \<open>NaN\<close>, here \<open>None\<close>.
\<close>

definition map_index :: "jschar \<rightharpoonup> nat" where
  "map_index = fold (\<lambda>i m. m(alphabet ! i \<mapsto> i)) [0..<radix] Map.empty"

definition yeast_decode :: "jsstr \<Rightarrow> nat option" where
  "yeast_decode str =
     fold (\<lambda>c decoded. case (decoded, map_index c) of
             (Some d, Some k) \<Rightarrow> Some (d * radix + k)
           | _ \<Rightarrow> None) str (Some 0)"

record yeast_state =
  prev :: "jsstr option"
  seed :: nat

definition yeast_init :: yeast_state where
  "yeast_init = \<lparr>prev = None, seed = 0\<rparr>"

definition yeast :: "nat \<Rightarrow> yeast_state \<Rightarrow> jsstr \<times> yeast_state" where
  "yeast clock st =
     (let now = yeast_encode clock in
      if Some now \<noteq> prev st then (now, st\<lparr>seed := 0, prev := Some now\<rparr>)
      else (now @ lit ''.'' @ yeast_encode (seed st), st\<lparr>seed := Suc (seed st)\<rparr>))"

fun yeasts :: "nat list \<Rightarrow> yeast_state \<Rightarrow> jsstr list" where
  "yeasts [] st = []"
| "yeasts (t # ts) st = (let (s, st') = yeast t st in s # yeasts ts st')"

subsection \<open>Encoding and decoding\<close>

lemma length_alphabet: "length alphabet = 64"
  by (simp add: alphabet_def)

lemma distinct_alphabet: "distinct alphabet"
  by (simp add: alphabet_def)

lemma dot_not_in_alphabet: "of_char (CHR ''.'') \<notin> set alphabet"
  by (auto simp: alphabet_def lit_def)

lemma map_index_upt:
  "j < n \<Longrightarrow> n \<le> length a \<Longrightarrow> distinct a \<Longrightarrow>
   fold (\<lambda>i m. m(a ! i \<mapsto> i)) [0..<n] Map.empty (a ! j) = Some j"
  by (induction n) (auto simp: nth_eq_iff_index_eq less_Suc_eq)

lemma map_index_alphabet: "i < 64 \<Longrightarrow> map_index (alphabet ! i) = Some i"
  unfolding map_index_def radix_def
  by (rule map_index_upt) (simp_all add: length_alphabet distinct_alphabet)

lemma encode_acc_append: "encode_acc n acc = encode_acc n [] @ acc"
proof (induction n arbitrary: acc rule: less_induct)
  case (less n)
  show ?case
  proof (cases "n div radix > 0")
    case True
    then have "n div radix < n" by (simp add: radix_def)
    note IH = less [OF this, of "alphabet ! (n mod radix) # _"]
    have "encode_acc n acc = encode_acc (n div radix) (alphabet ! (n mod radix) # acc)" for acc
      using True by (subst encode_acc.simps) (simp add: Let_def)
    then show ?thesis
      using IH [of acc] IH [of "[]"] by simp
  qed (simp add: encode_acc.simps [of n] Let_def)
qed

lemma yeast_encode_rec:
  "yeast_encode n = (if n < radix then [] else yeast_encode (n div radix)) @ [alphabet ! (n mod radix)]"
proof -
  have "n div radix > 0 \<longleftrightarrow> \<not> n < radix"
    by (simp add: radix_def div_greater_zero_iff not_less)
  then show ?thesis
    unfolding yeast_encode_def
    by (subst encode_acc.simps) (simp add: Let_def encode_acc_append [of "n div radix" "[_]"])
qed

lemma yeast_decode_encode: "yeast_decode (yeast_encode n) = Some n"
proof (induction n rule: less_induct)
  case (less n)
  have "n mod radix < 64" "\<not> n < radix \<Longrightarrow> n div radix < n"
    by (simp_all add: radix_def)
  with less show ?case
    by (subst yeast_encode_rec) (auto simp: yeast_decode_def map_index_alphabet)
qed

lemma inj_yeast_encode: "yeast_encode m = yeast_encode n \<longleftrightarrow> m = n"
  using yeast_decode_encode by (metis option.inject)

lemma yeast_encode_alphabet: "set (yeast_encode n) \<subseteq> set alphabet"
proof (induction n rule: less_induct)
  case (less n)
  have "alphabet ! (n mod radix) \<in> set alphabet"
    by (simp add: length_alphabet radix_def)
  moreover have "\<not> n < radix \<Longrightarrow> n div radix < n"
    by (simp add: radix_def)
  ultimately show ?case
    using less by (subst yeast_encode_rec) auto
qed

lemma no_dot: "of_char (CHR ''.'') \<notin> set (yeast_encode n)"
  using yeast_encode_alphabet dot_not_in_alphabet by blast

subsection \<open>The generator\<close>

text \<open>
  An identifier is the time, alone or with a counter. \<open>yid t None\<close> is the first
  one of a millisecond and \<open>yid t (Some k)\<close> the ones after it.
\<close>

definition yid :: "nat \<Rightarrow> nat option \<Rightarrow> jsstr" where
  "yid t k = (case k of None \<Rightarrow> yeast_encode t | Some k \<Rightarrow> yeast_encode t @ lit ''.'' @ yeast_encode k)"

lemma append_sep_eq:
  assumes "c \<notin> set xs" "c \<notin> set xs'"
  shows "xs @ c # ys = xs' @ c # ys' \<longleftrightarrow> xs = xs' \<and> ys = ys'"
  using assms
proof (induction xs arbitrary: xs')
  case Nil
  then show ?case by (cases xs') auto
next
  case (Cons x xs)
  then show ?case by (cases xs') auto
qed

lemma yid_inject: "yid t k = yid t' k' \<longleftrightarrow> t = t' \<and> k = k'"
proof -
  have "lit ''.'' = [of_char (CHR ''.'')]" by (simp add: lit_def)
  moreover have "yeast_encode t \<noteq> yeast_encode t' @ of_char (CHR ''.'') # ys" for t t' ys
    using no_dot [of t] by (metis in_set_conv_decomp)
  ultimately show ?thesis
    using no_dot by (auto simp: yid_def inj_yeast_encode append_sep_eq split: option.splits
        dest: sym [of "_ @ _" "yeast_encode _"])
qed


text \<open>The identifiers a state can still hand out at the time \<open>t\<close> or later.\<close>

definition fresh :: "yeast_state \<Rightarrow> nat \<Rightarrow> jsstr \<Rightarrow> bool" where
  "fresh st t s \<longleftrightarrow> (\<exists>t' k. s = yid t' k \<and> t \<le> t' \<and>
     (prev st = Some (yeast_encode t') \<longrightarrow> (\<exists>n. k = Some n \<and> seed st \<le> n)))"

definition prev_before :: "yeast_state \<Rightarrow> nat \<Rightarrow> bool" where
  "prev_before st t \<longleftrightarrow> (\<forall>t'. prev st = Some (yeast_encode t') \<longrightarrow> t' \<le> t)"

lemma yeast_yid:
  "yeast t st =
     (if Some (yeast_encode t) \<noteq> prev st
      then (yid t None, st\<lparr>seed := 0, prev := Some (yeast_encode t)\<rparr>)
      else (yid t (Some (seed st)), st\<lparr>seed := Suc (seed st)\<rparr>))"
  by (simp add: yeast_def yid_def Let_def)

lemma yeast_step:
  assumes "yeast t st = (s, st')" and "prev_before st t"
  shows "fresh st t s" and "\<not> fresh st' t' s" and "prev_before st' t"
    and "t \<le> t' \<Longrightarrow> fresh st' t' s' \<Longrightarrow> fresh st t s'"
  using assms unfolding fresh_def prev_before_def yeast_yid
  by (fastforce simp: yid_inject inj_yeast_encode split: if_splits)+

lemma yeasts_fresh:
  "sorted ts \<Longrightarrow> \<forall>t' \<in> set ts. t \<le> t' \<Longrightarrow> prev_before st t \<Longrightarrow>
   distinct (yeasts ts st) \<and> (\<forall>s \<in> set (yeasts ts st). fresh st t s)"
proof (induction ts arbitrary: t st)
  case (Cons u ts)
  obtain s st' where y: "yeast u st = (s, st')" by fastforce
  have "prev_before st u" using Cons.prems by (auto simp: prev_before_def)
  note step = yeast_step [OF y this]
  have IH: "distinct (yeasts ts st')" "\<forall>s \<in> set (yeasts ts st'). fresh st' u s"
    using Cons.IH [of u st'] Cons.prems step(3) by auto
  have mono: "fresh st u s' \<Longrightarrow> fresh st t s'" for s'
    using order_trans [of t u] Cons.prems(2) unfolding fresh_def by auto
  show ?case
    using IH step(1,2) step(4) [OF order_refl] mono by (auto simp: y)
qed simp

subsection \<open>Properties\<close>

text \<open>
  As long as the clock does not run backwards, the identifiers of any number of calls
  are pairwise different, however many of them fall into the same millisecond.
\<close>

theorem yeast_unique: "sorted ts \<Longrightarrow> distinct (yeasts ts yeast_init)"
  using yeasts_fresh [of ts 0 yeast_init] by (simp add: prev_before_def yeast_init_def)

theorem yeast_unique_witness: "sorted [5, 5, 5, 9 :: nat] \<and> distinct (yeasts [5, 5, 5, 9] yeast_init)"
  using yeast_unique [of "[5, 5, 5, 9]"] by simp

text \<open>When the clock is set back an identifier can come again: \<open>seed\<close> starts anew.\<close>

lemma yeast_clock_back: "yeasts [5, 6, 5] yeast_init = [yeast_encode 5, yeast_encode 6, yeast_encode 5]"
  by (simp add: yeast_yid yid_def inj_yeast_encode yeast_init_def)

text \<open>
  \<open>decode\<close> is a left inverse of \<open>encode\<close> on every time, so two encodings agree only
  for equal numbers.
\<close>

theorem yeast_decode_inverse: "yeast_decode (yeast_encode num) = Some num"
  by (rule yeast_decode_encode)

end
