(* ===== verification/Backoff.thy ===== *)
theory Backoff
  imports Prelude Complex_Main
begin

text \<open>
  The reconnection backoff (module 48 of the bundle). \<open>duration\<close> computes with floating
  point numbers: \<open>jsfloat\<close> has the two infinities and \<open>NaN\<close>, and \<open>fl\<close> sends a result
  outside the finite doubles to an infinity. The rounding of the significand
  is not modelled: a finite value is an exact rational.
\<close>

subsection \<open>Floating point numbers\<close>

datatype jsfloat = Fl rat | PosInf | NegInf | NaN

definition float_limit :: rat where
  "float_limit = 2 ^ 1024 - 2 ^ 970"

definition fl :: "rat \<Rightarrow> jsfloat" where
  "fl q = (if q \<ge> float_limit then PosInf else if q \<le> - float_limit then NegInf else Fl q)"

definition inf_of :: "bool \<Rightarrow> jsfloat" where
  "inf_of positive = (if positive then PosInf else NegInf)"

fun js_mult :: "jsfloat \<Rightarrow> jsfloat \<Rightarrow> jsfloat" where
  "js_mult NaN _ = NaN"
| "js_mult _ NaN = NaN"
| "js_mult (Fl p) (Fl q) = fl (p * q)"
| "js_mult (Fl p) PosInf = (if p = 0 then NaN else inf_of (p > 0))"
| "js_mult (Fl p) NegInf = (if p = 0 then NaN else inf_of (p < 0))"
| "js_mult PosInf (Fl q) = (if q = 0 then NaN else inf_of (q > 0))"
| "js_mult NegInf (Fl q) = (if q = 0 then NaN else inf_of (q < 0))"
| "js_mult PosInf PosInf = PosInf"
| "js_mult NegInf NegInf = PosInf"
| "js_mult _ _ = NegInf"

fun js_neg :: "jsfloat \<Rightarrow> jsfloat" where
  "js_neg (Fl q) = Fl (- q)"
| "js_neg PosInf = NegInf"
| "js_neg NegInf = PosInf"
| "js_neg NaN = NaN"

fun js_add :: "jsfloat \<Rightarrow> jsfloat \<Rightarrow> jsfloat" where
  "js_add NaN _ = NaN"
| "js_add _ NaN = NaN"
| "js_add (Fl p) (Fl q) = fl (p + q)"
| "js_add (Fl _) x = x"
| "js_add x (Fl _) = x"
| "js_add PosInf PosInf = PosInf"
| "js_add NegInf NegInf = NegInf"
| "js_add _ _ = NaN"

fun js_floor :: "jsfloat \<Rightarrow> jsfloat" where
  "js_floor (Fl q) = Fl (of_int \<lfloor>q\<rfloor>)"
| "js_floor x = x"

fun js_min :: "jsfloat \<Rightarrow> jsfloat \<Rightarrow> jsfloat" where
  "js_min NaN _ = NaN"
| "js_min _ NaN = NaN"
| "js_min (Fl p) (Fl q) = Fl (min p q)"
| "js_min NegInf _ = NegInf"
| "js_min _ NegInf = NegInf"
| "js_min PosInf x = x"
| "js_min x PosInf = x"

text \<open>\<open>Math.pow\<close> for an integer exponent that is not negative, and \<open>ToInt32\<close>.\<close>

fun js_pow :: "jsfloat \<Rightarrow> nat \<Rightarrow> jsfloat" where
  "js_pow (Fl q) n = fl (q ^ n)"
| "js_pow PosInf n = (if n = 0 then Fl 1 else PosInf)"
| "js_pow NegInf n = (if n = 0 then Fl 1 else inf_of (even n))"
| "js_pow NaN n = (if n = 0 then Fl 1 else NaN)"

definition rat_trunc :: "rat \<Rightarrow> int" where
  "rat_trunc q = (if q < 0 then - \<lfloor>- q\<rfloor> else \<lfloor>q\<rfloor>)"

fun toInt32 :: "jsfloat \<Rightarrow> int" where
  "toInt32 (Fl q) = sint (word_of_int (rat_trunc q) :: 32 word)"
| "toInt32 _ = 0"

fun truthy_num :: "jsfloat \<Rightarrow> bool" where
  "truthy_num (Fl q) \<longleftrightarrow> q \<noteq> 0"
| "truthy_num NaN \<longleftrightarrow> False"
| "truthy_num _ \<longleftrightarrow> True"

fun js_less_eq :: "jsfloat \<Rightarrow> jsfloat \<Rightarrow> bool" where
  "js_less_eq (Fl p) (Fl q) \<longleftrightarrow> p \<le> q"
| "js_less_eq x y \<longleftrightarrow> x = NegInf \<and> y \<noteq> NaN \<or> y = PosInf \<and> x \<noteq> NaN"

subsection \<open>The code\<close>

text \<open>The options object: \<open>None\<close> is a property that is absent.\<close>

record backoff_opts =
  opt_min :: "jsfloat option"
  opt_max :: "jsfloat option"
  opt_factor :: "jsfloat option"
  opt_jitter :: "jsfloat option"

record backoff =
  ms :: jsfloat
  max_ms :: jsfloat
  factor :: jsfloat
  jitter :: jsfloat
  attempts :: nat

definition or_default :: "jsfloat option \<Rightarrow> jsfloat \<Rightarrow> jsfloat" where
  "or_default x d = (case x of Some v \<Rightarrow> (if truthy_num v then v else d) | None \<Rightarrow> d)"

definition Backoff :: "backoff_opts \<Rightarrow> backoff" where
  "Backoff opts =
     \<lparr>ms = or_default (opt_min opts) (Fl 100),
      max_ms = or_default (opt_max opts) (Fl 10000),
      factor = or_default (opt_factor opts) (Fl 2),
      jitter = (case opt_jitter opts of
                  Some j \<Rightarrow> if \<not> js_less_eq j (Fl 0) \<and> js_less_eq j (Fl 1) then j else Fl 0
                | None \<Rightarrow> Fl 0),
      attempts = 0\<rparr>"

text \<open>The argument \<open>rand\<close> is the value of \<open>Math.random()\<close>.\<close>

definition duration :: "rat \<Rightarrow> backoff \<Rightarrow> int \<times> backoff" where
  "duration rand b =
     (let ms0 = js_mult (ms b) (js_pow (factor b) (attempts b));
          b' = b\<lparr>attempts := Suc (attempts b)\<rparr>;
          ms1 = (if truthy_num (jitter b) then
                   let deviation = js_floor (js_mult (js_mult (Fl rand) (jitter b)) ms0) in
                   if even \<lfloor>rand * 10\<rfloor> then js_add ms0 (js_neg deviation)
                   else js_add ms0 deviation
                 else ms0)
      in (toInt32 (js_min ms1 (max_ms b)), b'))"

definition reset :: "backoff \<Rightarrow> backoff" where
  "reset b = b\<lparr>attempts := 0\<rparr>"

definition setMin :: "jsfloat \<Rightarrow> backoff \<Rightarrow> backoff" where
  "setMin m b = b\<lparr>ms := m\<rparr>"

definition setMax :: "jsfloat \<Rightarrow> backoff \<Rightarrow> backoff" where
  "setMax m b = b\<lparr>max_ms := m\<rparr>"

definition setJitter :: "jsfloat \<Rightarrow> backoff \<Rightarrow> backoff" where
  "setJitter j b = b\<lparr>jitter := j\<rparr>"

subsection \<open>Bounds\<close>

lemma sint_word_of_int_small: "0 \<le> i \<Longrightarrow> i < 2 ^ 31 \<Longrightarrow> sint (word_of_int i :: 32 word) = i"
  by (simp add: int_word_sint)

lemma rat_trunc_floor [simp]: "0 \<le> q \<Longrightarrow> rat_trunc q = \<lfloor>q\<rfloor>"
  by (simp add: rat_trunc_def)

lemma fl_small: "0 \<le> q \<Longrightarrow> q < float_limit \<Longrightarrow> fl q = Fl q"
  by (simp add: fl_def float_limit_def)

text \<open>
  The parameters for which the timer behaves: finite, not negative, the cap below 2^31 and
  the scaled delay, jitter included, still a finite double.
\<close>

definition sane :: "backoff \<Rightarrow> rat \<Rightarrow> rat \<Rightarrow> rat \<Rightarrow> rat \<Rightarrow> bool" where
  "sane b m c f j \<longleftrightarrow> ms b = Fl m \<and> max_ms b = Fl c \<and> factor b = Fl f \<and> jitter b = Fl j \<and>
     0 \<le> m \<and> 0 \<le> c \<and> c < 2 ^ 31 \<and> 1 \<le> f \<and> 0 \<le> j \<and> j \<le> 1 \<and>
     f ^ attempts b < float_limit \<and> 2 * (m * f ^ attempts b) < float_limit"

text \<open>The delay before the cap.\<close>

definition raw_delay :: "rat \<Rightarrow> rat \<Rightarrow> rat \<Rightarrow> rat" where
  "raw_delay rand j d =
     (if j = 0 then d
      else if even \<lfloor>rand * 10\<rfloor> then d - of_int \<lfloor>rand * j * d\<rfloor> else d + of_int \<lfloor>rand * j * d\<rfloor>)"

lemma raw_delay_bounds:
  assumes "0 \<le> rand" "rand < 1" "0 \<le> j" "j \<le> 1" "0 \<le> d"
  shows "(1 - j) * d \<le> raw_delay rand j d" and "raw_delay rand j d \<le> (1 + j) * d"
proof -
  have "rand * j \<le> j" using assms by (simp add: mult_left_le_one_le)
  then have "rand * j * d \<le> j * d" using assms by (simp add: mult_right_mono)
  then have up: "of_int \<lfloor>rand * j * d\<rfloor> \<le> j * d" by linarith
  have lo: "0 \<le> (of_int \<lfloor>rand * j * d\<rfloor> :: rat)" using assms by simp
  show "(1 - j) * d \<le> raw_delay rand j d" "raw_delay rand j d \<le> (1 + j) * d"
    using up lo assms unfolding raw_delay_def by (auto simp: algebra_simps)
qed

lemma duration_sane:
  assumes s: "sane b m c f j" and r: "0 \<le> rand" "rand < 1"
  shows "duration rand b =
    (\<lfloor>min (raw_delay rand j (m * f ^ attempts b)) c\<rfloor>, b\<lparr>attempts := Suc (attempts b)\<rparr>)"
proof -
  let ?d = "m * f ^ attempts b"
  from s have d: "0 \<le> ?d" "2 * ?d < float_limit" "0 \<le> f ^ attempts b"
    by (auto simp: sane_def)
  have j: "0 \<le> j" "j \<le> 1" using s by (auto simp: sane_def)
  have "rand * j \<le> 1" using j r by (metis mult_mono' less_imp_le mult_1)
  then have rjd: "0 \<le> rand * j" "rand * j < float_limit" "rand * j * ?d \<le> ?d"
    using j r d by (auto simp: float_limit_def mult_left_le_one_le)
  have mj: "0 \<le> rand * j * ?d" using rjd(1) d by simp
  have fin: "fl ?d = Fl ?d" "fl (rand * j) = Fl (rand * j)" "fl (rand * j * ?d) = Fl (rand * j * ?d)"
    using d rjd mj by (auto intro!: fl_small)
  note b = raw_delay_bounds [OF r j d(1)]
  have raw0: "0 \<le> raw_delay rand j ?d" using b(1) j d by (meson diff_ge_0_iff_ge mult_nonneg_nonneg order_trans)
  have "(1 + j) * ?d \<le> 2 * ?d" using j d by (intro mult_right_mono) auto
  then have raw1: "raw_delay rand j ?d < float_limit" using b(2) d by linarith
  have bnd: "0 \<le> \<lfloor>min (raw_delay rand j ?d) c\<rfloor>" "\<lfloor>min (raw_delay rand j ?d) c\<rfloor> < 2 ^ 31"
    using raw0 s by (auto simp: sane_def floor_less_iff)
  then show ?thesis
  proof -
    have "js_mult (ms b) (js_pow (factor b) (attempts b)) = Fl ?d"
      using s d fin by (simp add: sane_def fl_small)
    moreover have "(if truthy_num (jitter b) then
        let deviation = js_floor (js_mult (js_mult (Fl rand) (jitter b)) (Fl ?d)) in
        if even \<lfloor>rand * 10\<rfloor> then js_add (Fl ?d) (js_neg deviation) else js_add (Fl ?d) deviation
      else Fl ?d) = Fl (raw_delay rand j ?d)"
      using s fin fl_small [OF raw0 raw1] by (auto simp: sane_def raw_delay_def Let_def)
    ultimately show ?thesis
      using bnd raw0 s by (simp add: duration_def Let_def sane_def sint_word_of_int_small)
  qed
qed

subsection \<open>Properties\<close>



text \<open>The delays of \<open>n\<close> attempts in a row.\<close>

fun durations :: "rat list \<Rightarrow> backoff \<Rightarrow> int list" where
  "durations [] b = []"
| "durations (r # rs) b = (let (d, b') = duration r b in d # durations rs b')"

lemma durations_no_jitter:
  assumes "ms b = Fl m" "max_ms b = Fl c" "factor b = Fl f" "jitter b = Fl 0"
    and "0 \<le> m" "0 \<le> c" "c < 2 ^ 31" "1 \<le> f"
    and "f ^ (attempts b + length rs) < float_limit" "2 * (m * f ^ (attempts b + length rs)) < float_limit"
    and "\<forall>r \<in> set rs. 0 \<le> r \<and> r < 1"
  shows "durations rs b = map (\<lambda>k. \<lfloor>min (m * f ^ (attempts b + k)) c\<rfloor>) [0..<length rs]"
  using assms
proof (induction rs arbitrary: b)
  case (Cons r rs)
  have mono: "f ^ attempts b \<le> f ^ (attempts b + length (r # rs))"
    using Cons.prems(8) by (intro power_increasing) auto
  then have "2 * (m * f ^ attempts b) \<le> 2 * (m * f ^ (attempts b + length (r # rs)))"
    using Cons.prems(5) by (simp add: mult_left_mono)
  with mono have "sane b m c f 0"
    using Cons.prems by (simp add: sane_def)
  from duration_sane [OF this, of r] Cons.prems(11)
  have "duration r b = (\<lfloor>min (m * f ^ attempts b) c\<rfloor>, b\<lparr>attempts := Suc (attempts b)\<rparr>)"
    by (simp add: raw_delay_def)
  moreover have "map (\<lambda>k. \<lfloor>min (m * f ^ (attempts b + k)) c\<rfloor>) [0..<Suc n] =
    \<lfloor>min (m * f ^ attempts b) c\<rfloor> # map (\<lambda>k. \<lfloor>min (m * f ^ (Suc (attempts b) + k)) c\<rfloor>) [0..<n]" for n
    by (simp only: upt_conv_Cons [of 0 "Suc n"] map_Suc_upt [symmetric]) simp
  ultimately show ?case
    using Cons.IH [of "b\<lparr>attempts := Suc (attempts b)\<rparr>"] Cons.prems by simp
qed simp

text \<open>
  Without jitter the delays after a \<open>reset\<close> are the capped powers
  \<open>min (ms * factor ^ k) max\<close>, one for each attempt.
\<close>

theorem backoff_exponential:
  assumes "ms b = Fl m" "max_ms b = Fl c" "factor b = Fl f" "jitter b = Fl 0"
    and "0 \<le> m" "0 \<le> c" "c < 2 ^ 31" "1 \<le> f"
    and "f ^ length rs < float_limit" "2 * (m * f ^ length rs) < float_limit"
    and "\<forall>r \<in> set rs. 0 \<le> r \<and> r < 1"
  shows "durations rs (reset b) = map (\<lambda>k. \<lfloor>min (m * f ^ k) c\<rfloor>) [0..<length rs]"
  using durations_no_jitter [of "reset b" m c f rs] assms by (simp add: reset_def)

theorem backoff_exponential_witness:
  "durations [0, 1/2, 1/3, 1/5]
     (reset \<lparr>ms = Fl 100, max_ms = Fl 500, factor = Fl 2, jitter = Fl 0, attempts = 9\<rparr>)
   = [100, 200, 400, 500]"
  by (subst backoff_exponential [of _ 100 500 2])
    (simp_all add: float_limit_def upt_rec)

text \<open>
  After 1015 attempts the parameters of the reconnecting manager (1000 ms, cap of any
  size, jitter 1/2) overflow to \<open>Infinity - Infinity\<close>: whenever the random digit is even
  the delay is \<open>NaN | 0\<close>, that is 0, and the client reconnects without any pause.
\<close>

theorem backoff_overflow:
  assumes "ms b = Fl 1000" "max_ms b = Fl c" "factor b = Fl 2" "jitter b = Fl (1 / 2)"
    and "1015 \<le> attempts b" and "0 < rand" "rand < 1" "even \<lfloor>rand * 10\<rfloor>"
  shows "fst (duration rand b) = 0"
proof -
  have "(2 :: rat) ^ 1015 \<le> 2 ^ attempts b" using assms(5) by (intro power_increasing) auto
  then have "float_limit \<le> 1000 * 2 ^ attempts b" unfolding float_limit_def by simp
  then have inf: "js_mult (ms b) (js_pow (factor b) (attempts b)) = PosInf"
    using assms by (simp add: fl_def inf_of_def)
  have "fl (rand / 2) = Fl (rand / 2)"
    using assms by (intro fl_small) (auto simp: float_limit_def)
  then show ?thesis
    using assms inf by (simp add: duration_def Let_def inf_of_def)
qed

theorem backoff_overflow_witness:
  "fst (duration (1 / 4) \<lparr>ms = Fl 1000, max_ms = Fl 5000, factor = Fl 2, jitter = Fl (1 / 2),
      attempts = 1015\<rparr>) = 0"
  by (rule backoff_overflow) (simp_all add: floor_unique [of 2])

end
