(* ===== verification/Emitter.thy ===== *)
theory Emitter
  imports Prelude
begin

text \<open>
  The two component-emitters of the bundle: module 13, which the packet decoder mixes in, and
  module 35, which every other component uses. They differ in the property name under
  which the listeners of an event are kept: the event itself, or the event with the prefix \<open>$\<close>.

  A listener is \<open>Fn f\<close>, a function passed by the user, or \<open>Wrap k f\<close>, the closure \<open>on\<close> that
  the \<open>k\<close>-th call of \<open>once\<close> makes for \<open>f\<close> (its property \<open>fn\<close> is \<open>f\<close>). What a function does when
  it is applied is a parameter \<open>app\<close>: it gets the arguments, the emitter and the rest of the
  state and may change both, in particular add and remove listeners, or throw.
\<close>

subsection \<open>Listeners and the object that holds them\<close>

datatype 'f listener = Fn 'f | Wrap nat 'f

record 'f emitter =
  callbacks :: "jsstr \<rightharpoonup> 'f listener list"
  wraps :: nat

definition new_emitter :: "'f emitter" where
  "new_emitter = \<lparr>callbacks = Map.empty, wraps = 0\<rparr>"

text \<open>
  \<open>_callbacks\<close> is an object literal, so a key it does not own is looked up in
  \<open>Object.prototype\<close>. \<open>object_prototype\<close> gives the inherited names with the value that the
  property \<open>length\<close> of the inherited value has (\<open>undefined\<close> and 0 behave alike in the code).
\<close>

definition object_prototype :: "(jsstr \<times> nat) list" where
  "object_prototype =
     [(lit ''constructor'', 1), (lit ''__defineGetter__'', 2), (lit ''__defineSetter__'', 2),
      (lit ''hasOwnProperty'', 1), (lit ''__lookupGetter__'', 1), (lit ''__lookupSetter__'', 1),
      (lit ''isPrototypeOf'', 1), (lit ''propertyIsEnumerable'', 1), (lit ''toString'', 0),
      (lit ''valueOf'', 0), (lit ''__proto__'', 0), (lit ''toLocaleString'', 0)]"

datatype 'f slot = Own "'f listener list" | Inherited nat | Absent

definition get_prop :: "(jsstr \<rightharpoonup> 'f listener list) \<Rightarrow> jsstr \<Rightarrow> 'f slot" where
  "get_prop m k = (case m k of Some ls \<Rightarrow> Own ls
     | None \<Rightarrow> (case map_of object_prototype k of Some n \<Rightarrow> Inherited n | None \<Rightarrow> Absent))"

subsection \<open>The operations, for a naming of the properties\<close>

definition emitter_on :: "(jsstr \<Rightarrow> jsstr) \<Rightarrow> jsstr \<Rightarrow> 'f listener \<Rightarrow> 'f emitter \<Rightarrow> 'f emitter result" where
  "emitter_on key event fn em =
     (case get_prop (callbacks em) (key event) of
        Own ls \<Rightarrow> Inr (em\<lparr>callbacks := (callbacks em)(key event \<mapsto> ls @ [fn])\<rparr>)
      | Inherited _ \<Rightarrow> Inl TypeError
      | Absent \<Rightarrow> Inr (em\<lparr>callbacks := (callbacks em)(key event \<mapsto> [fn])\<rparr>))"

definition emitter_once :: "(jsstr \<Rightarrow> jsstr) \<Rightarrow> jsstr \<Rightarrow> 'f \<Rightarrow> 'f emitter \<Rightarrow> 'f emitter result" where
  "emitter_once key event fn em =
     emitter_on key event (Wrap (wraps em) fn) (em\<lparr>wraps := Suc (wraps em)\<rparr>)"

definition emitter_off_all :: "'f emitter \<Rightarrow> 'f emitter" where
  "emitter_off_all em = em\<lparr>callbacks := Map.empty\<rparr>"

definition emitter_off_event :: "(jsstr \<Rightarrow> jsstr) \<Rightarrow> jsstr \<Rightarrow> 'f emitter \<Rightarrow> 'f emitter" where
  "emitter_off_event key event em = em\<lparr>callbacks := (callbacks em)(key event := None)\<rparr>"

definition matches :: "'f listener \<Rightarrow> 'f listener \<Rightarrow> bool" where
  "matches fn cb \<longleftrightarrow> cb = fn \<or> (case cb of Wrap _ f \<Rightarrow> Fn f = fn | Fn _ \<Rightarrow> False)"

fun splice_first :: "'f listener \<Rightarrow> 'f listener list \<Rightarrow> 'f listener list" where
  "splice_first fn [] = []"
| "splice_first fn (cb # cbs) = (if matches fn cb then cbs else cb # splice_first fn cbs)"

definition emitter_off :: "(jsstr \<Rightarrow> jsstr) \<Rightarrow> jsstr \<Rightarrow> 'f listener \<Rightarrow> 'f emitter \<Rightarrow> 'f emitter result" where
  "emitter_off key event fn em =
     (case get_prop (callbacks em) (key event) of
        Own ls \<Rightarrow> Inr (em\<lparr>callbacks := (callbacks em)(key event \<mapsto> splice_first fn ls)\<rparr>)
      | Inherited n \<Rightarrow> (if n = 0 then Inr em else Inl TypeError)
      | Absent \<Rightarrow> Inr em)"

type_synonym ('f, 'a, 'w) applier = "'f \<Rightarrow> 'a \<Rightarrow> 'f emitter \<times> 'w \<Rightarrow> ('f emitter \<times> 'w) result"

fun apply_listener :: "(jsstr \<Rightarrow> jsstr) \<Rightarrow> ('f, 'a, 'w) applier \<Rightarrow> jsstr \<Rightarrow> 'a \<Rightarrow> 'f listener \<Rightarrow>
    'f emitter \<times> 'w \<Rightarrow> ('f emitter \<times> 'w) result" where
  "apply_listener key app event args (Fn f) st = app f args st"
| "apply_listener key app event args (Wrap k f) (em, w) =
     bindE (emitter_off key event (Wrap k f) em) (\<lambda>em'. app f args (em', w))"

fun apply_all :: "(jsstr \<Rightarrow> jsstr) \<Rightarrow> ('f, 'a, 'w) applier \<Rightarrow> jsstr \<Rightarrow> 'a \<Rightarrow> 'f listener list \<Rightarrow>
    'f emitter \<times> 'w \<Rightarrow> ('f emitter \<times> 'w) result" where
  "apply_all key app event args [] st = Inr st"
| "apply_all key app event args (cb # cbs) st =
     bindE (apply_listener key app event args cb st) (apply_all key app event args cbs)"

definition emitter_emit :: "(jsstr \<Rightarrow> jsstr) \<Rightarrow> ('f, 'a, 'w) applier \<Rightarrow> jsstr \<Rightarrow> 'a \<Rightarrow>
    'f emitter \<times> 'w \<Rightarrow> ('f emitter \<times> 'w) result" where
  "emitter_emit key app event args st =
     (case get_prop (callbacks (fst st)) (key event) of
        Own ls \<Rightarrow> apply_all key app event args ls st
      | Inherited _ \<Rightarrow> Inl TypeError
      | Absent \<Rightarrow> Inr st)"

definition emitter_listeners :: "(jsstr \<Rightarrow> jsstr) \<Rightarrow> jsstr \<Rightarrow> 'f emitter \<Rightarrow> 'f slot" where
  "emitter_listeners key event em =
     (case get_prop (callbacks em) (key event) of Absent \<Rightarrow> Own [] | slot \<Rightarrow> slot)"

definition emitter_hasListeners :: "(jsstr \<Rightarrow> jsstr) \<Rightarrow> jsstr \<Rightarrow> 'f emitter \<Rightarrow> bool" where
  "emitter_hasListeners key event em =
     (case emitter_listeners key event em of Own ls \<Rightarrow> ls \<noteq> [] | Inherited n \<Rightarrow> n \<noteq> 0 | Absent \<Rightarrow> False)"

subsection \<open>The two modules\<close>

definition key13 :: "jsstr \<Rightarrow> jsstr" where
  "key13 event = event"

definition key35 :: "jsstr \<Rightarrow> jsstr" where
  "key35 event = lit ''$'' @ event"

definition on13 :: "jsstr \<Rightarrow> 'f listener \<Rightarrow> 'f emitter \<Rightarrow> 'f emitter result" where
  "on13 = emitter_on key13"
definition once13 :: "jsstr \<Rightarrow> 'f \<Rightarrow> 'f emitter \<Rightarrow> 'f emitter result" where
  "once13 = emitter_once key13"
definition off13 :: "jsstr \<Rightarrow> 'f listener \<Rightarrow> 'f emitter \<Rightarrow> 'f emitter result" where
  "off13 = emitter_off key13"
definition emit13 :: "('f, 'a, 'w) applier \<Rightarrow> jsstr \<Rightarrow> 'a \<Rightarrow> 'f emitter \<times> 'w \<Rightarrow> ('f emitter \<times> 'w) result" where
  "emit13 = emitter_emit key13"
definition hasListeners13 :: "jsstr \<Rightarrow> 'f emitter \<Rightarrow> bool" where
  "hasListeners13 = emitter_hasListeners key13"

definition on35 :: "jsstr \<Rightarrow> 'f listener \<Rightarrow> 'f emitter \<Rightarrow> 'f emitter result" where
  "on35 = emitter_on key35"
definition once35 :: "jsstr \<Rightarrow> 'f \<Rightarrow> 'f emitter \<Rightarrow> 'f emitter result" where
  "once35 = emitter_once key35"
definition off35 :: "jsstr \<Rightarrow> 'f listener \<Rightarrow> 'f emitter \<Rightarrow> 'f emitter result" where
  "off35 = emitter_off key35"
definition off_event35 :: "jsstr \<Rightarrow> 'f emitter \<Rightarrow> 'f emitter" where
  "off_event35 = emitter_off_event key35"
definition emit35 :: "('f, 'a, 'w) applier \<Rightarrow> jsstr \<Rightarrow> 'a \<Rightarrow> 'f emitter \<times> 'w \<Rightarrow> ('f emitter \<times> 'w) result" where
  "emit35 = emitter_emit key35"
definition listeners35 :: "jsstr \<Rightarrow> 'f emitter \<Rightarrow> 'f slot" where
  "listeners35 = emitter_listeners key35"
definition hasListeners35 :: "jsstr \<Rightarrow> 'f emitter \<Rightarrow> bool" where
  "hasListeners35 = emitter_hasListeners key35"

subsection \<open>The abstract registry\<close>

text \<open>
  The contract of an emitter is a function from events to lists of listeners. A naming
  of the properties gives that contract for the events whose property name is not
  inherited from \<open>Object.prototype\<close>.
\<close>

definition view :: "(jsstr \<Rightarrow> jsstr) \<Rightarrow> 'f emitter \<Rightarrow> jsstr \<Rightarrow> 'f listener list" where
  "view key em event = (case callbacks em (key event) of Some ls \<Rightarrow> ls | None \<Rightarrow> [])"

locale listener_naming =
  fixes key :: "jsstr \<Rightarrow> jsstr" and safe :: "jsstr \<Rightarrow> bool"
  assumes key_inject: "key e = key e' \<Longrightarrow> e = e'"
    and key_own: "safe e \<Longrightarrow> map_of object_prototype (key e) = None"
begin

lemma on_view:
  assumes "safe e"
  shows "\<exists>em'. emitter_on key e fn em = Inr em' \<and> wraps em' = wraps em \<and>
    view key em' = (view key em)(e := view key em e @ [fn])"
  using key_own [OF assms] key_inject
  by (auto simp: emitter_on_def get_prop_def view_def fun_eq_iff split: option.splits)

lemma off_view:
  assumes "safe e"
  shows "\<exists>em'. emitter_off key e fn em = Inr em' \<and> wraps em' = wraps em \<and>
    view key em' = (view key em)(e := splice_first fn (view key em e))"
  using key_own [OF assms] key_inject
  by (auto simp: emitter_off_def get_prop_def view_def fun_eq_iff split: option.splits)

lemma off_event_view:
  "view key (emitter_off_event key e em) = (view key em)(e := [])"
  using key_inject by (auto simp: emitter_off_event_def view_def fun_eq_iff)

lemma once_view:
  assumes "safe e"
  shows "\<exists>em'. emitter_once key e f em = Inr em' \<and> wraps em' = Suc (wraps em) \<and>
    view key em' = (view key em)(e := view key em e @ [Wrap (wraps em) f])"
  using on_view [OF assms, of "Wrap (wraps em) f" "em\<lparr>wraps := Suc (wraps em)\<rparr>"]
  by (simp add: emitter_once_def view_def [abs_def])

lemma emit_view:
  assumes "safe e"
  shows "emitter_emit key app e args st = apply_all key app e args (view key (fst st) e) st"
  using key_own [OF assms]
  by (auto simp: emitter_emit_def get_prop_def view_def split: option.splits)

lemma listeners_view: "safe e \<Longrightarrow> emitter_listeners key e em = Own (view key em e)"
  using key_own by (auto simp: emitter_listeners_def get_prop_def view_def split: option.splits)

lemma hasListeners_view: "safe e \<Longrightarrow> emitter_hasListeners key e em \<longleftrightarrow> view key em e \<noteq> []"
  by (simp add: emitter_hasListeners_def listeners_view)

end

lemma key35_own: "map_of object_prototype (key35 e) = None"
  by (simp add: object_prototype_def key35_def lit_def)

interpretation prefixed: listener_naming key35 "\<lambda>_. True"
  by unfold_locales (simp add: key35_def, rule key35_own)

interpretation plain: listener_naming key13 "\<lambda>e. map_of object_prototype e = None"
  by unfold_locales (simp_all add: key13_def)

lemma on13_inherited:
  "map_of object_prototype e = Some n \<Longrightarrow> callbacks em e = None \<Longrightarrow> on13 e fn em = Inl TypeError"
  by (simp add: on13_def emitter_on_def key13_def get_prop_def)

subsection \<open>Listeners that are run once\<close>

text \<open>
  Every wrapper that is registered was made by a call of \<open>once\<close> and is registered in one place
  only (\<open>wrappers_wf\<close>). What the interface of the emitter does to a registry is \<open>evolves\<close>:
  a wrapper may go, but only wrappers made in the meantime may come.
\<close>

fun wrap_ids :: "'f listener list \<Rightarrow> nat list" where
  "wrap_ids [] = []"
| "wrap_ids (Fn _ # ls) = wrap_ids ls"
| "wrap_ids (Wrap k _ # ls) = k # wrap_ids ls"

definition listeners_at :: "'f emitter \<Rightarrow> jsstr \<Rightarrow> 'f listener list" where
  "listeners_at em x = (case callbacks em x of Some ls \<Rightarrow> ls | None \<Rightarrow> [])"

definition wrappers_wf :: "'f emitter \<Rightarrow> bool" where
  "wrappers_wf em \<longleftrightarrow>
     (\<forall>x. distinct (wrap_ids (listeners_at em x))) \<and>
     (\<forall>x. \<forall>k \<in> set (wrap_ids (listeners_at em x)). k < wraps em) \<and>
     (\<forall>x y k. k \<in> set (wrap_ids (listeners_at em x)) \<longrightarrow>
        k \<in> set (wrap_ids (listeners_at em y)) \<longrightarrow> x = y)"

definition evolves :: "'f emitter \<Rightarrow> 'f emitter \<Rightarrow> bool" where
  "evolves em em' \<longleftrightarrow> wraps em \<le> wraps em' \<and> wrappers_wf em' \<and>
     (\<forall>x k f. Wrap k f \<in> set (listeners_at em' x) \<longrightarrow>
        Wrap k f \<in> set (listeners_at em x) \<or> wraps em \<le> k)"

lemma wrap_ids_append [simp]: "wrap_ids (xs @ ys) = wrap_ids xs @ wrap_ids ys"
  by (induction xs rule: wrap_ids.induct) auto

lemma in_wrap_ids: "k \<in> set (wrap_ids ls) \<longleftrightarrow> (\<exists>f. Wrap k f \<in> set ls)"
  by (induction ls rule: wrap_ids.induct) auto

lemma wrap_ids_splice_subset: "set (wrap_ids (splice_first fn ls)) \<subseteq> set (wrap_ids ls)"
  by (induction ls rule: wrap_ids.induct) auto

lemma wrap_ids_splice_distinct: "distinct (wrap_ids ls) \<Longrightarrow> distinct (wrap_ids (splice_first fn ls))"
proof (induction ls)
  case (Cons l ls)
  then show ?case
    using wrap_ids_splice_subset [of fn ls] by (cases l) auto
qed simp

lemma splice_first_subset: "set (splice_first fn ls) \<subseteq> set ls"
  by (induction ls) auto

lemma splice_first_wrap:
  "distinct (wrap_ids ls) \<Longrightarrow> Wrap k f \<notin> set (splice_first (Wrap k f) ls)"
  by (induction ls rule: wrap_ids.induct) (auto simp: matches_def in_wrap_ids)

lemma evolves_refl: "wrappers_wf em \<Longrightarrow> evolves em em"
  by (simp add: evolves_def)

lemma evolves_trans: "evolves a b \<Longrightarrow> evolves b c \<Longrightarrow> evolves a c"
  unfolding evolves_def by (meson order_trans)

lemma evolvesI:
  assumes "wrappers_wf em" "wraps em \<le> wraps em'"
    and "\<And>y. y \<noteq> x \<Longrightarrow> set (listeners_at em' y) \<subseteq> set (listeners_at em y) \<and>
                     distinct (wrap_ids (listeners_at em' y))"
    and "distinct (wrap_ids (listeners_at em' x))"
    and "\<And>k f. Wrap k f \<in> set (listeners_at em' x) \<Longrightarrow>
           Wrap k f \<in> set (listeners_at em x) \<or> wraps em \<le> k \<and> k < wraps em'"
  shows "evolves em em'"
proof -
  have old: "Wrap k f \<in> set (listeners_at em y) \<or> y = x \<and> wraps em \<le> k \<and> k < wraps em'"
    if "Wrap k f \<in> set (listeners_at em' y)" for k f y
    using assms(3) [of y] assms(5) that by (cases "y = x") auto
  have small: "Wrap k f \<in> set (listeners_at em y) \<Longrightarrow> k < wraps em" for k f y
    using assms(1) unfolding wrappers_wf_def by (meson in_wrap_ids)
  have uniq: "Wrap k f \<in> set (listeners_at em y) \<Longrightarrow> Wrap k g \<in> set (listeners_at em z) \<Longrightarrow> y = z" for k f g y z
    using assms(1) unfolding wrappers_wf_def in_wrap_ids by blast
  have "wrappers_wf em'"
    unfolding wrappers_wf_def in_wrap_ids
  proof (intro conjI allI impI ballI)
    show "distinct (wrap_ids (listeners_at em' y))" for y
      using assms(3,4) by (cases "y = x") auto
    show "k < wraps em'" if "k \<in> set (wrap_ids (listeners_at em' y))" for k y
      using that old small assms(2) unfolding in_wrap_ids by (meson less_le_trans)
    show "y = z" if "\<exists>f. Wrap k f \<in> set (listeners_at em' y)" "\<exists>f. Wrap k f \<in> set (listeners_at em' z)" for k y z
      using that old small uniq by (metis not_less)
  qed
  with assms(2) old show ?thesis unfolding evolves_def by blast
qed

lemma listeners_at_simps [simp]:
  "listeners_at (em\<lparr>callbacks := (callbacks em)(x := v)\<rparr>) y =
     (if y = x then (case v of Some ls \<Rightarrow> ls | None \<Rightarrow> []) else listeners_at em y)"
  "listeners_at (em\<lparr>wraps := n\<rparr>) y = listeners_at em y"
  "listeners_at (em\<lparr>wraps := n, callbacks := (callbacks em)(x := v)\<rparr>) y =
     (if y = x then (case v of Some ls \<Rightarrow> ls | None \<Rightarrow> []) else listeners_at em y)"
  by (simp_all add: listeners_at_def)

lemma wf_distinct: "wrappers_wf em \<Longrightarrow> distinct (wrap_ids (listeners_at em x))"
  by (simp add: wrappers_wf_def)

lemma get_prop_Own: "get_prop (callbacks em) x = Own ls \<Longrightarrow> callbacks em x = Some ls \<and> ls = listeners_at em x"
  by (auto simp: get_prop_def listeners_at_def split: option.splits)

lemma get_prop_Absent: "get_prop (callbacks em) x = Absent \<Longrightarrow> listeners_at em x = []"
  by (auto simp: get_prop_def listeners_at_def split: option.splits)

lemma evolves_off:
  assumes "wrappers_wf em" "emitter_off key e fn em = Inr em'"
  shows "evolves em em'"
proof (cases "get_prop (callbacks em) (key e)")
  case (Own ls)
  then show ?thesis
    using assms splice_first_subset [of fn ls]
    by (intro evolvesI [of _ _ "key e"])
      (auto simp: emitter_off_def wf_distinct wrap_ids_splice_distinct dest!: get_prop_Own)
qed (use assms in \<open>auto simp: emitter_off_def evolves_refl split: if_splits\<close>)

lemma evolves_on_Fn:
  assumes "wrappers_wf em" "emitter_on key e (Fn f) em = Inr em'"
  shows "evolves em em'"
  using assms
  by (intro evolvesI [of _ _ "key e"])
    (auto simp: emitter_on_def wf_distinct split: slot.splits dest!: get_prop_Own)

lemma evolves_once:
  assumes "wrappers_wf em" "emitter_once key e f em = Inr em'"
  shows "evolves em em'"
proof -
  have "wraps em \<notin> set (wrap_ids (listeners_at em x))" for x
    using assms(1) by (auto simp: wrappers_wf_def)
  then show ?thesis
    using assms
    by (intro evolvesI [of _ _ "key e"])
      (auto simp: emitter_once_def emitter_on_def wf_distinct split: slot.splits dest!: get_prop_Own)
qed

lemma evolves_off_event: "wrappers_wf em \<Longrightarrow> evolves em (emitter_off_event key e em)"
  by (intro evolvesI [of _ _ "key e"]) (auto simp: emitter_off_event_def wf_distinct)

lemma evolves_off_all: "wrappers_wf em \<Longrightarrow> evolves em (emitter_off_all em)"
  by (intro evolvesI) (auto simp: emitter_off_all_def listeners_at_def)

lemma wrappers_wf_new: "wrappers_wf new_emitter"
  by (simp add: wrappers_wf_def new_emitter_def listeners_at_def)

text \<open>Functions that use the emitter through its interface only.\<close>

definition api_only :: "('f, 'a, 'w) applier \<Rightarrow> bool" where
  "api_only app \<longleftrightarrow> (\<forall>f a em w em' w'.
     wrappers_wf em \<longrightarrow> app f a (em, w) = Inr (em', w') \<longrightarrow> evolves em em')"

lemma api_onlyD:
  "api_only app \<Longrightarrow> wrappers_wf em \<Longrightarrow> app f a (em, w) = Inr (em', w') \<Longrightarrow> evolves em em'"
  unfolding api_only_def by blast

lemma evolves_wf: "evolves em em' \<Longrightarrow> wrappers_wf em'"
  by (simp add: evolves_def)

lemma apply_listener_evolves:
  assumes "api_only app" "wrappers_wf em" "apply_listener key app e a cb (em, w) = Inr (em', w')"
  shows "evolves em em'"
proof (cases cb)
  case (Fn f)
  then show ?thesis using assms by (auto intro: api_onlyD)
next
  case (Wrap k f)
  then obtain em1 where off: "emitter_off key e (Wrap k f) em = Inr em1"
    and app: "app f a (em1, w) = Inr (em', w')"
    using assms(3) by (auto simp: bindE_Inr_iff)
  have "evolves em em1" using assms(2) off by (rule evolves_off)
  moreover from this have "evolves em1 em'"
    using assms(1) app by (blast intro: api_onlyD evolves_wf)
  ultimately show ?thesis by (rule evolves_trans)
qed

lemma off_listeners_at:
  assumes "emitter_off key e fn em = Inr em'"
  shows "listeners_at em' x =
    (if x = key e then splice_first fn (listeners_at em x) else listeners_at em x)"
proof (cases "get_prop (callbacks em) (key e)")
  case (Own ls)
  with assms show ?thesis by (auto simp: emitter_off_def dest: get_prop_Own)
next
  case (Inherited n)
  then have "listeners_at em (key e) = []"
    by (auto simp: get_prop_def listeners_at_def split: option.splits)
  with Inherited assms show ?thesis by (auto simp: emitter_off_def split: if_splits)
next
  case Absent
  with assms show ?thesis by (auto simp: emitter_off_def dest: get_prop_Absent)
qed

text \<open>A wrapper that has run is gone: its function was called after \<open>off\<close>.\<close>

definition retired :: "nat \<Rightarrow> 'f emitter \<Rightarrow> bool" where
  "retired k em \<longleftrightarrow> k < wraps em \<and> (\<forall>x. k \<notin> set (wrap_ids (listeners_at em x)))"

lemma retired_evolves: "retired k em \<Longrightarrow> evolves em em' \<Longrightarrow> retired k em'"
  unfolding retired_def evolves_def in_wrap_ids by (meson less_le_trans not_less)

lemma wrapper_retires:
  assumes "api_only app" "wrappers_wf em" "apply_listener key app e a (Wrap k f) (em, w) = Inr (em', w')"
    and "k < wraps em" and "\<And>x g. Wrap k g \<in> set (listeners_at em x) \<Longrightarrow> x = key e \<and> g = f"
  shows "retired k em'"
proof -
  obtain em1 where off: "emitter_off key e (Wrap k f) em = Inr em1"
    and app: "app f a (em1, w) = Inr (em', w')"
    using assms(3) by (auto simp: bindE_Inr_iff)
  have "Wrap k g \<notin> set (listeners_at em1 x)" for g x
    using assms(5) [of g x] splice_first_wrap [OF wf_distinct [OF assms(2)], of k f "key e"]
      splice_first_subset [of "Wrap k f" "listeners_at em x"]
    unfolding off_listeners_at [OF off] by (auto split: if_splits)
  then have "k \<notin> set (wrap_ids (listeners_at em1 x))" for x
    by (auto simp: in_wrap_ids)
  then have "retired k em1"
    using evolves_off [OF assms(2) off] assms(4) by (auto simp: retired_def evolves_def)
  moreover have "evolves em1 em'"
    using assms(1) app evolves_off [OF assms(2) off] by (blast intro: api_onlyD evolves_wf)
  ultimately show ?thesis by (rule retired_evolves)
qed

lemma apply_all_evolves:
  "api_only app \<Longrightarrow> wrappers_wf em \<Longrightarrow> apply_all key app e a ls (em, w) = Inr (em', w') \<Longrightarrow> evolves em em'"
proof (induction ls arbitrary: em w)
  case (Cons l ls)
  then obtain em1 w1 where one: "apply_listener key app e a l (em, w) = Inr (em1, w1)"
    and rest: "apply_all key app e a ls (em1, w1) = Inr (em', w')"
    by (auto simp: bindE_Inr_iff)
  have "evolves em em1" by (rule apply_listener_evolves [OF Cons.prems(1,2) one])
  moreover from this have "wrappers_wf em1" by (simp add: evolves_def)
  ultimately show ?case using Cons.IH [OF Cons.prems(1) _ rest] evolves_trans by blast
qed (simp add: evolves_refl)

lemma apply_all_retires:
  "api_only app \<Longrightarrow> wrappers_wf em \<Longrightarrow> apply_all key app e a ls (em, w) = Inr (em', w') \<Longrightarrow>
   Wrap k f \<in> set ls \<Longrightarrow> k < wraps em \<Longrightarrow>
   (\<And>x g. Wrap k g \<in> set (listeners_at em x) \<Longrightarrow> x = key e \<and> g = f) \<Longrightarrow> retired k em'"
proof (induction ls arbitrary: em w)
  case (Cons l ls)
  then obtain em1 w1 where one: "apply_listener key app e a l (em, w) = Inr (em1, w1)"
    and rest: "apply_all key app e a ls (em1, w1) = Inr (em', w')"
    by (auto simp: bindE_Inr_iff)
  have ev: "evolves em em1" by (rule apply_listener_evolves [OF Cons.prems(1,2) one])
  then have wf: "wrappers_wf em1" and kw: "k < wraps em1"
    using Cons.prems(5) by (auto simp: evolves_def)
  show ?case
  proof (cases "l = Wrap k f")
    case True
    with one have "apply_listener key app e a (Wrap k f) (em, w) = Inr (em1, w1)" by simp
    from wrapper_retires [OF Cons.prems(1,2) this Cons.prems(5,6)] have "retired k em1" .
    then show ?thesis
      by (rule retired_evolves) (rule apply_all_evolves [OF Cons.prems(1) wf rest])
  next
    case False
    have "x = key e \<and> g = f" if "Wrap k g \<in> set (listeners_at em1 x)" for x g
      using ev that Cons.prems(5,6) unfolding evolves_def by (meson not_less)
    then show ?thesis
      using Cons.IH [OF Cons.prems(1) wf rest] Cons.prems(4) False kw by auto
  qed
qed simp

subsection \<open>Properties\<close>

text \<open>
  The prefixed emitter implements the abstract registry for every event name, those of
  \<open>Object.prototype\<close> included: \<open>on\<close> appends, \<open>off\<close> removes the first match only, other events are
  untouched, no operation throws, and \<open>emit\<close> applies the registered listeners.
\<close>

theorem emitter35_registry:
  "(\<exists>em'. on35 e fn em = Inr em' \<and> view key35 em' = (view key35 em)(e := view key35 em e @ [fn])) \<and>
   (\<exists>em'. off35 e fn em = Inr em' \<and>
      view key35 em' = (view key35 em)(e := splice_first fn (view key35 em e))) \<and>
   (\<exists>em'. once35 e f em = Inr em' \<and>
      view key35 em' = (view key35 em)(e := view key35 em e @ [Wrap (wraps em) f])) \<and>
   view key35 (off_event35 e em) = (view key35 em)(e := []) \<and>
   emit35 app e args (em, w) = apply_all key35 app e args (view key35 em e) (em, w) \<and>
   hasListeners35 e em = (view key35 em e \<noteq> [])"
  unfolding on35_def off35_def once35_def off_event35_def emit35_def hasListeners35_def
  using prefixed.on_view [of e fn em] prefixed.off_view [of e fn em] prefixed.once_view [of e f em]
  by (simp add: prefixed.off_event_view prefixed.emit_view prefixed.hasListeners_view) blast

text \<open>A trace of the functions that are applied.\<close>

definition logged :: "('f, 'a, 'w) applier \<Rightarrow> ('f, 'a, 'f list \<times> 'w) applier" where
  "logged app f args st =
     (case st of (em, log, w) \<Rightarrow>
        bindE (app f args (em, w)) (\<lambda>(em', w'). Inr (em', log @ [f], w')))"

fun listener_fun :: "'f listener \<Rightarrow> 'f" where
  "listener_fun (Fn f) = f"
| "listener_fun (Wrap _ f) = f"

lemma apply_listener_logged:
  "apply_listener key (logged app) e args l (em, log, w) = Inr st \<Longrightarrow>
   \<exists>em' w'. st = (em', log @ [listener_fun l], w')"
  by (cases l) (auto simp: bindE_Inr_iff logged_def)

lemma apply_all_logged:
  "apply_all key (logged app) e args ls (em, log, w) = Inr (em', log', w') \<Longrightarrow>
   log' = log @ map listener_fun ls"
proof (induction ls arbitrary: em log w)
  case (Cons l ls)
  then obtain st where one: "apply_listener key (logged app) e args l (em, log, w) = Inr st"
    and rest: "apply_all key (logged app) e args ls st = Inr (em', log', w')"
    by (auto simp: bindE_Inr_iff)
  from apply_listener_logged [OF one] obtain em1 w1 where "st = (em1, log @ [listener_fun l], w1)"
    by blast
  with rest Cons.IH show ?case by fastforce
qed simp

text \<open>
  C36. An emission applies exactly the listeners that were registered when it began, each once,
  in the order of registration, whatever they add or remove while they run.
\<close>

theorem emit35_snapshot:
  assumes "emit35 (logged app) e args (em, log, w) = Inr (em', log', w')"
  shows "log' = log @ map listener_fun (view key35 em e)"
  using assms apply_all_logged unfolding emit35_def by (fastforce simp: prefixed.emit_view)


text \<open>A listener that registers itself again, for the witnesses: it uses the interface only.\<close>

definition rejoin :: "(string, nat, nat) applier" where
  "rejoin f args st =
     (case st of (em, w) \<Rightarrow> bindE (on35 (lit f) (Fn f) em) (\<lambda>em'. Inr (em', w + args)))"

lemma api_only_rejoin: "api_only rejoin"
  by (auto simp: api_only_def rejoin_def on35_def bindE_Inr_iff intro: evolves_on_Fn)

definition sample_emitter :: "string emitter" where
  "sample_emitter =
     \<lparr>callbacks = [lit ''$tick'' \<mapsto> [Fn ''tick'', Wrap 0 ''boom'', Fn ''tock'']], wraps = 1\<rparr>"

lemma sample_emitter_wf: "wrappers_wf sample_emitter"
  by (auto simp: wrappers_wf_def sample_emitter_def listeners_at_def split: if_splits)

lemma sample_view:
  "view key35 sample_emitter (lit ''tick'') = [Fn ''tick'', Wrap 0 ''boom'', Fn ''tock'']"
  by (simp add: view_def sample_emitter_def key35_def lit_def)

lemma apply_all_total:
  assumes "\<And>f a st. \<exists>st'. app f a st = Inr st'"
  shows "\<exists>st'. apply_all key35 app e args ls st = Inr st'"
proof (induction ls arbitrary: st)
  case (Cons l ls)
  have "\<exists>st'. apply_listener key35 app e args l st = Inr st'"
  proof (cases l)
    case (Wrap k f)
    obtain em w where "st = (em, w)" by fastforce
    then show ?thesis
      using assms prefixed.off_view [of e "Wrap k f" em] Wrap by auto
  qed (use assms in simp)
  then show ?case using Cons.IH by (auto simp: bindE_Inr_iff)
qed simp

lemma rejoin_total: "\<exists>st'. rejoin f a st = Inr st'"
  using prefixed.on_view [of "lit f" "Fn f" "fst st"]
  by (auto simp: rejoin_def on35_def bindE_Inr_iff split: prod.splits)

lemma logged_total: "(\<And>f a st. \<exists>st'. app f a st = Inr st') \<Longrightarrow> \<exists>st'. logged app f a st = Inr st'"
  unfolding logged_def by (cases st) (metis (no_types, lifting) bindE.simps(2) case_prod_conv surj_pair)

theorem emit35_snapshot_witness:
  "\<exists>em' log' w'. emit35 (logged rejoin) (lit ''tick'') 5 (sample_emitter, [], 0) = Inr (em', log', w') \<and>
     log' = [''tick'', ''boom'', ''tock'']"
proof -
  obtain em' log' w' where run:
    "emit35 (logged rejoin) (lit ''tick'') 5 (sample_emitter, [], 0) = Inr (em', log', w')"
    using apply_all_total [of "logged rejoin" "lit ''tick''" 5, OF logged_total [OF rejoin_total]]
    by (metis emit35_def prefixed.emit_view surj_pair)
  from emit35_snapshot [OF this] run show ?thesis by (auto simp: sample_view)
qed


end
