(* ===== verification/JsNum.thy ===== *)
theory JsNum
  imports Prelude
begin

text \<open>
  The numbers and the number/string conversions of the language: \<open>Number(str)\<close>, which the two
  parsers apply to the digits they read, and \<open>String(num)\<close>, which concatenation applies.

  A finite number is a decimal \<open>m * 10 ^ e\<close> in lowest terms (\<open>m\<close> not divisible by 10, or
  0 with \<open>e = 0\<close>): a double is identified with the shortest decimal that denotes it, which
  is what \<open>String\<close> prints. Overflow to infinity and underflow to zero are modelled, the rounding
  of a literal with more digits than a double can hold is not, and -0 is 0.
\<close>

subsection \<open>Numbers\<close>

datatype jsnum = NumNaN | NumInf bool | Decimal int int

function strip_zeros :: "int \<Rightarrow> int \<Rightarrow> int \<times> int" where
  "strip_zeros m e = (if m = 0 then (0, 0) else if m mod 10 = 0 then strip_zeros (m div 10) (e + 1) else (m, e))"
  by pat_completeness auto
termination
  by (relation "measure (\<lambda>(m, e). nat \<bar>m\<bar>)") auto

declare strip_zeros.simps [simp del]

definition float_limit_int :: int where
  "float_limit_int = 2 ^ 1024 - 2 ^ 970"

definition overflows :: "int \<Rightarrow> int \<Rightarrow> bool" where
  "overflows m e =
     (if e \<ge> 0 then \<bar>m\<bar> * 10 ^ nat e \<ge> float_limit_int
      else \<bar>m\<bar> \<ge> float_limit_int * 10 ^ nat (- e))"

definition underflow_limit_int :: int where
  "underflow_limit_int = 2 ^ 1075"

definition underflows :: "int \<Rightarrow> int \<Rightarrow> bool" where
  "underflows m e = (e < 0 \<and> \<bar>m\<bar> * underflow_limit_int \<le> 10 ^ nat (- e))"

definition decimal :: "int \<Rightarrow> int \<Rightarrow> jsnum" where
  "decimal m e =
     (if overflows m e then NumInf (m > 0)
      else if underflows m e then Decimal 0 0
      else case strip_zeros m e of (m', e') \<Rightarrow> Decimal m' e')"

definition js_nat :: "nat \<Rightarrow> jsnum" where
  "js_nat n = decimal (int n) 0"

text \<open>The numbers that exist: canonical decimals in the range of the doubles.\<close>

fun num_wf :: "jsnum \<Rightarrow> bool" where
  "num_wf (Decimal m e) \<longleftrightarrow> decimal m e = Decimal m e"
| "num_wf _ \<longleftrightarrow> True"

subsection \<open>Digits\<close>

definition digit_char :: "nat \<Rightarrow> jschar" where
  "digit_char d = of_nat (48 + d)"

definition is_digit :: "jschar \<Rightarrow> bool" where
  "is_digit c \<longleftrightarrow> 48 \<le> c \<and> c \<le> 57"

definition digit_val :: "jschar \<Rightarrow> nat" where
  "digit_val c = unat c - 48"

function nat_digits :: "nat \<Rightarrow> jsstr" where
  "nat_digits n = (if n < 10 then [digit_char n] else nat_digits (n div 10) @ [digit_char (n mod 10)])"
  by pat_completeness auto
termination
  by (relation "measure id") auto

declare nat_digits.simps [simp del]

definition digits_val :: "jsstr \<Rightarrow> nat" where
  "digits_val ds = foldl (\<lambda>v c. 10 * v + digit_val c) 0 ds"

subsection \<open>\<open>String(num)\<close>\<close>

text \<open>
  \<open>s\<close> are the digits of the number and \<open>n\<close> the position of the decimal point relative to their
  beginning, as in the specification of \<open>Number::toString\<close>.
\<close>

definition zeros :: "nat \<Rightarrow> jsstr" where
  "zeros n = replicate n (digit_char 0)"

definition exponent_string :: "int \<Rightarrow> jsstr" where
  "exponent_string x = lit ''e'' @ (if x < 0 then lit ''-'' else lit ''+'') @ nat_digits (nat \<bar>x\<bar>)"

definition decimal_string :: "jsstr \<Rightarrow> int \<Rightarrow> jsstr" where
  "decimal_string s n =
     (let k = int (length s) in
      if k \<le> n \<and> n \<le> 21 then s @ zeros (nat (n - k))
      else if 0 < n \<and> n \<le> 21 then take (nat n) s @ lit ''.'' @ drop (nat n) s
      else if -6 < n \<and> n \<le> 0 then lit ''0.'' @ zeros (nat (- n)) @ s
      else if k = 1 then s @ exponent_string (n - 1)
      else take 1 s @ lit ''.'' @ drop 1 s @ exponent_string (n - 1))"

fun js_String :: "jsnum \<Rightarrow> jsstr" where
  "js_String NumNaN = lit ''NaN''"
| "js_String (NumInf pos) = (if pos then lit ''Infinity'' else lit ''-Infinity'')"
| "js_String (Decimal m e) =
     (if m = 0 then lit ''0''
      else let s = nat_digits (nat \<bar>m\<bar>) in
        (if m < 0 then lit ''-'' else []) @ decimal_string s (int (length s) + e))"

subsection \<open>\<open>Number(str)\<close>\<close>

definition is_space :: "jschar \<Rightarrow> bool" where
  "is_space c \<longleftrightarrow> c \<in> {9, 10, 11, 12, 13, 32, 0xA0, 0xFEFF, 0x1680, 0x2028, 0x2029, 0x202F, 0x205F, 0x3000}
     \<or> 0x2000 \<le> c \<and> c \<le> 0x200A"

definition trim :: "jsstr \<Rightarrow> jsstr" where
  "trim s = rev (dropWhile is_space (rev (dropWhile is_space s)))"

definition radix_digit :: "nat \<Rightarrow> jschar \<Rightarrow> nat option" where
  "radix_digit r c =
     (let v = (if is_digit c then unat c - 48
               else if 97 \<le> c \<and> c \<le> 122 then unat c - 87
               else if 65 \<le> c \<and> c \<le> 90 then unat c - 55 else 99)
      in if v < r then Some v else None)"

definition radix_number :: "nat \<Rightarrow> jsstr \<Rightarrow> jsnum" where
  "radix_number r ds =
     (if ds = [] \<or> (\<exists>c \<in> set ds. radix_digit r c = None) then NumNaN
      else js_nat (foldl (\<lambda>v c. r * v + the (radix_digit r c)) 0 ds))"

definition split_sign :: "jsstr \<Rightarrow> bool \<times> jsstr" where
  "split_sign s = (case s of c # cs \<Rightarrow>
       if c = 45 then (True, cs) else if c = 43 then (False, cs) else (False, s)
     | [] \<Rightarrow> (False, []))"

definition split_fraction :: "jsstr \<Rightarrow> jsstr \<times> jsstr" where
  "split_fraction s = (case s of c # cs \<Rightarrow>
       if c = 46 then (takeWhile is_digit cs, dropWhile is_digit cs) else ([], s)
     | [] \<Rightarrow> ([], []))"

definition exponent_of :: "jsstr \<Rightarrow> int option" where
  "exponent_of s = (case s of [] \<Rightarrow> Some 0
     | c # cs \<Rightarrow>
         if c = 101 \<or> c = 69 then
           (case split_sign cs of (neg, ds) \<Rightarrow>
              if ds = [] \<or> (\<exists>d \<in> set ds. \<not> is_digit d) then None
              else Some (if neg then - int (digits_val ds) else int (digits_val ds)))
         else None)"

definition decimal_literal :: "bool \<Rightarrow> jsstr \<Rightarrow> jsnum" where
  "decimal_literal neg s =
     (let ip = takeWhile is_digit s; (fp, rest) = split_fraction (dropWhile is_digit s) in
      if ip = [] \<and> fp = [] then NumNaN
      else case exponent_of rest of None \<Rightarrow> NumNaN
        | Some x \<Rightarrow>
            let m = int (digits_val (ip @ fp)) in
            decimal (if neg then - m else m) (x - int (length fp)))"

definition js_Number :: "jsstr \<Rightarrow> jsnum" where
  "js_Number str =
     (let s = trim str in
      if s = [] then Decimal 0 0
      else if take 2 s = lit ''0x'' \<or> take 2 s = lit ''0X'' then radix_number 16 (drop 2 s)
      else if take 2 s = lit ''0o'' \<or> take 2 s = lit ''0O'' then radix_number 8 (drop 2 s)
      else if take 2 s = lit ''0b'' \<or> take 2 s = lit ''0B'' then radix_number 2 (drop 2 s)
      else case split_sign s of (neg, t) \<Rightarrow>
        if t = lit ''Infinity'' then NumInf (\<not> neg) else decimal_literal neg t)"

subsection \<open>Digits and their value\<close>

lemma unat_digit_char: "d < 10 \<Longrightarrow> unat (digit_char d) = 48 + d"
  by (simp add: digit_char_def unat_of_nat del: of_nat_add)

lemma is_digit_char [simp]: "d < 10 \<Longrightarrow> is_digit (digit_char d)"
  by (simp add: is_digit_def word_le_nat_alt unat_digit_char)

lemma digit_val_char [simp]: "d < 10 \<Longrightarrow> digit_val (digit_char d) = d"
  by (simp add: digit_val_def unat_digit_char)

lemma digits_val_append: "digits_val (xs @ ys) = digits_val xs * 10 ^ length ys + digits_val ys"
proof -
  let ?f = "\<lambda>v c. 10 * v + digit_val c"
  have shift: "foldl ?f v ys = v * 10 ^ length ys + foldl ?f 0 ys" for v
  proof (induction ys arbitrary: v)
    case (Cons y ys)
    have "foldl ?f v (y # ys) = (10 * v + digit_val y) * 10 ^ length ys + foldl ?f 0 ys"
      unfolding foldl_Cons by (rule Cons)
    moreover have "foldl ?f 0 (y # ys) = digit_val y * 10 ^ length ys + foldl ?f 0 ys"
      unfolding foldl_Cons mult_0_right add_0 by (rule Cons)
    ultimately show ?case by (simp only: list.size power_Suc add_0 distrib_right) simp
  qed simp
  show ?thesis unfolding digits_val_def foldl_append by (rule shift)
qed

lemma digits_val_single [simp]: "digits_val [c] = digit_val c"
  by (simp add: digits_val_def)

lemma digits_val_Nil [simp]: "digits_val [] = 0"
  by (simp add: digits_val_def)

lemma digits_val_zeros [simp]: "digits_val (zeros n) = 0"
proof (induction n)
  case (Suc n)
  have "zeros (Suc n) = [digit_char 0] @ zeros n" by (simp add: zeros_def)
  with Suc show ?case by (simp only: digits_val_append) simp
qed (simp add: zeros_def)

lemma length_zeros [simp]: "length (zeros n) = n"
  by (simp add: zeros_def)

lemma zeros_digits [simp]: "c \<in> set (zeros n) \<Longrightarrow> is_digit c"
  by (simp add: zeros_def)

lemma nat_digits_digits: "c \<in> set (nat_digits n) \<Longrightarrow> is_digit c"
proof (induction n rule: nat_digits.induct)
  case (1 n)
  then show ?case by (cases "n < 10") (auto simp: nat_digits.simps [of n])
qed

lemma nat_digits_neq_Nil [simp]: "nat_digits n \<noteq> []"
  by (simp add: nat_digits.simps [of n])

lemma digits_val_nat_digits [simp]: "digits_val (nat_digits n) = n"
proof (induction n rule: nat_digits.induct)
  case (1 n)
  then show ?case
    by (cases "n < 10") (simp_all add: nat_digits.simps [of n] digits_val_append)
qed

lemma hd_nat_digits: "0 < n \<Longrightarrow> hd (nat_digits n) \<noteq> 48"
proof (induction n rule: nat_digits.induct)
  case (1 n)
  have "digit_char n \<noteq> 48" if "n < 10"
    using unat_digit_char [OF that] 1(2) by auto
  with 1 show ?case
    by (cases "n < 10") (simp_all add: nat_digits.simps [of n])
qed

subsection \<open>Canonical decimals\<close>

lemma strip_zeros_times: "m \<noteq> 0 \<Longrightarrow> strip_zeros (m * 10) (e - 1) = strip_zeros m e"
  by (subst strip_zeros.simps) simp

lemma overflows_times: "overflows (m * 10) (e - 1) = overflows m e"
proof -
  consider "e \<ge> 1" | "e \<le> 0" by linarith
  then show ?thesis
  proof cases
    case 1
    then have "nat e = Suc (nat (e - 1))" by simp
    with 1 show ?thesis by (simp add: overflows_def abs_mult mult.assoc)
  next
    case 2
    then have "nat (1 - e) = Suc (nat (- e))" by simp
    with 2 show ?thesis
      by (cases "e = 0") (simp_all add: overflows_def abs_mult float_limit_int_def)
  qed
qed

lemma underflow_limit_gt: "1 < underflow_limit_int"
  by (simp add: underflow_limit_int_def)

lemma underflows_times: "underflows (m * 10) (e - 1) = underflows m e" if "m \<noteq> 0"
proof -
  consider "e \<ge> 1" | "e = 0" | "e < 0" by linarith
  then show ?thesis
  proof cases
    case 2
    have "1 * 1 < \<bar>m\<bar> * underflow_limit_int"
      using that underflow_limit_gt by (intro mult_le_less_imp_less) auto
    with 2 show ?thesis by (simp add: underflows_def abs_mult)
  next
    case 3
    then have "nat (1 - e) = Suc (nat (- e))" by simp
    with 3 show ?thesis by (simp add: underflows_def abs_mult)
  qed (simp add: underflows_def)
qed

lemma decimal_0 [simp]: "decimal 0 e = Decimal 0 0"
proof -
  have "\<not> (10 :: int) ^ k \<le> 0" for k by (simp add: not_le)
  then show ?thesis
    by (simp add: decimal_def overflows_def strip_zeros.simps float_limit_int_def)
qed

lemma decimal_shift: "decimal (m * 10 ^ k) (e - int k) = decimal m e"
proof (induction k arbitrary: m e)
  case (Suc k)
  have "decimal (m * 10) (e - 1) = decimal m e"
  proof (cases "m = 0")
    case False
    then show ?thesis
      by (simp add: decimal_def overflows_times underflows_times strip_zeros_times)
  qed simp
  then show ?case
    using Suc [of "m * 10" "e - 1"] by (simp add: algebra_simps)
qed simp

subsection \<open>The shape of a printed number\<close>

text \<open>
  A printed finite number is a sign, integer digits without a superfluous zero, an optional
  fraction and an optional exponent.
\<close>

definition all_digits :: "jsstr \<Rightarrow> bool" where
  "all_digits s \<longleftrightarrow> (\<forall>c \<in> set s. is_digit c)"

definition fraction :: "jsstr \<Rightarrow> jsstr" where
  "fraction fp = (if fp = [] then [] else lit ''.'' @ fp)"

definition exponent :: "int option \<Rightarrow> jsstr" where
  "exponent x = (case x of None \<Rightarrow> [] | Some x \<Rightarrow> exponent_string x)"

definition exponent_val :: "int option \<Rightarrow> int" where
  "exponent_val x = (case x of None \<Rightarrow> 0 | Some x \<Rightarrow> x)"

definition printed :: "jsstr \<Rightarrow> jsstr \<Rightarrow> jsstr \<Rightarrow> int option \<Rightarrow> bool" where
  "printed s ip fp x \<longleftrightarrow> s = ip @ fraction fp @ exponent x \<and>
     all_digits ip \<and> all_digits fp \<and> ip \<noteq> [] \<and> (hd ip = 48 \<longrightarrow> length ip = 1)"

lemma all_digits_append [simp]: "all_digits (xs @ ys) \<longleftrightarrow> all_digits xs \<and> all_digits ys"
  by (auto simp: all_digits_def)

lemma all_digits_simps [simp]:
  "all_digits []" "all_digits (zeros n)" "all_digits (nat_digits n)" "all_digits [c] = is_digit c"
  by (auto simp: all_digits_def dest: nat_digits_digits)

lemma all_digits_take [simp]: "all_digits s \<Longrightarrow> all_digits (take n s)" "all_digits s \<Longrightarrow> all_digits (drop n s)"
  by (auto simp: all_digits_def dest: in_set_takeD in_set_dropD)

lemma decimal_string_printed:
  assumes "0 < m"
  defines "s \<equiv> nat_digits m"
  defines "k \<equiv> int (length s)"
  shows "\<exists>ip fp x. printed (decimal_string s n) ip fp x \<and>
    decimal (u * int (digits_val (ip @ fp))) (exponent_val x - int (length fp)) = decimal (u * int m) (n - k)"
proof -
  have s: "all_digits s" "s \<noteq> []" "hd s \<noteq> 48" "digits_val s = m" "0 < k"
    using assms hd_nat_digits by auto
  have hd: "hd (take j s) \<noteq> 48" if "0 < j" for j
    using s that by (cases s; cases j) auto
  consider (int) "k \<le> n" "n \<le> 21" | (frac) "n < k" "0 < n" "n \<le> 21" | (small) "n < k" "-6 < n" "n \<le> 0"
    | (exp1) "k = 1" "\<not> (k \<le> n \<and> n \<le> 21)" "\<not> (0 < n \<and> n \<le> 21)" "\<not> (-6 < n \<and> n \<le> 0)"
    | (exp) "k \<noteq> 1" "\<not> (k \<le> n \<and> n \<le> 21)" "\<not> (0 < n \<and> n \<le> 21)" "\<not> (-6 < n \<and> n \<le> 0)"
    using s(5) by linarith
  then show ?thesis
  proof cases
    case int
    have "decimal (u * int m * 10 ^ nat (n - k)) (n - k - int (nat (n - k))) = decimal (u * int m) (n - k)"
      by (rule decimal_shift)
    with int s show ?thesis
      by (intro exI [of _ "s @ zeros (nat (n - k))"] exI [of _ "[]"] exI [of _ None])
        (simp add: printed_def decimal_string_def k_def fraction_def exponent_def exponent_val_def
          digits_val_append mult.assoc)
  next
    case frac
    with s hd [of "nat n"] show ?thesis
      by (intro exI [of _ "take (nat n) s"] exI [of _ "drop (nat n) s"] exI [of _ None])
        (auto simp: printed_def decimal_string_def k_def fraction_def exponent_def exponent_val_def)
  next
    case small
    then have str: "decimal_string s n = zeros 1 @ lit ''.'' @ zeros (nat (- n)) @ s"
      by (simp add: decimal_string_def k_def) (simp add: lit_def zeros_def digit_char_def)
    have "zeros 1 \<noteq> []" by (simp add: zeros_def)
    with small s show ?thesis
      by (intro exI [of _ "zeros 1"] exI [of _ "zeros (nat (- n)) @ s"] exI [of _ None])
        (simp add: printed_def str k_def fraction_def exponent_def exponent_val_def digits_val_append)
  next
    case exp1
    with s show ?thesis
      by (intro exI [of _ s] exI [of _ "[]"] exI [of _ "Some (n - 1)"])
        (auto simp: printed_def decimal_string_def k_def fraction_def exponent_def exponent_val_def)
  next
    case exp
    then have "1 < length s" using s by (cases s) (auto simp: k_def)
    with exp s hd [of 1] show ?thesis
      by (intro exI [of _ "take 1 s"] exI [of _ "drop 1 s"] exI [of _ "Some (n - 1)"])
        (auto simp: printed_def decimal_string_def k_def fraction_def exponent_def exponent_val_def)
  qed
qed

subsection \<open>Reading a printed number\<close>

lemma span_digits:
  assumes "all_digits ip" and "r = [] \<or> \<not> is_digit (hd r)"
  shows "takeWhile is_digit (ip @ r) = ip" "dropWhile is_digit (ip @ r) = r"
  using assms by (induction ip) (auto simp: all_digits_def, (cases r; simp)+)

lemma digit_bounds: "is_digit c \<Longrightarrow> c \<noteq> 43 \<and> c \<noteq> 45 \<and> c \<noteq> 46 \<and> c \<noteq> 69 \<and> c \<noteq> 101 \<and> \<not> is_space c"
  by (auto simp: is_digit_def is_space_def word_le_nat_alt)

lemma not_digit [simp]: "\<not> is_digit 46" "\<not> is_digit 101" "\<not> is_digit 45"
  by (simp_all add: is_digit_def)

lemma hd_exponent: "exponent x = [] \<or> hd (exponent x) = 101"
  by (cases x) (auto simp: exponent_def exponent_string_def lit_def)

lemma exponent_of_exponent: "exponent_of (exponent x) = Some (exponent_val x)"
proof (cases x)
  case (Some y)
  have "split_sign (lit ''-'' @ nat_digits k) = (True, nat_digits k)"
    "split_sign (lit ''+'' @ nat_digits k) = (False, nat_digits k)" for k
    by (simp_all add: split_sign_def lit_def)
  moreover have "\<not> (\<exists>d \<in> set (nat_digits k). \<not> is_digit d)" for k
    by (auto dest: nat_digits_digits)
  ultimately show ?thesis
    using Some by (simp add: exponent_of_def exponent_def exponent_string_def exponent_val_def lit_def)
qed (simp add: exponent_of_def exponent_def exponent_val_def)

lemma decimal_literal_printed:
  assumes "printed s ip fp x"
  shows "decimal_literal neg s =
    decimal ((if neg then -1 else 1) * int (digits_val (ip @ fp))) (exponent_val x - int (length fp))"
proof -
  have s: "s = ip @ fraction fp @ exponent x" "all_digits ip" "all_digits fp" "ip \<noteq> []"
    using assms by (auto simp: printed_def)
  have ex: "exponent x = [] \<or> \<not> is_digit (hd (exponent x))"
    using hd_exponent [of x] by auto
  have "fraction fp @ exponent x = [] \<or> \<not> is_digit (hd (fraction fp @ exponent x))"
    using ex by (auto simp: fraction_def lit_def)
  note ip = span_digits [OF s(2) this]
  have "split_fraction (fraction fp @ exponent x) = (fp, exponent x)"
  proof (cases "fp = []")
    case True
    then show ?thesis
      using hd_exponent [of x] by (cases "exponent x") (auto simp: split_fraction_def fraction_def)
  next
    case False
    then show ?thesis
      using span_digits [OF s(3) ex] by (simp add: split_fraction_def fraction_def lit_def)
  qed
  with ip s show ?thesis
    by (simp add: decimal_literal_def exponent_of_exponent)
qed

lemma no_spaces: "\<forall>c \<in> set s. \<not> is_space c \<Longrightarrow> trim s = s"
proof -
  have "dropWhile is_space xs = xs" if "\<forall>c \<in> set xs. \<not> is_space c" for xs
    using that by (cases xs) auto
  from this [of s] this [of "rev s"]
  show "\<forall>c \<in> set s. \<not> is_space c \<Longrightarrow> trim s = s" by (simp add: trim_def)
qed

text \<open>The characters of a printed finite number.\<close>

definition number_char :: "jschar \<Rightarrow> bool" where
  "number_char c \<longleftrightarrow> is_digit c \<or> c \<in> {43, 45, 46, 101}"

lemma printed_chars: "printed s ip fp x \<Longrightarrow> \<forall>c \<in> set s. number_char c"
  by (auto simp: printed_def all_digits_def fraction_def exponent_def exponent_string_def
      number_char_def lit_def split: option.splits dest: nat_digits_digits)

lemma number_char_bounds:
  "number_char c \<Longrightarrow> \<not> is_space c \<and> c \<noteq> 120 \<and> c \<noteq> 88 \<and> c \<noteq> 111 \<and> c \<noteq> 79 \<and> c \<noteq> 98 \<and> c \<noteq> 66 \<and> c \<noteq> 73"
  by (auto simp: number_char_def is_digit_def is_space_def word_le_nat_alt)

lemma js_Number_chars:
  assumes "\<forall>c \<in> set s. number_char c" "s \<noteq> []" "s = (if neg then lit ''-'' else []) @ t"
    "t \<noteq> []" "hd t \<noteq> 45" "hd t \<noteq> 43"
  shows "js_Number s = decimal_literal neg t"
proof -
  have trim: "trim s = s"
    using assms(1) number_char_bounds by (intro no_spaces) blast
  have "c \<in> set (take 2 s) \<Longrightarrow> number_char c" for c
    using assms(1) by (auto dest: in_set_takeD)
  then have pre: "take 2 s \<noteq> [a, b]" if "\<not> number_char b" for a b
    using that by auto
  have "t \<noteq> lit ''Infinity''"
    using assms(1,3) by (auto simp: lit_def number_char_def is_digit_def)
  moreover have "split_sign s = (neg, t)"
    using assms(3-6) by (cases t) (auto simp: split_sign_def lit_def)
  ultimately show ?thesis
    using trim assms(2) pre
    by (simp add: js_Number_def lit_def number_char_def is_digit_def)
qed

lemma strip_zeros_neq: "m \<noteq> 0 \<Longrightarrow> fst (strip_zeros m e) \<noteq> 0"
proof (induction m e rule: strip_zeros.induct)
  case (1 m e)
  then show ?case by (subst strip_zeros.simps) auto
qed

lemma printed_neq: "printed s ip fp x \<Longrightarrow> s \<noteq> [] \<and> is_digit (hd s)"
  by (auto simp: printed_def all_digits_def)

lemma js_Number_String: "num_wf n \<Longrightarrow> js_Number (js_String n) = n"
proof (cases n)
  case (Decimal m e)
  assume wf: "num_wf n"
  show ?thesis
  proof (cases "m = 0")
    case True
    have "js_Number (lit ''0'') = Decimal 0 0" by code_simp
    then show ?thesis using True wf Decimal by simp
  next
    case False
    let ?s = "decimal_string (nat_digits (nat \<bar>m\<bar>)) (int (length (nat_digits (nat \<bar>m\<bar>))) + e)"
    let ?u = "if m < 0 then -1 else 1 :: int"
    obtain ip fp x where p: "printed ?s ip fp x" and
      v: "decimal (?u * int (digits_val (ip @ fp))) (exponent_val x - int (length fp)) = decimal (?u * \<bar>m\<bar>) e"
      using decimal_string_printed [of "nat \<bar>m\<bar>" "int (length (nat_digits (nat \<bar>m\<bar>))) + e" ?u] False by auto
    have str: "js_String n = (if m < 0 then lit ''-'' else []) @ ?s"
      using Decimal False by (simp add: Let_def)
    have "js_Number (js_String n) = decimal_literal (m < 0) ?s"
      using printed_chars [OF p] printed_neq [OF p] digit_bounds
      unfolding str by (intro js_Number_chars) (auto simp: number_char_def lit_def)
    also have "\<dots> = decimal m e"
      using decimal_literal_printed [OF p] v by (auto split: if_splits)
    finally show ?thesis using wf Decimal by simp
  qed
next
  case NumNaN
  have "js_Number (lit ''NaN'') = NumNaN" by code_simp
  with NumNaN show ?thesis by simp
next
  case (NumInf b)
  have "js_Number (lit ''Infinity'') = NumInf True" "js_Number (lit ''-Infinity'') = NumInf False"
    by code_simp+
  with NumInf show ?thesis by simp
qed

subsection \<open>Canonical numbers\<close>

lemma strip_zeros_value:
  "m \<noteq> 0 \<Longrightarrow> strip_zeros m e = (m', e') \<Longrightarrow> \<exists>k. m = m' * 10 ^ k \<and> e' = e + int k"
proof (induction m e rule: strip_zeros.induct)
  case (1 m e)
  show ?case
  proof (cases "m mod 10 = 0")
    case True
    then have "m div 10 \<noteq> 0" "m = m div 10 * 10" using 1(2) by presburger+
    moreover have "strip_zeros (m div 10) (e + 1) = (m', e')"
      using 1(2,3) True by (simp add: strip_zeros.simps [of m])
    ultimately obtain k where "m div 10 = m' * 10 ^ k" "e' = e + 1 + int k"
      using 1(1) [OF 1(2) True] by blast
    with \<open>m = m div 10 * 10\<close> show ?thesis
      by (intro exI [of _ "Suc k"]) simp
  next
    case False
    with 1 show ?thesis by (intro exI [of _ 0]) (simp add: strip_zeros.simps [of m])
  qed
qed

lemma num_wf_decimal: "num_wf (decimal m e)"
proof (cases "m = 0 \<or> overflows m e \<or> underflows m e")
  case True
  have "num_wf (Decimal 0 0)" by simp
  moreover have "num_wf (NumInf p)" for p by simp
  ultimately show ?thesis
    using True by (cases "m = 0") (simp del: num_wf.simps, auto simp: decimal_def simp del: num_wf.simps)
next
  case False
  obtain m' e' where st: "strip_zeros m e = (m', e')" by fastforce
  with False have d: "decimal m e = Decimal m' e'" by (simp add: decimal_def)
  from strip_zeros_value [OF _ st] False obtain k where "m = m' * 10 ^ k" "e = e' - int k" by auto
  with decimal_shift [of m' k e'] d show ?thesis by simp
qed

lemma num_wf_nat [simp]: "num_wf (js_nat n)"
  by (simp add: js_nat_def num_wf_decimal)

lemma js_nat_inject:
  assumes "js_nat i = js_nat j" "j < 2 ^ 53"
  shows "i = j"
proof -
  have neq: "0 < n \<Longrightarrow> \<not> underflows (int n) 0" for n by (simp add: underflows_def)
  have "int j < float_limit_int"
    using assms(2) by (simp add: float_limit_int_def)
  then have oj: "\<not> overflows (int j) 0" by (simp add: overflows_def)
  then obtain m e where dj: "js_nat j = Decimal m e" "strip_zeros (int j) 0 = (m, e)"
    by (cases "strip_zeros (int j) 0") (auto simp: js_nat_def decimal_def underflows_def)
  then have oi: "\<not> overflows (int i) 0" using assms(1) by (auto simp: js_nat_def decimal_def)
  then have di: "strip_zeros (int i) 0 = (m, e)"
    using dj assms(1) by (auto simp: js_nat_def decimal_def underflows_def split: prod.splits)
  have val: "int n = m * 10 ^ nat e" if st: "strip_zeros (int n) 0 = (m, e)" for n
  proof (cases "n = 0")
    case True
    with st show ?thesis by (simp add: strip_zeros.simps)
  next
    case False
    then obtain k where "int n = m * 10 ^ k" "e = int k"
      using strip_zeros_value [OF _ st] by auto
    then show ?thesis by simp
  qed
  show ?thesis using val [OF di] val [OF dj(2)] by simp
qed

subsection \<open>Decimal strings of small numbers\<close>

lemma nat_digits_times_10: "0 < m \<Longrightarrow> nat_digits (m * 10) = nat_digits m @ [digit_char 0]"
  by (subst nat_digits.simps) simp

lemma nat_digits_times_power: "0 < m \<Longrightarrow> nat_digits (m * 10 ^ k) = nat_digits m @ zeros k"
proof (induction k)
  case (Suc k)
  have "nat_digits (m * 10 ^ k * 10) = nat_digits (m * 10 ^ k) @ [digit_char 0]"
    using Suc.prems by (intro nat_digits_times_10) simp
  moreover have "zeros k @ [digit_char 0] = zeros (Suc k)"
    by (simp add: zeros_def replicate_append_same)
  ultimately show ?case using Suc by (simp add: mult.commute mult.left_commute)
qed (simp add: zeros_def)

lemma length_nat_digits: "n < 10 ^ k \<Longrightarrow> 0 < k \<Longrightarrow> length (nat_digits n) \<le> k"
proof (induction n arbitrary: k rule: nat_digits.induct)
  case (1 n)
  show ?case
  proof (cases "n < 10")
    case False
    then obtain k' where k: "k = Suc k'" "0 < k'" using 1(2,3) by (cases k; cases "k - 1") auto
    then have "n div 10 < 10 ^ k'" using 1(2) by (simp add: less_mult_imp_div_less mult.commute)
    then show ?thesis using 1(1) [OF False _ k(2)] False k by (simp add: nat_digits.simps [of n])
  qed (use 1 in \<open>simp add: nat_digits.simps [of n]\<close>)
qed

lemma js_String_nat:
  assumes "n < 10 ^ 21"
  shows "js_String (js_nat n) = nat_digits n"
proof (cases "n = 0")
  case True
  then show ?thesis
    by (simp add: js_nat_def nat_digits.simps digit_char_def lit_def)
next
  case False
  obtain m e where st: "strip_zeros (int n) 0 = (m, e)" by fastforce
  have "int n < float_limit_int" using assms by (simp add: float_limit_int_def)
  then have num: "js_nat n = Decimal m e"
    using st by (simp add: js_nat_def decimal_def overflows_def underflows_def)
  obtain k where k: "int n = m * 10 ^ k" "e = int k"
    using strip_zeros_value [OF _ st] False by auto
  have m: "0 < m" using k(1) False by (metis of_nat_0_less_iff neq0_conv zero_less_mult_pos2 zero_less_numeral zero_less_power)
  then have nk: "n = nat m * 10 ^ k" using k(1) by (metis nat_eq_iff2 nat_int nat_mult_distrib nat_power_eq of_nat_numeral order_less_imp_le zero_le_numeral nat_numeral)
  have digits: "nat_digits n = nat_digits (nat m) @ zeros k"
    using m unfolding nk by (intro nat_digits_times_power) simp
  have "length (nat_digits (nat m)) + k \<le> 21"
    using length_nat_digits [OF assms] digits by simp
  then show ?thesis
    using m k(2) digits by (simp add: num Let_def decimal_string_def)
qed

end
