(* ===== verification/Json.thy ===== *)
theory Json
  imports JsNum
begin

text \<open>
  The values that packets carry and JSON 3 (module 11 of the bundle), with which the socket.io
  parser prints and reads them: \<open>quote\<close>, \<open>serialize\<close> and \<open>stringify\<close>, and the lexer \<open>lex\<close>, the
  parser \<open>get\<close> and \<open>parse\<close>. Modelled is the branch the module takes when the host has
  no usable \<open>JSON\<close> object of its own.

  Values are trees: an object is the list of its own enumerable properties in the order of
  \<open>for ... in\<close>. Dates are in \<open>JsonDate\<close>, the \<open>callback\<close> of \<open>parse\<close> in \<open>JsonRevive\<close>. Not modelled:
  \<open>toJSON\<close> methods, cyclic structures (the only ones for which \<open>serialize\<close> throws), the \<open>callback\<close> of \<open>stringify\<close>, and the
  prototype that an assignment to the property \<open>__proto__\<close> would set (\<open>set_prop\<close> drops it).
\<close>

subsection \<open>Values\<close>

datatype jsval =
    JUndef
  | JNull
  | JBool bool
  | JNum jsnum
  | JStr jsstr
  | JArr "jsval list"
  | JObj "(jsstr \<times> jsval) list"
  | JBuf bytes
  | JBlob bytes

fun set_assoc :: "'k \<Rightarrow> 'v \<Rightarrow> ('k \<times> 'v) list \<Rightarrow> ('k \<times> 'v) list" where
  "set_assoc k v [] = [(k, v)]"
| "set_assoc k v ((k', v') # kvs) = (if k = k' then (k, v) # kvs else (k', v') # set_assoc k v kvs)"

definition set_prop :: "jsstr \<Rightarrow> jsval \<Rightarrow> (jsstr \<times> jsval) list \<Rightarrow> (jsstr \<times> jsval) list" where
  "set_prop k v kvs = (if k = lit ''__proto__'' then kvs else set_assoc k v kvs)"

lemma set_assoc_keys: "set (map fst (set_assoc k v q)) = insert k (set (map fst q))"
  by (induction k v q rule: set_assoc.induct) (simp_all add: insert_commute)

lemma distinct_set_assoc: "distinct (map fst q) \<Longrightarrow> distinct (map fst (set_assoc k v q))"
proof (induction q)
  case (Cons x q)
  then show ?case using set_assoc_keys [of k v q] by (cases x) auto
qed simp

text \<open>\<open>String(value)\<close>, which concatenation with a string applies.\<close>

fun join :: "jsstr \<Rightarrow> jsstr list \<Rightarrow> jsstr" where
  "join sep [] = []"
| "join sep [s] = s"
| "join sep (s # t # ss) = s @ sep @ join sep (t # ss)"

fun js_toString :: "jsval \<Rightarrow> jsstr" where
  "js_toString JUndef = lit ''undefined''"
| "js_toString JNull = lit ''null''"
| "js_toString (JBool b) = (if b then lit ''true'' else lit ''false'')"
| "js_toString (JNum n) = js_String n"
| "js_toString (JStr s) = s"
| "js_toString (JArr vs) =
     join (lit '','') (map (\<lambda>v. if v = JUndef \<or> v = JNull then [] else js_toString v) vs)"
| "js_toString (JObj _) = lit ''[object Object]''"
| "js_toString (JBuf _) = lit ''[object ArrayBuffer]''"
| "js_toString (JBlob _) = lit ''[object Blob]''"

subsection \<open>Serializing\<close>

definition hex_char :: "nat \<Rightarrow> jschar" where
  "hex_char d = (if d < 10 then of_nat (48 + d) else of_nat (87 + d))"

function hex_digits :: "nat \<Rightarrow> jsstr" where
  "hex_digits n = (if n < 16 then [hex_char n] else hex_digits (n div 16) @ [hex_char (n mod 16)])"
  by pat_completeness auto
termination
  by (relation "measure id") auto

declare hex_digits.simps [simp del]

definition toPaddedString :: "nat \<Rightarrow> jsstr \<Rightarrow> jsstr" where
  "toPaddedString width value = (let s = lit ''000000'' @ value in drop (length s - width) s)"

definition Escapes :: "jschar \<rightharpoonup> jsstr" where
  "Escapes = map_of [(92, [92, 92]), (34, [92, 34]), (8, [92, 98]), (12, [92, 102]),
                     (10, [92, 110]), (13, [92, 114]), (9, [92, 116])]"

definition quote_char :: "jschar \<Rightarrow> jsstr" where
  "quote_char charCode = (case Escapes charCode of Some s \<Rightarrow> s
     | None \<Rightarrow> if charCode < 32 then [92, 117, 48, 48] @ toPaddedString 2 (hex_digits (unat charCode))
              else [charCode])"

definition quote :: "jsstr \<Rightarrow> jsstr" where
  "quote value = [34] @ concat (map quote_char value) @ [34]"

text \<open>\<open>forEach\<close> visits the property \<open>constructor\<close> last.\<close>

definition constructor_last :: "(jsstr \<times> 'v) list \<Rightarrow> (jsstr \<times> 'v) list" where
  "constructor_last kvs =
     filter (\<lambda>(k, _). k \<noteq> lit ''constructor'') kvs @ filter (\<lambda>(k, _). k = lit ''constructor'') kvs"

definition members_of :: "jsstr list option \<Rightarrow> (jsstr \<times> jsval) list \<Rightarrow> (jsstr \<times> jsval) list" where
  "members_of properties kvs = (case properties of
       None \<Rightarrow> constructor_last kvs
     | Some ps \<Rightarrow> constructor_last (concat (map (\<lambda>p. case map_of kvs p of Some v \<Rightarrow> [(p, v)] | None \<Rightarrow> []) ps)))"

definition bracket :: "jschar \<Rightarrow> jschar \<Rightarrow> jsstr \<Rightarrow> jsstr \<Rightarrow> jsstr \<Rightarrow> jsstr list \<Rightarrow> jsstr" where
  "bracket left right whitespace indentation prefix results =
     (if results \<noteq> [] then
        (if whitespace \<noteq> [] then
           [left, 10] @ indentation @ join ([44, 10] @ indentation) results @ [10] @ prefix @ [right]
         else [left] @ join [44] results @ [right])
      else [left, right])"

lemma members_of_set: "(k, v) \<in> set (members_of properties kvs) \<Longrightarrow> (k, v) \<in> set kvs"
  by (auto simp: members_of_def constructor_last_def dest: map_of_SomeD [OF sym] split: option.splits)

lemma members_of_size: "(k, v) \<in> set (members_of properties kvs) \<Longrightarrow> size v < size (JObj kvs)"
proof (drule members_of_set)
  show "(k, v) \<in> set kvs \<Longrightarrow> size v < size (JObj kvs)"
    by (induction kvs) auto
qed

function serialize :: "jsstr list option \<Rightarrow> jsstr \<Rightarrow> jsstr \<Rightarrow> jsval \<Rightarrow> jsstr option" where
  "serialize properties whitespace indentation JUndef = None"
| "serialize properties whitespace indentation JNull = Some (lit ''null'')"
| "serialize properties whitespace indentation (JBool b) = Some (if b then lit ''true'' else lit ''false'')"
| "serialize properties whitespace indentation (JNum n) =
     Some (case n of Decimal _ _ \<Rightarrow> js_String n | _ \<Rightarrow> lit ''null'')"
| "serialize properties whitespace indentation (JStr s) = Some (quote s)"
| "serialize properties whitespace indentation (JArr vs) =
     Some (bracket 91 93 whitespace (indentation @ whitespace) indentation
       (map (\<lambda>v. case serialize properties whitespace (indentation @ whitespace) v of
                   None \<Rightarrow> lit ''null'' | Some element \<Rightarrow> element) vs))"
| "serialize properties whitespace indentation (JObj kvs) =
     Some (bracket 123 125 whitespace (indentation @ whitespace) indentation
       (concat (map (\<lambda>(k, v). case serialize properties whitespace (indentation @ whitespace) v of
                   None \<Rightarrow> []
                 | Some element \<Rightarrow> [quote k @ [58] @ (if whitespace \<noteq> [] then [32] else []) @ element])
          (members_of properties kvs))))"
| "serialize properties whitespace indentation (JBuf _) = Some (lit ''{}'')"
| "serialize properties whitespace indentation (JBlob _) = Some (lit ''{}'')"
  by pat_completeness auto
termination
  by (relation "measure (\<lambda>(_, _, _, v). size v)")
    (auto dest: members_of_size simp: less_Suc_eq_le size_list_estimation')

text \<open>
  The arguments of \<open>stringify\<close>: the \<open>filter\<close> as a list of the names it contains, each once, and
  the \<open>width\<close>, a number (already truncated to an integer) or a string.
\<close>

datatype json_width = NoWidth | WidthNumber int | WidthString jsstr

fun width_whitespace :: "json_width \<Rightarrow> jsstr" where
  "width_whitespace NoWidth = []"
| "width_whitespace (WidthNumber width) =
     (if width > 0 then replicate (nat (min width 10)) 32 else [])"
| "width_whitespace (WidthString width) = (if length width \<le> 10 then width else take 10 width)"

definition json_stringify :: "jsval \<Rightarrow> jsstr list option \<Rightarrow> json_width \<Rightarrow> jsstr option" where
  "json_stringify source properties width = serialize properties (width_whitespace width) [] source"

subsection \<open>The lexer\<close>

text \<open>
  A token is what \<open>lex\<close> returns: a punctuator, a string (in the code with the sentinel
  \<open>@\<close> before it), a number, a literal, or the sentinel for the end. The state \<open>Index\<close> is the
  suffix of the source that is still unread.
\<close>

datatype token = TEnd | TPunct jschar | TString jsstr | TNum jsnum | TBool bool | TNull

definition Unescapes :: "jschar \<rightharpoonup> jschar" where
  "Unescapes = map_of [(92, 92), (34, 34), (47, 47), (98, 8), (116, 9), (110, 10), (102, 12), (114, 13)]"

definition is_hex :: "jschar \<Rightarrow> bool" where
  "is_hex c \<longleftrightarrow> 48 \<le> c \<and> c \<le> 57 \<or> 97 \<le> c \<and> c \<le> 102 \<or> 65 \<le> c \<and> c \<le> 70"

definition hex_val :: "jschar \<Rightarrow> nat" where
  "hex_val c = (if c \<le> 57 then unat c - 48 else if c \<le> 70 then unat c - 55 else unat c - 87)"

definition fromCharCode_hex :: "jsstr \<Rightarrow> jschar" where
  "fromCharCode_hex ds = of_nat (foldl (\<lambda>v c. 16 * v + hex_val c) 0 ds)"

fun lex_string :: "jsstr \<Rightarrow> jsstr \<Rightarrow> (jsstr \<times> jsstr) result" where
  "lex_string [] value = Inl SyntaxError"
| "lex_string (c # cs) value =
     (if c < 32 then Inl SyntaxError
      else if c = 92 then
        (case cs of
           [] \<Rightarrow> Inl SyntaxError
         | e # es \<Rightarrow>
             (case Unescapes e of
                Some u \<Rightarrow> lex_string es (value @ [u])
              | None \<Rightarrow>
                  if e = 117 then
                    (if length es \<ge> 4 \<and> (\<forall>h \<in> set (take 4 es). is_hex h)
                     then lex_string (drop 4 es) (value @ [fromCharCode_hex (take 4 es)])
                     else Inl SyntaxError)
                  else Inl SyntaxError))
      else if c = 34 then Inr (value, cs)
      else lex_string cs (value @ [c]))"

definition skip_fraction :: "jsstr \<Rightarrow> jsstr result" where
  "skip_fraction s = (case s of c # cs \<Rightarrow>
       if c = 46 then
         (if takeWhile is_digit cs = [] then Inl SyntaxError else Inr (dropWhile is_digit cs))
       else Inr s
     | [] \<Rightarrow> Inr [])"

definition skip_exponent :: "jsstr \<Rightarrow> jsstr result" where
  "skip_exponent s = (case s of c # cs \<Rightarrow>
       if c = 101 \<or> c = 69 then
         (let ds = (case cs of d # ds \<Rightarrow> if d = 43 \<or> d = 45 then ds else cs | [] \<Rightarrow> []) in
          if takeWhile is_digit ds = [] then Inl SyntaxError else Inr (dropWhile is_digit ds))
       else Inr s
     | [] \<Rightarrow> Inr [])"

definition lex_other :: "jsstr \<Rightarrow> (token \<times> jsstr) result" where
  "lex_other s =
     (let isSigned = (s \<noteq> [] \<and> hd s = 45); t = (if isSigned then tl s else s) in
      if t \<noteq> [] \<and> is_digit (hd t) then
        (if hd t = 48 \<and> tl t \<noteq> [] \<and> is_digit (hd (tl t)) then Inl SyntaxError
         else bindE (skip_fraction (dropWhile is_digit t)) (\<lambda>u.
              bindE (skip_exponent u) (\<lambda>r.
                Inr (TNum (js_Number (take (length s - length r) s)), r))))
      else if isSigned then Inl SyntaxError
      else if take 4 s = lit ''true'' then Inr (TBool True, drop 4 s)
      else if take 5 s = lit ''false'' then Inr (TBool False, drop 5 s)
      else if take 4 s = lit ''null'' then Inr (TNull, drop 4 s)
      else Inl SyntaxError)"

definition is_json_space :: "jschar \<Rightarrow> bool" where
  "is_json_space c \<longleftrightarrow> c \<in> {9, 10, 13, 32}"

definition is_punctuator :: "jschar \<Rightarrow> bool" where
  "is_punctuator c \<longleftrightarrow> c \<in> {123, 125, 91, 93, 58, 44}"

fun lex :: "jsstr \<Rightarrow> (token \<times> jsstr) result" where
  "lex [] = Inr (TEnd, [])"
| "lex (c # cs) =
     (if is_json_space c then lex cs
      else if is_punctuator c then Inr (TPunct c, cs)
      else if c = 34 then bindE (lex_string cs []) (\<lambda>(s, r). Inr (TString s, r))
      else lex_other (c # cs))"

lemma lex_string_shorter: "lex_string cs acc = Inr (s, r) \<Longrightarrow> length r < length cs"
  by (induction cs acc rule: lex_string.induct)
    (fastforce split: if_splits option.splits list.splits)+

lemma dropWhile_le: "length (dropWhile P xs) \<le> length xs"
  by (rule length_dropWhile_le)

lemma skip_fraction_le: "skip_fraction s = Inr r \<Longrightarrow> length r \<le> length s"
  using dropWhile_le [of is_digit "tl s"]
  by (cases s) (auto simp: skip_fraction_def split: if_splits)

lemma skip_exponent_le: "skip_exponent s = Inr r \<Longrightarrow> length r \<le> length s"
  using dropWhile_le [of is_digit "tl s"] dropWhile_le [of is_digit "tl (tl s)"]
  by (cases s) (auto simp: skip_exponent_def Let_def split: if_splits list.splits)

lemma lex_other_shorter: "lex_other s = Inr (tok, r) \<Longrightarrow> length r < length s"
proof -
  assume l: "lex_other s = Inr (tok, r)"
  have drop: "take n s = lit w \<Longrightarrow> w \<noteq> [] \<Longrightarrow> n > 0 \<Longrightarrow> length (drop n s) < length s" for n w
    by (cases s) (auto simp: lit_def)
  have "length (dropWhile is_digit t) < length t" if "t \<noteq> []" "is_digit (hd t)" for t
    using that dropWhile_le [of is_digit "tl t"] by (cases t) auto
  then show ?thesis
    using l drop
    by (fastforce simp: lex_other_def Let_def bindE_Inr_iff split: if_splits
        dest!: skip_fraction_le skip_exponent_le)
qed

lemma lex_shorter: "lex s = Inr (tok, r) \<Longrightarrow> tok \<noteq> TEnd \<Longrightarrow> length r < length s"
proof (induction s rule: lex.induct)
  case (2 c cs)
  then show ?case
    using lex_string_shorter [of cs "[]"] lex_other_shorter [of "c # cs" tok r]
    by (fastforce simp: bindE_Inr_iff split: if_splits)
qed simp

lemma lex_le: "lex s = Inr (tok, r) \<Longrightarrow> length r \<le> length s"
proof (cases "tok = TEnd")
  case True
  assume "lex s = Inr (tok, r)"
  with True show ?thesis
    by (induction s rule: lex.induct) (auto simp: bindE_Inr_iff lex_other_def Let_def split: if_splits)
qed (auto dest: lex_shorter)

subsection \<open>The parser\<close>

text \<open>
  \<open>get\<close> is the code's function of that name at a token (\<open>Value\<close>), and its two loops at the
  state of their local variables \<open>hasMembers\<close> and \<open>results\<close> (\<open>Elements\<close>, \<open>Members\<close>).
\<close>

datatype get_mode =
    Value token
  | Elements bool "jsval list"
  | Members bool "(jsstr \<times> jsval) list"

lemma bindE_cong [fundef_cong]:
  "m = m' \<Longrightarrow> (\<And>x. m' = Inr x \<Longrightarrow> f x = g x) \<Longrightarrow> bindE m f = bindE m' g"
  by (cases m') auto

text \<open>The separator before an element or member: \<open>None\<close> when the closing bracket was read.\<close>

definition next_item :: "jschar \<Rightarrow> bool \<Rightarrow> jsstr \<Rightarrow> (token option \<times> jsstr) result" where
  "next_item right hasMembers s =
     bindE (lex s) (\<lambda>(value, r).
       if value = TPunct right then Inr (None, r)
       else if hasMembers then
         (if value = TPunct 44 then
            bindE (lex r) (\<lambda>(value', r').
              if value' = TPunct right then Inl SyntaxError else Inr (Some value', r'))
          else Inl SyntaxError)
       else Inr (Some value, r))"

definition expect_colon :: "jsstr \<Rightarrow> jsstr result" where
  "expect_colon s = bindE (lex s) (\<lambda>(value, r). if value = TPunct 58 then Inr r else Inl SyntaxError)"

function get :: "get_mode \<Rightarrow> jsstr \<Rightarrow> (jsval \<times> jsstr) result" where
  "get (Value TEnd) s = Inl SyntaxError"
| "get (Value (TString v)) s = Inr (JStr v, s)"
| "get (Value (TNum n)) s = Inr (JNum n, s)"
| "get (Value (TBool b)) s = Inr (JBool b, s)"
| "get (Value TNull) s = Inr (JNull, s)"
| "get (Value (TPunct c)) s =
     (if c = 91 then get (Elements False []) s
      else if c = 123 then get (Members False []) s
      else Inl SyntaxError)"
| "get (Elements hasMembers results) s =
     bindE (next_item 93 hasMembers s) (\<lambda>(item, r).
       case item of
         None \<Rightarrow> Inr (JArr results, r)
       | Some value \<Rightarrow>
           if value = TPunct 44 then Inl SyntaxError
           else bindE (get (Value value) r) (\<lambda>(v, r'). get (Elements True (results @ [v])) r'))"
| "get (Members hasMembers results) s =
     bindE (next_item 125 hasMembers s) (\<lambda>(item, r).
       case item of
         None \<Rightarrow> Inr (JObj results, r)
       | Some value \<Rightarrow>
           (case value of
              TString k \<Rightarrow>
                bindE (expect_colon r) (\<lambda>r1.
                bindE (lex r1) (\<lambda>(value', r2).
                bindE (get (Value value') r2) (\<lambda>(v, r3). get (Members True (set_prop k v results)) r3)))
            | _ \<Rightarrow> Inl SyntaxError))"
  by pat_completeness auto

fun get_weight :: "get_mode \<times> jsstr \<Rightarrow> nat" where
  "get_weight (Value TEnd, s) = 2 * length s"
| "get_weight (Value _, s) = 2 * length s + 2"
| "get_weight (_, s) = 2 * length s + 1"

lemma next_item_le: "next_item c h s = Inr (Some tok, r) \<Longrightarrow> length r \<le> length s \<and> (tok \<noteq> TEnd \<longrightarrow> length r < length s)"
  unfolding next_item_def
  by (fastforce simp: bindE_Inr_iff split: if_splits dest: lex_le lex_shorter)

lemma next_item_None: "next_item c h s = Inr (None, r) \<Longrightarrow> length r < length s"
  unfolding next_item_def
  by (fastforce simp: bindE_Inr_iff split: if_splits dest: lex_le lex_shorter)

lemma expect_colon_less: "expect_colon s = Inr r \<Longrightarrow> length r < length s"
  unfolding expect_colon_def
  by (fastforce simp: bindE_Inr_iff split: if_splits dest: lex_shorter)

lemma get_le: "get_dom (mode, s) \<Longrightarrow> get mode s = Inr (v, r) \<Longrightarrow> length r \<le> length s"
proof (induction mode s arbitrary: v r rule: get.pinduct)
  case (6 c s)
  then show ?case by (auto simp: get.psimps split: if_splits)
next
  case (7 hasMembers results s)
  then obtain item r1 where it: "next_item 93 hasMembers s = Inr (item, r1)"
    by (auto simp: get.psimps bindE_Inr_iff)
  show ?case
  proof (cases item)
    case None
    with 7 it show ?thesis by (auto simp: get.psimps dest: next_item_None)
  next
    case (Some tok)
    then obtain v1 r2 where "get (Value tok) r1 = Inr (v1, r2)" "tok \<noteq> TPunct 44"
      "get (Elements True (results @ [v1])) r2 = Inr (v, r)"
      using 7 it by (auto simp: get.psimps bindE_Inr_iff split: if_splits)
    then show ?thesis
      using "7.IH"(1) [OF it refl Some] "7.IH"(2) [OF it refl Some] next_item_le [of _ _ s tok r1] it Some
      by fastforce
  qed
next
  case (8 hasMembers results s)
  then obtain item r1 where it: "next_item 125 hasMembers s = Inr (item, r1)"
    by (auto simp: get.psimps bindE_Inr_iff)
  show ?case
  proof (cases item)
    case None
    with 8 it show ?thesis by (auto simp: get.psimps dest: next_item_None)
  next
    case (Some tok)
    then obtain k r2 tok' r3 v1 r4 where tok: "tok = TString k" 
      and c: "expect_colon r1 = Inr r2" and l: "lex r2 = Inr (tok', r3)" 
      and g: "get (Value tok') r3 = Inr (v1, r4)"
      and m: "get (Members True (set_prop k v1 results)) r4 = Inr (v, r)"
      using 8 it by (auto simp: get.psimps bindE_Inr_iff split: token.splits)
    have "length r \<le> length r4" "length r4 \<le> length r3"
      using "8.IH"(1) [OF it refl Some tok c l refl g]
        "8.IH"(2) [OF it refl Some tok c l refl g refl m] by auto
    then show ?thesis
      using next_item_le it Some lex_le [OF l] expect_colon_less [OF c] by fastforce
  qed
qed (auto simp: get.psimps)

lemma weight_item:
  "next_item c h s = Inr (Some tok, r) \<Longrightarrow> get_weight (Value tok, r) < Suc (2 * length s)"
  "lex s = Inr (tok, r) \<Longrightarrow> get_weight (Value tok, r) < Suc (2 * length s)"
  using next_item_le [of c h s tok r] lex_le [of s tok r] lex_shorter [of s tok r]
  by (cases tok; fastforce)+

lemma get_item:
  assumes "get_dom (Value tok, r)" "get (Value tok) r = Inr (v, r')"
  shows "next_item c h s = Inr (Some tok, r) \<Longrightarrow> length r' < length s"
    and "lex s = Inr (tok, r) \<Longrightarrow> length r' < length s"
proof -
  have "tok \<noteq> TEnd" using assms by (auto simp: get.psimps)
  then show "next_item c h s = Inr (Some tok, r) \<Longrightarrow> length r' < length s"
    and "lex s = Inr (tok, r) \<Longrightarrow> length r' < length s"
    using get_le [OF assms] next_item_le [of c h s tok r] lex_shorter [of s tok r] by auto
qed

lemma member_value:
  "next_item c h s = Inr (Some tok, r) \<Longrightarrow> expect_colon r = Inr r' \<Longrightarrow> length r' < length s"
  using next_item_le expect_colon_less by fastforce

termination get
proof (relation "measure get_weight", goal_cases)
  case (4 hasMembers results s x a b x2)
  then show ?case using weight_item(1) [of 93 hasMembers s x2 b] by simp
next
  case (5 hasMembers results s x a b x2 xa aa ba)
  then show ?case using get_item(1) [of x2 b aa ba 93 hasMembers s] by simp
next
  case prems: (6 hasMembers results s x a b x2 x3 xb xa aa ba)
  then show ?case using member_value weight_item(2) [of xb aa ba] by fastforce
next
  case prems: (7 hasMembers results s x a b x2 x3 xb xa aa ba xaa ab bb)
  then show ?case using member_value get_item(2) [of aa ba ab bb xb] by fastforce
qed simp_all

definition json_parse :: "jsstr \<Rightarrow> jsval result" where
  "json_parse source =
     bindE (lex source) (\<lambda>(value, r).
     bindE (get (Value value) r) (\<lambda>(v, r').
     bindE (lex r') (\<lambda>(value', _). if value' = TEnd then Inr v else Inl SyntaxError)))"

subsection \<open>What survives a print\<close>

text \<open>
  \<open>json_norm\<close> is the value JSON can represent: \<open>undefined\<close> becomes \<open>null\<close> in an array and
  disappears from an object, a number that is not finite becomes \<open>null\<close>, binary data becomes an
  empty object, and \<open>constructor\<close> moves to the end. \<open>json_ok\<close> are the values the source
  language can build: canonical numbers, distinct property names (without \<open>__proto__\<close>).
\<close>

lemma constructor_last_set [simp]: "set (constructor_last kvs) = set kvs"
  by (auto simp: constructor_last_def)

lemma size_member: "(k, v) \<in> set kvs \<Longrightarrow> size v < Suc (size_list (size_prod (\<lambda>_. 0) size) kvs)"
  by (induction kvs) auto

function json_norm :: "jsval \<Rightarrow> jsval" where
  "json_norm JUndef = JNull"
| "json_norm JNull = JNull"
| "json_norm (JBool b) = JBool b"
| "json_norm (JNum n) = (case n of Decimal _ _ \<Rightarrow> JNum n | _ \<Rightarrow> JNull)"
| "json_norm (JStr s) = JStr s"
| "json_norm (JArr vs) = JArr (map json_norm vs)"
| "json_norm (JObj kvs) =
     JObj (map (\<lambda>(k, v). (k, json_norm v)) (filter (\<lambda>(_, v). v \<noteq> JUndef) (constructor_last kvs)))"
| "json_norm (JBuf _) = JObj []"
| "json_norm (JBlob _) = JObj []"
  by pat_completeness auto
termination
  by (relation "measure size") (auto dest: size_member simp: less_Suc_eq_le size_list_estimation')

function json_ok :: "jsval \<Rightarrow> bool" where
  "json_ok (JNum n) = num_wf n"
| "json_ok (JArr vs) = list_all json_ok vs"
| "json_ok (JObj kvs) =
     (distinct (map fst kvs) \<and> lit ''__proto__'' \<notin> set (map fst kvs) \<and>
      list_all (\<lambda>(_, v). json_ok v) kvs)"
| "json_ok JUndef = True"
| "json_ok JNull = True"
| "json_ok (JBool b) = True"
| "json_ok (JStr s) = True"
| "json_ok (JBuf b) = True"
| "json_ok (JBlob b) = True"
  by pat_completeness auto
termination
  by (relation "measure size") (auto dest: size_member simp: less_Suc_eq_le size_list_estimation')

subsection \<open>Lexing what was printed\<close>

definition json_spaces :: "jsstr \<Rightarrow> bool" where
  "json_spaces s \<longleftrightarrow> (\<forall>c \<in> set s. is_json_space c)"

lemma lex_spaces: "json_spaces sp \<Longrightarrow> lex (sp @ s) = lex s"
  by (induction sp) (auto simp: json_spaces_def)

lemma hex_escape:
  assumes "n < 32"
  shows "\<exists>a b. toPaddedString 2 (hex_digits n) = [a, b] \<and> is_hex a \<and> is_hex b \<and>
    fromCharCode_hex [48, 48, a, b] = of_nat n"
proof -
  have "\<forall>n \<in> set [0..<32]. case toPaddedString 2 (hex_digits n) of
      [a, b] \<Rightarrow> is_hex a \<and> is_hex b \<and> fromCharCode_hex [48, 48, a, b] = of_nat n | _ \<Rightarrow> False"
    by code_simp
  with assms have "case toPaddedString 2 (hex_digits n) of
      [a, b] \<Rightarrow> is_hex a \<and> is_hex b \<and> fromCharCode_hex [48, 48, a, b] = of_nat n | _ \<Rightarrow> False"
    by (auto simp del: upt_rec_numeral)
  then show ?thesis by (auto split: list.splits)
qed

lemma lex_string_quote_char: "lex_string (quote_char c @ rest) acc = lex_string rest (acc @ [c])"
proof (cases "Escapes c")
  case (Some s)
  then show ?thesis
    by (auto simp: quote_char_def Escapes_def Unescapes_def split: if_splits)
next
  case None
  then have c: "c \<noteq> 92" "c \<noteq> 34" by (auto simp: Escapes_def)
  show ?thesis
  proof (cases "c < 32")
    case True
    then have "unat c < 32" by (simp add: word_less_nat_alt)
    from hex_escape [OF this] obtain a b where
      "toPaddedString 2 (hex_digits (unat c)) = [a, b]" "is_hex a" "is_hex b"
      "fromCharCode_hex [48, 48, a, b] = c"
      by auto
    moreover have "is_hex 48" by (simp add: is_hex_def)
    ultimately show ?thesis
      using True None by (simp add: quote_char_def Unescapes_def)
  next
    case False
    with None c show ?thesis by (simp add: quote_char_def)
  qed
qed

lemma lex_string_quote: "lex_string (concat (map quote_char s) @ 34 # rest) acc = Inr (acc @ s, rest)"
  by (induction s arbitrary: acc) (simp_all add: lex_string_quote_char)

lemma lex_quote: "lex (quote s @ rest) = Inr (TString s, rest)"
  by (simp add: quote_def is_json_space_def is_punctuator_def lex_string_quote)

definition stops :: "jsstr \<Rightarrow> bool" where
  "stops rest \<longleftrightarrow> rest = [] \<or> \<not> is_digit (hd rest) \<and> hd rest \<notin> {46, 101, 69}"

lemma exponent_hd: "stops rest \<Longrightarrow> exponent x @ rest = [] \<or> \<not> is_digit (hd (exponent x @ rest)) \<and> hd (exponent x @ rest) \<noteq> 46"
  using hd_exponent [of x] by (cases "exponent x") (auto simp: stops_def)

lemma skip_exponent_exponent:
  assumes "stops rest"
  shows "skip_exponent (exponent x @ rest) = Inr rest"
proof (cases x)
  case None
  with assms show ?thesis
    by (cases rest) (auto simp: exponent_def skip_exponent_def stops_def)
next
  case (Some y)
  have rest: "rest = [] \<or> \<not> is_digit (hd rest)" using assms by (auto simp: stops_def)
  note sp = span_digits [OF _ rest, of "nat_digits (nat \<bar>y\<bar>)", simplified]
  then show ?thesis
    using Some by (auto simp: exponent_def exponent_string_def skip_exponent_def lit_def Let_def
        nat_digits_neq_Nil [symmetric])
qed

lemma skip_fraction_fraction:
  assumes "all_digits fp" "r = [] \<or> \<not> is_digit (hd r) \<and> hd r \<noteq> 46"
  shows "skip_fraction (fraction fp @ r) = Inr r"
proof (cases "fp = []")
  case True
  with assms show ?thesis
    by (cases r) (auto simp: fraction_def skip_fraction_def)
next
  case False
  have "r = [] \<or> \<not> is_digit (hd r)" using assms by auto
  from span_digits [OF assms(1) this] False show ?thesis
    by (simp add: fraction_def skip_fraction_def lit_def)
qed

lemma lex_other_signed:
  assumes "sg = [] \<or> sg = [45]" "t \<noteq> []" "is_digit (hd t)"
    and "\<not> (hd t = 48 \<and> tl t \<noteq> [] \<and> is_digit (hd (tl t)))"
    and "skip_fraction (dropWhile is_digit t) = Inr u" "skip_exponent u = Inr r"
  shows "lex_other (sg @ t) = Inr (TNum (js_Number (take (length (sg @ t) - length r) (sg @ t))), r)"
proof -
  have "hd t \<noteq> 45" using assms(3) digit_bounds by auto
  then have "sg @ t \<noteq> [] \<and> hd (sg @ t) = 45 \<longleftrightarrow> sg = [45]" "(if sg = [45] then tl (sg @ t) else sg @ t) = t"
    using assms(1,2) by auto
  then show ?thesis using assms(2-6) unfolding lex_other_def Let_def by simp
qed

lemma lex_other_printed:
  assumes p: "printed s ip fp x" and "stops rest" and sg: "sg = [] \<or> sg = [45]"
  shows "lex_other (sg @ s @ rest) = Inr (TNum (js_Number (sg @ s)), rest)"
proof -
  have s: "s = ip @ fraction fp @ exponent x" "all_digits ip" "all_digits fp" "ip \<noteq> []"
    "hd ip = 48 \<longrightarrow> length ip = 1"
    using p by (auto simp: printed_def)
  have hd: "is_digit (hd ip)" "hd ip \<noteq> 45"
    using s(2,4) digit_bounds by (auto simp: all_digits_def)
  let ?r = "fraction fp @ exponent x @ rest"
  have r: "?r = [] \<or> \<not> is_digit (hd ?r)"
    using exponent_hd [OF assms(2), of x] by (auto simp: fraction_def lit_def)
  note ip = span_digits [OF s(2) r]
  have octal: "\<not> (hd (ip @ ?r) = 48 \<and> tl (ip @ ?r) \<noteq> [] \<and> is_digit (hd (tl (ip @ ?r))))"
    using s(4,5) r by (cases ip) auto
  have fr: "skip_fraction ?r = Inr (exponent x @ rest)"
    by (rule skip_fraction_fraction [OF s(3) exponent_hd [OF assms(2)]])
  have str: "s @ rest = ip @ ?r" by (simp add: s(1))
  have "lex_other (sg @ ip @ ?r) =
      Inr (TNum (js_Number (take (length (sg @ ip @ ?r) - length rest) (sg @ ip @ ?r))), rest)"
    using sg s(4) hd octal ip fr skip_exponent_exponent [OF assms(2), of x]
    by (intro lex_other_signed) auto
  moreover have "take (length (sg @ s @ rest) - length rest) (sg @ s @ rest) = sg @ s"
    by simp
  ultimately show ?thesis by (simp only: str)
qed

lemma lex_number_char: "is_digit c \<or> c = 45 \<Longrightarrow> lex (c # cs) = lex_other (c # cs)"
  by (auto simp: is_digit_def is_json_space_def is_punctuator_def)

lemma lex_number:
  assumes "num_wf (Decimal m e)" "stops rest"
  shows "lex (js_String (Decimal m e) @ rest) = Inr (TNum (Decimal m e), rest)"
proof -
  obtain sg s ip fp x where str: "js_String (Decimal m e) = sg @ s" and p: "printed s ip fp x"
    and sg: "sg = [] \<or> sg = [45]"
  proof (cases "m = 0")
    case True
    have "printed (lit ''0'') [48] [] None"
      by (simp add: printed_def fraction_def exponent_def lit_def is_digit_def)
    with True that [of "[]" "lit ''0''"] show thesis by simp
  next
    case False
    let ?s = "decimal_string (nat_digits (nat \<bar>m\<bar>)) (int (length (nat_digits (nat \<bar>m\<bar>))) + e)"
    from decimal_string_printed [of "nat \<bar>m\<bar>"] False obtain ip fp x where "printed ?s ip fp x"
      by fastforce
    with False that [of "if m < 0 then lit ''-'' else []" ?s] show thesis
      by (auto simp: Let_def lit_def)
  qed
  have "js_Number (sg @ s) = Decimal m e"
    using js_Number_String [OF assms(1)] by (simp only: str)
  moreover have "lex (sg @ s @ rest) = lex_other (sg @ s @ rest)"
    using sg printed_neq [OF p] lex_number_char by (cases s) fastforce+
  ultimately show ?thesis
    using lex_other_printed [OF p assms(2) sg] str by simp
qed

lemma lex_literals:
  "lex (lit ''null'' @ rest) = Inr (TNull, rest)"
  "lex (lit ''true'' @ rest) = Inr (TBool True, rest)"
  "lex (lit ''false'' @ rest) = Inr (TBool False, rest)"
  by (simp_all add: lit_def is_json_space_def is_punctuator_def lex_other_def is_digit_def Let_def)

subsection \<open>Parsing what was printed\<close>

text \<open>\<open>reads s v\<close>: the text \<open>s\<close>, in front of anything that cannot continue a number, is read as \<open>v\<close>.\<close>

definition reads :: "jsstr \<Rightarrow> jsval \<Rightarrow> bool" where
  "reads s v \<longleftrightarrow> (\<forall>rest. stops rest \<longrightarrow> (\<exists>tok r. lex (s @ rest) = Inr (tok, r) \<and>
     get (Value tok) r = Inr (v, rest) \<and> tok \<notin> {TPunct 44, TPunct 93, TPunct 125, TEnd}))"

lemma join_concat: "join sep (s # ss) = s @ concat (map (\<lambda>s. sep @ s) ss)"
  by (induction ss arbitrary: s) simp_all

lemma stops_punct: "c \<in> {44, 93, 125} \<Longrightarrow> stops (c # rest)" "json_spaces sp \<Longrightarrow> stops rest \<Longrightarrow> stops (sp @ rest)"
  by (auto simp: stops_def is_digit_def, (cases sp; auto simp: json_spaces_def is_json_space_def)+)

lemma lex_punct: "is_punctuator c \<Longrightarrow> lex (c # s) = Inr (TPunct c, s)"
  by (auto simp: is_punctuator_def is_json_space_def)

lemma get_elements:
  assumes "list_all2 reads ss vs" "json_spaces sp" "json_spaces tail"
  shows "get (Elements True acc) (concat (map (\<lambda>s. (44 # sp) @ s) ss) @ tail @ 93 # rest)
       = Inr (JArr (acc @ vs), rest)"
  using assms(1)
proof (induction ss vs arbitrary: acc rule: list_all2_induct)
  case Nil
  then show ?case
    by (simp add: next_item_def lex_spaces assms is_json_space_def is_punctuator_def)
next
  case (Cons s ss v vs)
  let ?more = "concat (map (\<lambda>s. (44 # sp) @ s) ss) @ tail @ 93 # rest"
  have "stops ?more" 
    using assms(3) by (cases ss) (simp_all add: stops_punct)
  with Cons obtain tok r where "lex (s @ ?more) = Inr (tok, r)" "get (Value tok) r = Inr (v, ?more)"
    "tok \<notin> {TPunct 44, TPunct 93, TPunct 125, TEnd}"
    unfolding reads_def by blast
  then show ?case
    using Cons.IH [of "acc @ [v]"]
    by (simp add: next_item_def lex_spaces assms is_json_space_def is_punctuator_def)
qed

lemma readsE:
  assumes "reads s v" "stops rest"
  obtains tok r where "lex (s @ rest) = Inr (tok, r)" "get (Value tok) r = Inr (v, rest)"
    "tok \<notin> {TPunct 44, TPunct 93, TPunct 125, TEnd}"
  using assms unfolding reads_def by blast

lemma stops_more:
  "c \<in> {93, 125} \<Longrightarrow> json_spaces tail \<Longrightarrow> stops (concat (map (\<lambda>x. 44 # f x) xs) @ tail @ c # rest)"
  by (cases xs) (auto simp: stops_punct)

lemma get_array:
  assumes "list_all2 reads ss vs" "json_spaces lead" "json_spaces sp" "json_spaces tail"
  shows "get (Elements False []) (lead @ join (44 # sp) ss @ tail @ 93 # rest) = Inr (JArr vs, rest)"
proof (cases ss)
  case Nil
  with assms show ?thesis
    by (simp add: next_item_def lex_spaces is_json_space_def is_punctuator_def)
next
  case (Cons s ss')
  with assms obtain v vs' where vs: "vs = v # vs'" "reads s v" "list_all2 reads ss' vs'"
    by (auto simp: list_all2_Cons1)
  let ?more = "concat (map (\<lambda>s. (44 # sp) @ s) ss') @ tail @ 93 # rest"
  have "stops ?more" using assms(4) stops_more [of 93 tail "\<lambda>s. sp @ s" ss' rest] by simp
  with vs(2) obtain tok r where "lex (s @ ?more) = Inr (tok, r)" "get (Value tok) r = Inr (v, ?more)"
    "tok \<notin> {TPunct 44, TPunct 93, TPunct 125, TEnd}"
    by (rule readsE)
  moreover have "lead @ join (44 # sp) ss @ tail @ 93 # rest = lead @ s @ ?more"
    using Cons by (simp add: join_concat)
  moreover have "get (Elements True [v]) ?more = Inr (JArr vs, rest)"
    using get_elements [OF vs(3) assms(3,4), of "[v]" rest] vs(1) by simp
  ultimately show ?thesis
    by (simp add: next_item_def lex_spaces assms(2) del: append_Cons)
qed

definition member_text :: "jsstr \<Rightarrow> jsstr \<times> jsstr \<Rightarrow> jsstr" where
  "member_text csp = (\<lambda>(k, s). quote k @ [58] @ csp @ s)"

definition reads_member :: "jsstr \<times> jsstr \<Rightarrow> jsstr \<times> jsval \<Rightarrow> bool" where
  "reads_member = (\<lambda>(k, s) (k', v). k = k' \<and> reads s v)"

lemma get_member:
  assumes "reads s v" "json_spaces csp" "stops more"
    and item: "next_item 125 h text = Inr (Some (TString k), 58 # csp @ s @ more)"
  shows "get (Members h acc) text = get (Members True (set_prop k v acc)) more"
proof -
  from assms(1,3) obtain tok r where "lex (s @ more) = Inr (tok, r)" "get (Value tok) r = Inr (v, more)"
    by (rule readsE)
  moreover have "expect_colon (58 # csp @ s @ more) = Inr (csp @ s @ more)"
    by (simp add: expect_colon_def is_json_space_def is_punctuator_def)
  ultimately show ?thesis
    using item by (simp add: lex_spaces assms(2))
qed

lemma get_members:
  assumes "list_all2 reads_member kss kvs" "json_spaces sp" "json_spaces csp" "json_spaces tail"
  shows "get (Members True acc) (concat (map (\<lambda>x. 44 # sp @ member_text csp x) kss) @ tail @ 125 # rest)
       = Inr (JObj (fold (\<lambda>(k, v). set_prop k v) kvs acc), rest)"
  using assms(1)
proof (induction kss kvs arbitrary: acc rule: list_all2_induct)
  case Nil
  then show ?case
    by (simp add: next_item_def lex_spaces assms is_json_space_def is_punctuator_def)
next
  case (Cons ks kss kv kvs)
  obtain k s v where ks: "ks = (k, s)" "kv = (k, v)" "reads s v"
    using Cons.hyps(1) by (cases ks; cases kv) (auto simp: reads_member_def)
  let ?more = "concat (map (\<lambda>x. 44 # sp @ member_text csp x) kss) @ tail @ 125 # rest"
  have "next_item 125 True (44 # sp @ quote k @ 58 # csp @ s @ ?more) =
      Inr (Some (TString k), 58 # csp @ s @ ?more)"
    by (simp add: next_item_def lex_spaces assms(2) is_json_space_def is_punctuator_def lex_quote)
  from get_member [OF ks(3) assms(3) stops_more [OF _ assms(4)] this] Cons.IH
  show ?case by (simp add: ks member_text_def)
qed

lemma get_object:
  assumes "list_all2 reads_member kss kvs" "json_spaces lead" "json_spaces sp" "json_spaces csp" "json_spaces tail"
  shows "get (Members False []) (lead @ join (44 # sp) (map (member_text csp) kss) @ tail @ 125 # rest)
       = Inr (JObj (fold (\<lambda>(k, v). set_prop k v) kvs []), rest)"
proof (cases kss)
  case Nil
  with assms show ?thesis
    by (simp add: next_item_def lex_spaces is_json_space_def is_punctuator_def)
next
  case (Cons ks kss')
  with assms obtain kv kvs' where kvs: "kvs = kv # kvs'" "reads_member ks kv" "list_all2 reads_member kss' kvs'"
    by (auto simp: list_all2_Cons1)
  obtain k s v where ks: "ks = (k, s)" "kv = (k, v)" "reads s v"
    using kvs(2) by (cases ks; cases kv) (auto simp: reads_member_def)
  let ?more = "concat (map (\<lambda>x. 44 # sp @ member_text csp x) kss') @ tail @ 125 # rest"
  have "next_item 125 False (lead @ quote k @ 58 # csp @ s @ ?more) =
      Inr (Some (TString k), 58 # csp @ s @ ?more)"
    by (simp add: next_item_def lex_spaces assms(2) lex_quote)
  from get_member [OF ks(3) assms(4) stops_more [OF _ assms(5)] this, of "[]"]
    get_members [OF kvs(3) assms(3-5)]
  show ?thesis using Cons by (simp add: ks kvs(1) join_concat member_text_def comp_def)
qed

lemma fold_set_prop:
  assumes "distinct (map fst (acc @ kvs))" "lit ''__proto__'' \<notin> set (map fst kvs)"
  shows "fold (\<lambda>(k, v). set_prop k v) kvs acc = acc @ kvs"
  using assms
proof (induction kvs arbitrary: acc)
  case (Cons kv kvs)
  have "set_assoc k v acc = acc @ [(k, v)]" if "k \<notin> set (map fst acc)" for k and v :: jsval
    using that by (induction acc) auto
  with Cons show ?case by (cases kv) (auto simp: set_prop_def)
qed simp

subsection \<open>Printing and parsing\<close>

lemma bracket_layout:
  assumes "json_spaces ws" "json_spaces ind" "json_spaces pre"
  obtains lead sp tail where "json_spaces lead" "json_spaces sp" "json_spaces tail"
    "\<And>ss. bracket left right ws ind pre ss = left # (if ss = [] then [] else lead @ join (44 # sp) ss @ tail) @ [right]"
proof (cases "ws = []")
  case True
  with that [of "[]" "[]" "[]"] show thesis by (simp add: bracket_def json_spaces_def)
next
  case False
  with assms that [of "10 # ind" "10 # ind" "10 # pre"] show thesis
    by (simp add: bracket_def json_spaces_def is_json_space_def)
qed

lemma readsI:
  assumes "\<And>rest. stops rest \<Longrightarrow> lex (s @ rest) = Inr (tok, r rest)"
    and "\<And>rest. stops rest \<Longrightarrow> get (Value tok) (r rest) = Inr (v, rest)"
    and "tok \<notin> {TPunct 44, TPunct 93, TPunct 125, TEnd}"
  shows "reads s v"
  using assms unfolding reads_def by blast

lemma reads_array:
  assumes "json_spaces ws" "json_spaces ind" "json_spaces pre" "list_all2 reads ss vs"
  shows "reads (bracket 91 93 ws ind pre ss) (JArr vs)"
proof -
  obtain lead sp tail where sp: "json_spaces lead" "json_spaces sp" "json_spaces tail" and
    b: "\<And>ss. bracket 91 93 ws ind pre ss = 91 # (if ss = [] then [] else lead @ join (44 # sp) ss @ tail) @ [93]"
    using bracket_layout [OF assms(1-3)] by metis
  let ?body = "if ss = [] then [] else lead @ join (44 # sp) ss @ tail"
  have "get (Elements False []) (?body @ 93 # rest) = Inr (JArr vs, rest)" for rest
  proof (cases "ss = []")
    case True
    with assms(4) have vs: "vs = []" "list_all2 reads [] []" by auto
    show ?thesis using get_array [OF vs(2), of "[]" "[]" "[]" rest] True vs(1) by (simp add: json_spaces_def)
  next
    case False
    then show ?thesis using get_array [OF assms(4) sp] by simp
  qed
  then show ?thesis
    by (intro readsI [of _ "TPunct 91" "\<lambda>rest. ?body @ 93 # rest"])
      (simp_all add: b is_json_space_def is_punctuator_def)
qed

lemma reads_object:
  assumes "json_spaces ws" "json_spaces ind" "json_spaces pre" "json_spaces csp"
    and "list_all2 reads_member kss kvs" "distinct (map fst kvs)" "lit ''__proto__'' \<notin> set (map fst kvs)"
  shows "reads (bracket 123 125 ws ind pre (map (member_text csp) kss)) (JObj kvs)"
proof -
  obtain lead sp tail where sp: "json_spaces lead" "json_spaces sp" "json_spaces tail" and
    b: "\<And>ss. bracket 123 125 ws ind pre ss = 123 # (if ss = [] then [] else lead @ join (44 # sp) ss @ tail) @ [125]"
    using bracket_layout [OF assms(1-3)] by metis
  let ?ss = "map (member_text csp) kss"
  let ?body = "if ?ss = [] then [] else lead @ join (44 # sp) ?ss @ tail"
  have fold: "fold (\<lambda>(k, v). set_prop k v) kvs [] = kvs"
    using fold_set_prop [of "[]" kvs] assms(6,7) by simp
  have "get (Members False []) (?body @ 125 # rest) = Inr (JObj kvs, rest)" for rest
  proof (cases "kss = []")
    case True
    with assms(5) have kvs: "kvs = []" "list_all2 reads_member [] []" by auto
    show ?thesis
      using get_object [OF kvs(2), of "[]" "[]" "[]" "[]" rest] True kvs(1) by (simp add: json_spaces_def)
  next
    case False
    then show ?thesis using get_object [OF assms(5) sp(1,2) assms(4) sp(3)] fold by simp
  qed
  then show ?thesis
    by (intro readsI [of _ "TPunct 123" "\<lambda>rest. ?body @ 125 # rest"])
      (simp_all add: b is_json_space_def is_punctuator_def)
qed

lemma reads_atoms:
  "reads (lit ''null'') JNull" "reads (if b then lit ''true'' else lit ''false'') (JBool b)"
  "reads (quote s) (JStr s)" "num_wf (Decimal m e) \<Longrightarrow> reads (js_String (Decimal m e)) (JNum (Decimal m e))"
  "reads (lit ''{}'') (JObj [])"
proof -
  show "reads (lit ''null'') JNull"
    by (rule readsI [of _ TNull "\<lambda>r. r"]) (simp_all add: lex_literals)
  show "reads (if b then lit ''true'' else lit ''false'') (JBool b)"
    by (rule readsI [of _ "TBool b" "\<lambda>r. r"]) (simp_all add: lex_literals)
  show "reads (quote s) (JStr s)"
    by (rule readsI [of _ "TString s" "\<lambda>r. r"]) (simp_all add: lex_quote)
  show "reads (js_String (Decimal m e)) (JNum (Decimal m e))" if "num_wf (Decimal m e)"
    using that by (intro readsI [of _ "TNum (Decimal m e)" "\<lambda>r. r"]) (simp_all add: lex_number del: js_String.simps num_wf.simps)
  show "reads (lit ''{}'') (JObj [])"
    using reads_object [of "[]" "[]" "[]" "[]" "[]" "[]"] by (simp add: bracket_def json_spaces_def lit_def)
qed

lemma serialize_None: "serialize ps ws ind v = None \<longleftrightarrow> v = JUndef"
  by (cases v) auto

lemma distinct_constructor_last:
  "distinct (map fst kvs) \<Longrightarrow> distinct (map fst (constructor_last kvs))"
  by (auto simp: constructor_last_def distinct_map_filter)

lemma serialize_reads:
  "serialize ps ws ind v = Some s \<Longrightarrow> ps = None \<Longrightarrow> json_ok v \<Longrightarrow> json_spaces ws \<Longrightarrow> json_spaces ind \<Longrightarrow>
   reads s (json_norm v)"
proof (induction ps ws ind v arbitrary: s rule: serialize.induct)
  case (4 ps ws ind n)
  then show ?case by (cases n) (auto intro: reads_atoms simp del: js_String.simps num_wf.simps)
next
  case (6 ps ws ind vs)
  have sp: "json_spaces (ind @ ws)" using 6 by (auto simp: json_spaces_def)
  have "reads (case serialize ps ws (ind @ ws) v of None \<Rightarrow> lit ''null'' | Some e \<Rightarrow> e) (json_norm v)"
    if "v \<in> set vs" for v
  proof (cases "serialize ps ws (ind @ ws) v")
    case None
    then show ?thesis by (simp add: serialize_None reads_atoms)
  next
    case (Some e)
    moreover have "json_ok v" using 6(4) that by (auto simp: list_all_iff)
    ultimately show ?thesis using "6.IH" [OF that] 6 sp by simp
  qed
  then have "list_all2 reads (map (\<lambda>v. case serialize ps ws (ind @ ws) v of None \<Rightarrow> lit ''null'' | Some e \<Rightarrow> e) vs)
      (map json_norm vs)"
    by (simp add: list_all2_map1 list_all2_map2 list_all2_same)
  from reads_array [OF 6(5) sp 6(6) this] 6(2) show ?case by simp
next
  case (7 ps ws ind kvs)
  have sp: "json_spaces (ind @ ws)" using 7 by (auto simp: json_spaces_def)
  let ?csp = "if ws \<noteq> [] then [32] else []"
  let ?ser = "\<lambda>v. serialize ps ws (ind @ ws) v"
  let ?ms = "filter (\<lambda>(_, v). v \<noteq> JUndef) (constructor_last kvs)"
  let ?kss = "map (\<lambda>(k, v). (k, the (?ser v))) ?ms"
  have texts: "concat (map (\<lambda>(k, v). case ?ser v of None \<Rightarrow> []
      | Some element \<Rightarrow> [quote k @ [58] @ ?csp @ element]) xs) =
      map (member_text ?csp) (map (\<lambda>(k, v). (k, the (?ser v))) (filter (\<lambda>(_, v). v \<noteq> JUndef) xs))" for xs
    by (induction xs) (auto simp: member_text_def serialize_None split: option.splits)
  have "reads (the (?ser v)) (json_norm v)" if "(k, v) \<in> set ?ms" for k v
  proof -
    from that have kv: "(k, v) \<in> set (members_of ps kvs)" "v \<noteq> JUndef" "json_ok v"
      using 7(3,4) by (auto simp: members_of_def list_all_iff)
    then obtain e where "?ser v = Some e" using serialize_None by fastforce
    with "7.IH" [OF kv(1) refl] kv 7 sp show ?thesis by simp
  qed
  then have all2: "list_all2 reads_member ?kss (map (\<lambda>(k, v). (k, json_norm v)) ?ms)"
    by (auto simp: list_all2_map1 list_all2_map2 list_all2_same reads_member_def)
  have "json_spaces ?csp" by (simp add: json_spaces_def is_json_space_def)
  moreover have "distinct (map fst (constructor_last kvs))"
    using 7(4) by (simp add: distinct_constructor_last)
  moreover have "map fst (map (\<lambda>(k, v). (k, json_norm v)) ?ms) = map fst ?ms"
    by (simp add: comp_def case_prod_unfold)
  moreover have "set (map fst ?ms) \<subseteq> set (map fst kvs)" by auto
  ultimately have "reads (bracket 123 125 ws (ind @ ws) ind (map (member_text ?csp) ?kss))
      (JObj (map (\<lambda>(k, v). (k, json_norm v)) ?ms))"
    using 7(4) by (intro reads_object [OF 7(5) sp 7(6) _ all2]) (auto intro: distinct_map_filter simp del: map_map)
  moreover have "s = bracket 123 125 ws (ind @ ws) ind (map (member_text ?csp) ?kss)"
    using 7(2) texts [of "constructor_last kvs"] unfolding 7(3)
    by (simp only: serialize.simps members_of_def option.case option.inject)
  ultimately show ?case by simp
qed (auto intro: reads_atoms reads_atoms(2) [of True, simplified] reads_atoms(2) [of False, simplified])

lemma stops_Nil: "stops []"
  by (simp add: stops_def)

lemma json_parse_reads: "reads s v \<Longrightarrow> json_parse s = Inr v"
  using stops_Nil by (auto simp: json_parse_def elim!: readsE [where rest = "[]", simplified])

lemma json_parse_stringify:
  assumes "json_ok v" "json_stringify v None width = Some s" "json_spaces (width_whitespace width)"
  shows "json_parse s = Inr (json_norm v)"
proof -
  have "reads s (json_norm v)"
    using assms serialize_reads [of None "width_whitespace width" "[]" v s]
    by (simp add: json_stringify_def json_spaces_def)
  then show ?thesis by (rule json_parse_reads)
qed

lemma width_number_spaces: "json_spaces (width_whitespace (WidthNumber w))" "json_spaces (width_whitespace NoWidth)"
  by (auto simp: json_spaces_def is_json_space_def)

text \<open>Values that JSON represents as they are.\<close>

function json_plain :: "jsval \<Rightarrow> bool" where
  "json_plain (JNum n) = (case n of Decimal _ _ \<Rightarrow> num_wf n | _ \<Rightarrow> False)"
| "json_plain (JArr vs) = list_all json_plain vs"
| "json_plain (JObj kvs) =
     (distinct (map fst kvs) \<and> lit ''__proto__'' \<notin> set (map fst kvs) \<and>
      lit ''constructor'' \<notin> set (map fst kvs) \<and> list_all (\<lambda>(_, v). json_plain v) kvs)"
| "json_plain JUndef = False"
| "json_plain JNull = True"
| "json_plain (JBool b) = True"
| "json_plain (JStr s) = True"
| "json_plain (JBuf b) = False"
| "json_plain (JBlob b) = False"
  by pat_completeness auto
termination
  by (relation "measure size") (auto dest: size_member simp: less_Suc_eq_le size_list_estimation')

lemma json_plain_ok: "json_plain v \<Longrightarrow> json_ok v"
  by (induction v rule: json_plain.induct) (auto simp: list_all_iff split: jsnum.splits)

lemma constructor_last_id: "lit ''constructor'' \<notin> set (map fst kvs) \<Longrightarrow> constructor_last kvs = kvs"
  by (induction kvs) (auto simp: constructor_last_def)

lemma json_norm_plain: "json_plain v \<Longrightarrow> json_norm v = v"
proof (induction v rule: json_plain.induct)
  case (1 n)
  then show ?case by (cases n) auto
next
  case (2 vs)
  then show ?case by (auto simp: list_all_iff intro: map_idI)
next
  case (3 kvs)
  have "constructor_last kvs = kvs"
    using 3(2) by (intro constructor_last_id) simp
  moreover have "filter (\<lambda>(_, v). v \<noteq> JUndef) kvs = kvs"
    using 3(2) by (intro filter_True) (auto simp: list_all_iff)
  ultimately show ?case
    using 3 by (force simp: list_all_iff intro: map_idI)
qed auto

subsection \<open>The interface of a JSON codec\<close>

text \<open>
  What the socket.io parser needs of the two functions it calls. JSON 3 provides it; so does
  a host implementation of \<open>JSON\<close>.
\<close>

locale json_codec =
  fixes stringify :: "jsval \<Rightarrow> jsstr option" and parse :: "jsstr \<Rightarrow> jsval result"
  assumes stringify_defined: "v \<noteq> JUndef \<Longrightarrow> \<exists>s. stringify v = Some s"
    and parse_stringify: "json_ok v \<Longrightarrow> stringify v = Some s \<Longrightarrow> parse s = Inr (json_norm v)"
    and stringify_array: "stringify (JArr vs) = Some s \<Longrightarrow> s \<noteq> [] \<and> hd s = 91"
begin

lemma parse_stringify_plain: "json_plain v \<Longrightarrow> stringify v = Some s \<Longrightarrow> parse s = Inr v"
  using parse_stringify [OF json_plain_ok] by (simp add: json_norm_plain)

end

definition json3_stringify :: "jsval \<Rightarrow> jsstr option" where
  "json3_stringify v = json_stringify v None NoWidth"

interpretation json3: json_codec json3_stringify json_parse
proof unfold_locales
  show "\<exists>s. json3_stringify v = Some s" if "v \<noteq> JUndef" for v
    using that by (cases v) (auto simp: json3_stringify_def json_stringify_def)
  show "json_parse s = Inr (json_norm v)" if "json_ok v" "json3_stringify v = Some s" for v s
    using that json_parse_stringify [of v NoWidth s, OF _ _ width_number_spaces(2)]
    by (simp add: json3_stringify_def)
  show "s \<noteq> [] \<and> hd s = 91" if "json3_stringify (JArr vs) = Some s" for vs s
    using that by (auto simp: json3_stringify_def json_stringify_def bracket_def split: if_splits)
qed

subsection \<open>Properties\<close>

text \<open>
  C27. Parsing the text that \<open>stringify\<close> prints, compact or with any numeric indentation, succeeds
  and gives the value back, up to what JSON cannot represent (\<open>json_norm\<close>).
\<close>

theorem json3_roundtrip:
  assumes "json_ok v" "json_stringify v None (WidthNumber width) = Some s"
  shows "json_parse s = Inr (json_norm v)"
  using assms by (rule json_parse_stringify) (rule width_number_spaces)

theorem json3_roundtrip_witness:
  "let v = JObj [(lit ''a'', JArr [JNum (Decimal 15 (-1)), JUndef, JStr [9, 0x20AC]]), (lit ''b'', JBool True)] in
   \<exists>s. json_stringify v None (WidthNumber 2) = Some s \<and>
     json_parse s = Inr (JObj [(lit ''a'', JArr [JNum (Decimal 15 (-1)), JNull, JStr [9, 0x20AC]]), (lit ''b'', JBool True)])"
proof -
  let ?v = "JObj [(lit ''a'', JArr [JNum (Decimal 15 (-1)), JUndef, JStr [9, 0x20AC]]), (lit ''b'', JBool True)]"
  have "num_wf (Decimal 15 (-1))" by code_simp
  then have ok: "json_ok ?v" by (simp del: num_wf.simps)
  have "\<exists>s. json_stringify ?v None (WidthNumber 2) = Some s" by (simp add: json_stringify_def)
  then show ?thesis using json3_roundtrip [OF ok] by (fastforce simp: constructor_last_def)
qed

lemma lex_string_error: "lex_string cs acc = Inl e \<Longrightarrow> e = SyntaxError"
  by (induction cs acc rule: lex_string.induct) (auto split: if_splits option.splits list.splits)

lemma bindE_Inl_iff: "bindE m f = Inl e \<longleftrightarrow> m = Inl e \<or> (\<exists>x. m = Inr x \<and> f x = Inl e)"
  by (cases m) auto

lemma lex_other_error: "lex_other s = Inl e \<Longrightarrow> e = SyntaxError"
  by (auto simp: lex_other_def skip_fraction_def skip_exponent_def Let_def bindE_Inl_iff
      split: if_splits list.splits)

lemma lex_error: "lex s = Inl e \<Longrightarrow> e = SyntaxError"
  by (induction s rule: lex.induct)
    (auto simp: bindE_Inl_iff split: if_splits dest: lex_string_error lex_other_error)

lemma next_item_error: "next_item c h s = Inl e \<Longrightarrow> e = SyntaxError"
  by (auto simp: next_item_def bindE_Inl_iff split: if_splits dest: lex_error)

lemma expect_colon_error: "expect_colon s = Inl e \<Longrightarrow> e = SyntaxError"
  by (auto simp: expect_colon_def bindE_Inl_iff split: if_splits dest: lex_error)

lemma get_error: "get mode s = Inl e \<Longrightarrow> e = SyntaxError"
proof (induction mode s rule: get.induct)
  case (7 h acc s)
  from "7.prems" [unfolded get.simps(7) [of h acc s]] consider "next_item 93 h s = Inl e" | "e = SyntaxError"
    | tok r where "next_item 93 h s = Inr (Some tok, r)" "tok \<noteq> TPunct 44" "get (Value tok) r = Inl e"
    | tok r v r' where "next_item 93 h s = Inr (Some tok, r)" "tok \<noteq> TPunct 44"
      "get (Value tok) r = Inr (v, r')" "get (Elements True (acc @ [v])) r' = Inl e"
    by (auto simp: bindE_Inl_iff simp del: get.simps split: option.splits if_splits)
  then show ?case
  proof cases
    case 3
    show ?thesis by (rule "7.IH"(1) [OF 3(1) refl refl 3(2,3)])
  next
    case 4
    show ?thesis by (rule "7.IH"(2) [OF 4(1) refl refl 4(2,3) refl 4(4)])
  qed (rule next_item_error)
next
  case (8 h acc s)
  note prems = "8.prems" [unfolded get.simps(8) [of h acc s]]
  consider (err) "next_item 125 h s = Inl e" | (stx) "e = SyntaxError"
    | (item) k r where "next_item 125 h s = Inr (Some (TString k), r)"
  proof (cases "next_item 125 h s")
    case (Inr p)
    then show thesis
      using prems that by (cases p; cases "fst p") (auto simp del: get.simps split: token.splits)
  qed (use prems that in simp)
  then show ?case
  proof cases
    case (item k r)
    with prems consider "expect_colon r = Inl e" | r1 where "expect_colon r = Inr r1" "lex r1 = Inl e"
      | r1 tok r2 where "expect_colon r = Inr r1" "lex r1 = Inr (tok, r2)" "get (Value tok) r2 = Inl e"
      | r1 tok r2 v r3 where "expect_colon r = Inr r1" "lex r1 = Inr (tok, r2)"
        "get (Value tok) r2 = Inr (v, r3)" "get (Members True (set_prop k v acc)) r3 = Inl e"
      by (auto simp: bindE_Inl_iff simp del: get.simps)
    then show ?thesis
    proof cases
      case 3
      show ?thesis by (rule "8.IH"(1) [OF item refl refl refl 3(1,2) refl 3(3)])
    next
      case 4
      show ?thesis by (rule "8.IH"(2) [OF item refl refl refl 4(1,2) refl 4(3) refl 4(4)])
    qed (auto dest: expect_colon_error lex_error)
  qed (auto dest: next_item_error)
qed (auto simp del: get.simps(7,8) split: if_splits)

text \<open>
  C29. \<open>parse\<close> is total: on every source string the lexer and the parser end, with a value or
  with a \<open>SyntaxError\<close>, never with another exception.
\<close>

theorem json3_parse_total:
  "(\<exists>v. json_parse source = Inr v) \<or> json_parse source = Inl SyntaxError"
proof (cases "json_parse source")
  case (Inl e)
  then show ?thesis
    by (auto simp: json_parse_def bindE_Inl_iff simp del: get.simps split: if_splits
        dest: lex_error get_error)
qed blast

end
