(* ===== verification/Qs.thy ===== *)
theory Qs
  imports Wtf8 Json
begin

text \<open>
  Query strings: \<open>encode\<close> and \<open>decode\<close> of parseqs (module 36 of the bundle) and
  \<open>encodeQueryString\<close> of the entry module (module 0), over \<open>encodeURIComponent\<close> and
  \<open>decodeURIComponent\<close> of the language. The UTF-8 octets of a code point are those of
  \<open>encodeCodePoint\<close>; both functions of the language throw \<open>URIError\<close> for what is no scalar value.
\<close>

subsection \<open>URI components\<close>

definition unescaped :: "32 word \<Rightarrow> bool" where
  "unescaped cp \<longleftrightarrow> 48 \<le> cp \<and> cp \<le> 57 \<or> 65 \<le> cp \<and> cp \<le> 90 \<or> 97 \<le> cp \<and> cp \<le> 122 \<or>
     cp \<in> {45, 95, 46, 33, 126, 42, 39, 40, 41}"

definition surrogate :: "32 word \<Rightarrow> bool" where
  "surrogate cp \<longleftrightarrow> 0xD800 \<le> cp \<and> cp \<le> 0xDFFF"

definition upper_hex :: "nat \<Rightarrow> jschar" where
  "upper_hex d = (if d < 10 then of_nat (48 + d) else of_nat (55 + d))"

definition percent :: "jschar \<Rightarrow> jsstr" where
  "percent octet = [37, upper_hex (unat octet div 16), upper_hex (unat octet mod 16)]"

definition encode_point :: "32 word \<Rightarrow> jsstr result" where
  "encode_point cp =
     (if unescaped cp then Inr [stringFromCharCode cp]
      else if surrogate cp then Inl URIError
      else Inr (concat (map percent (encodeCodePoint cp))))"

fun encode_points :: "32 word list \<Rightarrow> jsstr result" where
  "encode_points [] = Inr []"
| "encode_points (cp # cps) =
     bindE (encode_point cp) (\<lambda>s. bindE (encode_points cps) (\<lambda>t. Inr (s @ t)))"

definition encodeURIComponent :: "jsstr \<Rightarrow> jsstr result" where
  "encodeURIComponent s = encode_points (ucs2decode s)"

fun read_octet :: "jsstr \<Rightarrow> (32 word \<times> jsstr) option" where
  "read_octet (p # a # b # rest) =
     (if p = 37 \<and> is_hex a \<and> is_hex b then Some (of_nat (16 * hex_val a + hex_val b), rest) else None)"
| "read_octet _ = None"

fun read_octets :: "nat \<Rightarrow> jsstr \<Rightarrow> (32 word list \<times> jsstr) option" where
  "read_octets 0 s = Some ([], s)"
| "read_octets (Suc n) s =
     (case read_octet s of None \<Rightarrow> None
      | Some (b, r) \<Rightarrow> (case read_octets n r of None \<Rightarrow> None | Some (bs, r') \<Rightarrow> Some (b # bs, r')))"

text \<open>The number of octets of the sequence that an octet leads.\<close>

definition sequence_length :: "32 word \<Rightarrow> nat" where
  "sequence_length b =
     (if b AND 0x80 = 0 then 1 else if b AND 0xE0 = 0xC0 then 2
      else if b AND 0xF0 = 0xE0 then 3 else if b AND 0xF8 = 0xF0 then 4 else 0)"

definition read_point :: "jsstr \<Rightarrow> (32 word \<times> jsstr) option" where
  "read_point s =
     (case read_octet s of None \<Rightarrow> None
      | Some (b, _) \<Rightarrow>
          if sequence_length b = 0 then None
          else (case read_octets (sequence_length b) s of None \<Rightarrow> None
            | Some (bs, r) \<Rightarrow>
                (case decodeSymbol bs of
                   Inr (Some (cp, [])) \<Rightarrow> if surrogate cp then None else Some (cp, r)
                 | _ \<Rightarrow> None)))"

lemma read_octet_shorter: "read_octet s = Some (b, r) \<Longrightarrow> length r < length s"
  by (cases s rule: read_octet.cases) (auto split: if_splits)

lemma read_octets_shorter: "read_octets n s = Some (bs, r) \<Longrightarrow> 0 < n \<Longrightarrow> length r < length s"
proof (induction n arbitrary: s bs)
  case (Suc n)
  then show ?case
    by (cases n) (fastforce split: option.splits prod.splits dest: read_octet_shorter)+
qed simp

lemma read_point_shorter: "read_point s = Some (cp, r) \<Longrightarrow> length r < length s"
  by (auto simp: read_point_def split: option.splits if_splits prod.splits sum.splits list.splits
      dest: read_octets_shorter)

function decode_points :: "jsstr \<Rightarrow> jsstr result" where
  "decode_points [] = Inr []"
| "decode_points (c # s) =
     (if c = 37 then
        (case read_point (c # s) of None \<Rightarrow> Inl URIError
         | Some (cp, r) \<Rightarrow> bindE (decode_points r) (\<lambda>t. Inr (ucs2encode [cp] @ t)))
      else bindE (decode_points s) (\<lambda>t. Inr (c # t)))"
  by pat_completeness auto
termination
  by (relation "measure length") (auto dest: read_point_shorter)

definition decodeURIComponent :: "jsstr \<Rightarrow> jsstr result" where
  "decodeURIComponent s = decode_points s"

subsection \<open>parseqs\<close>

text \<open>
  \<open>obj.hasOwnProperty(i)\<close> calls the object's own property of that name when there is
  one; a query has no functions, so it throws then.
\<close>

definition check_hasOwnProperty :: "(jsstr \<times> jsval) list \<Rightarrow> unit result" where
  "check_hasOwnProperty obj =
     (if map_of obj (lit ''hasOwnProperty'') \<noteq> None then Inl TypeError else Inr ())"

definition encode_pair :: "jsstr \<times> jsval \<Rightarrow> jsstr result" where
  "encode_pair = (\<lambda>(i, v).
     bindE (encodeURIComponent i) (\<lambda>k.
     bindE (encodeURIComponent (js_toString v)) (\<lambda>w. Inr (k @ lit ''='' @ w))))"

fun encode_loop :: "(jsstr \<times> jsval) list \<Rightarrow> (jsstr \<times> jsval) list \<Rightarrow> jsstr \<Rightarrow> jsstr result" where
  "encode_loop obj [] str = Inr str"
| "encode_loop obj (iv # rest) str =
     bindE (check_hasOwnProperty obj) (\<lambda>_.
     bindE (encode_pair iv) (\<lambda>pair.
       encode_loop obj rest ((if str \<noteq> [] then str @ lit ''&'' else str) @ pair)))"

definition qs_encode :: "(jsstr \<times> jsval) list \<Rightarrow> jsstr result" where
  "qs_encode obj = encode_loop obj obj []"

fun split_on :: "'a \<Rightarrow> 'a list \<Rightarrow> 'a list list" where
  "split_on c [] = [[]]"
| "split_on c (x # xs) =
     (if x = c then [] # split_on c xs
      else (case split_on c xs of [] \<Rightarrow> [[x]] | y # ys \<Rightarrow> (x # y) # ys))"

definition decode_pair :: "jsstr \<Rightarrow> (jsstr \<times> jsstr) result" where
  "decode_pair s =
     (let pair = split_on (of_char (CHR ''='')) s in
      bindE (decodeURIComponent (hd pair)) (\<lambda>k.
      bindE (decodeURIComponent (if length pair > 1 then pair ! 1 else lit ''undefined'')) (\<lambda>v.
        Inr (k, v))))"

fun decode_loop :: "jsstr list \<Rightarrow> (jsstr \<times> jsval) list \<Rightarrow> (jsstr \<times> jsval) list result" where
  "decode_loop [] qry = Inr qry"
| "decode_loop (p # pairs) qry =
     bindE (decode_pair p) (\<lambda>(k, v). decode_loop pairs (set_prop k (JStr v) qry))"

definition qs_decode :: "jsstr \<Rightarrow> (jsstr \<times> jsval) list result" where
  "qs_decode qs = decode_loop (split_on (of_char (CHR ''&'')) qs) []"

fun encodeQueryString_loop :: "(jsstr \<times> jsval) list \<Rightarrow> (jsstr \<times> jsval) list \<Rightarrow> jsstr list \<Rightarrow> jsstr list result" where
  "encodeQueryString_loop obj [] str = Inr str"
| "encodeQueryString_loop obj (p # rest) str =
     bindE (check_hasOwnProperty obj) (\<lambda>_.
     bindE (encode_pair p) (\<lambda>pair. encodeQueryString_loop obj rest (str @ [pair])))"

definition encodeQueryString :: "(jsstr \<times> jsval) list \<Rightarrow> jsstr result" where
  "encodeQueryString obj = bindE (encodeQueryString_loop obj obj []) (\<lambda>str. Inr (join (lit ''&'') str))"

subsection \<open>Decoding what was encoded\<close>

lemma upper_hex_props:
  "d < 16 \<Longrightarrow> is_hex (upper_hex d) \<and> hex_val (upper_hex d) = d \<and> upper_hex d \<notin> {37, 38, 61}"
proof -
  have "\<forall>d \<in> set [0..<16]. is_hex (upper_hex d) \<and> hex_val (upper_hex d) = d \<and> upper_hex d \<notin> {37, 38, 61}"
    by code_simp
  then show "d < 16 \<Longrightarrow> is_hex (upper_hex d) \<and> hex_val (upper_hex d) = d \<and> upper_hex d \<notin> {37, 38, 61}"
    by (auto simp del: upt_rec_numeral)
qed

lemma read_octet_percent:
  assumes "octet < (0x100 :: jschar)"
  shows "read_octet (percent octet @ r) = Some (ucast octet, r)"
proof -
  have "unat octet div 16 < 16" "unat octet mod 16 < 16"
    using assms by (auto simp: word_less_nat_alt)
  moreover have "(word_of_nat (16 * (unat octet div 16) + unat octet mod 16) :: 32 word) = ucast octet"
    by (simp add: mult_div_mod_eq)
  ultimately show ?thesis
    using upper_hex_props [of "unat octet div 16"] upper_hex_props [of "unat octet mod 16"]
    by (simp add: percent_def del: of_nat_add of_nat_mult)
qed

lemma read_octets_percent:
  "\<forall>c \<in> set os. c < (0x100 :: jschar) \<Longrightarrow>
   read_octets (length os) (concat (map percent os) @ r) = Some (map ucast os, r)"
  by (induction os) (simp_all add: read_octet_percent)

lemma point_cases:
  obtains "cp < (0x80 :: 32 word)" | "0x80 \<le> cp" "cp < 0x800" | "0x800 \<le> cp" "cp < 0x10000"
    | "0x10000 \<le> cp" by (meson not_le)

lemma sequence_length_encode:
  assumes "cp \<le> 0x10FFFF"
  shows "\<exists>b bs. map ucast (encodeCodePoint cp) = b # bs \<and> sequence_length b = Suc (length bs)"
proof -
  have lt: "cp < 0x200000" by (rule order_le_less_trans [OF assms]) simp
  show ?thesis
    by (cases cp rule: point_cases)
      (simp_all add: encodeCodePoint_bytes lt sequence_length_def byte_tests1 byte_tests2)
qed

lemma decode_points_percent:
  assumes "cp \<le> 0x10FFFF" "\<not> surrogate cp"
  shows "decode_points (concat (map percent (encodeCodePoint cp)) @ t) =
    bindE (decode_points t) (\<lambda>u. Inr (ucs2encode [cp] @ u))"
proof -
  obtain b bs where bs: "map ucast (encodeCodePoint cp) = b # bs" "sequence_length b = Suc (length bs)"
    using sequence_length_encode [OF assms(1)] by (elim exE conjE)
  obtain c cs where cs: "encodeCodePoint cp = c # cs" "b = ucast c" "bs = map ucast cs"
    using bs(1) by (cases "encodeCodePoint cp") auto
  let ?s = "concat (map percent (encodeCodePoint cp)) @ t"
  have small: "\<forall>c \<in> set (encodeCodePoint cp). c < 0x100"
    using encodeCodePoint_lt [OF assms(1)] by blast
  have "read_octet ?s = Some (b, concat (map percent cs) @ t)"
    using small cs read_octet_percent by simp
  moreover have "read_octets (Suc (length bs)) ?s = Some (b # bs, t)"
    using read_octets_percent [OF small, of t] bs(1) cs by simp
  moreover have "decodeSymbol (b # bs) = Inr (Some (cp, []))"
    using decodeSymbol_encodeCodePoint [OF assms(1), of "[]"] bs(1) by simp
  ultimately have "read_point ?s = Some (cp, t)"
    using assms(2) bs(2) by (simp add: read_point_def)
  moreover obtain h where "?s = 37 # h"
    by (simp add: cs percent_def)
  ultimately show ?thesis by simp
qed

lemma unescaped_small: "unescaped cp \<Longrightarrow> cp < 0x80 \<and> cp \<noteq> 37 \<and> cp \<noteq> 38 \<and> cp \<noteq> 61"
  by (auto simp: unescaped_def word_le_nat_alt word_less_nat_alt)

lemma stringFromCharCode_eq:
  assumes "cp < 0x80" "(k :: jschar) < 0x80"
  shows "stringFromCharCode cp = k \<longleftrightarrow> cp = ucast k"
proof -
  have "cp < 0x10000" by (rule order_less_trans [OF assms(1)]) simp
  then have "ucast (stringFromCharCode cp) = cp" unfolding ucast_char by (simp add: fits_less)
  then show ?thesis by (metis stringFromCharCode_ucast)
qed

lemma encode_point_decode:
  assumes "encode_point cp = Inr s" "cp \<le> 0x10FFFF"
  shows "decode_points (s @ t) = bindE (decode_points t) (\<lambda>u. Inr (ucs2encode [cp] @ u))"
proof (cases "unescaped cp")
  case True
  then have "stringFromCharCode cp \<noteq> 37" "\<not> cp > 0xFFFF"
    using unescaped_small [OF True] stringFromCharCode_eq [of cp 37]
    by (auto simp: word_less_nat_alt)
  then show ?thesis using assms(1) True by (auto simp: encode_point_def ucs2encode.simps)
next
  case False
  with assms show ?thesis
    by (auto simp: encode_point_def decode_points_percent split: if_splits)
qed

lemma ucs2encode_Cons: "ucs2encode (cp # cps) = ucs2encode [cp] @ ucs2encode cps"
  by (simp add: ucs2encode.simps Let_def)

lemma encode_points_decode:
  "encode_points cps = Inr s \<Longrightarrow> \<forall>cp \<in> set cps. cp \<le> 0x10FFFF \<Longrightarrow> decode_points s = Inr (ucs2encode cps)"
proof (induction cps arbitrary: s)
  case (Cons cp cps)
  then obtain s1 s2 where "encode_point cp = Inr s1" "encode_points cps = Inr s2" "s = s1 @ s2"
    by (auto simp: bindE_Inr_iff)
  with Cons show ?case
    by (simp add: encode_point_decode ucs2encode_Cons [of cp cps])
qed simp

lemma decodeURIComponent_encode: "encodeURIComponent s = Inr t \<Longrightarrow> decodeURIComponent t = Inr s"
  using encode_points_decode [of "ucs2decode s" t] ucs2decode_range
  by (simp add: encodeURIComponent_def decodeURIComponent_def ucs2encode_ucs2decode)

lemma encode_point_chars: "encode_point cp = Inr s \<Longrightarrow> cp \<le> 0x10FFFF \<Longrightarrow> c \<in> set s \<Longrightarrow> c \<noteq> 38 \<and> c \<noteq> 61"
proof (cases "unescaped cp")
  case True
  assume "encode_point cp = Inr s" "c \<in> set s"
  then show ?thesis
    using True unescaped_small [OF True] stringFromCharCode_eq [of cp 38] stringFromCharCode_eq [of cp 61]
    by (auto simp: encode_point_def)
next
  case False
  assume s: "encode_point cp = Inr s" "cp \<le> 0x10FFFF" "c \<in> set s"
  then obtain h where h: "h \<in> set (encodeCodePoint cp)" "c \<in> set (percent h)"
    using False by (auto simp: encode_point_def split: if_splits)
  have "unat h div 16 < 16" "unat h mod 16 < 16"
    using encodeCodePoint_lt [OF s(2) h(1)] by (auto simp: word_less_nat_alt)
  then show ?thesis
    using h(2) upper_hex_props [of "unat h div 16"] upper_hex_props [of "unat h mod 16"]
    by (auto simp: percent_def)
qed

lemma encodeURIComponent_chars:
  assumes "encodeURIComponent s = Inr t" "c \<in> set t"
  shows "c \<noteq> 38" "c \<noteq> 61"
proof -
  have "c \<noteq> 38 \<and> c \<noteq> 61" if "encode_points cps = Inr t" "\<forall>cp \<in> set cps. cp \<le> 0x10FFFF" "c \<in> set t" for cps t
    using that
  proof (induction cps arbitrary: t)
    case (Cons cp cps)
    then show ?case by (auto simp: bindE_Inr_iff dest: encode_point_chars)
  qed simp
  with assms ucs2decode_range show "c \<noteq> 38" "c \<noteq> 61"
    unfolding encodeURIComponent_def by blast+
qed

subsection \<open>The two encoders\<close>

fun encode_pairs :: "(jsstr \<times> jsval) list \<Rightarrow> jsstr list result" where
  "encode_pairs [] = Inr []"
| "encode_pairs (p # ps) = bindE (encode_pair p) (\<lambda>s. bindE (encode_pairs ps) (\<lambda>ss. Inr (s # ss)))"

lemma encode_pair_neq_Nil: "encode_pair p = Inr s \<Longrightarrow> s \<noteq> []"
  by (auto simp: encode_pair_def bindE_Inr_iff lit_def split: prod.splits)

lemma join_glue: "join sep (a # b # ss) = join sep ((a @ sep @ b) # ss)"
  by (cases ss) simp_all

lemma encode_loop_pairs:
  assumes "check_hasOwnProperty obj = Inr ()"
  shows "encode_loop obj rest str =
    bindE (encode_pairs rest) (\<lambda>ps. Inr (join (lit ''&'') ((if str = [] then [] else [str]) @ ps)))"
proof (induction rest arbitrary: str)
  case (Cons p rest)
  show ?case
  proof (cases "encode_pair p")
    case (Inr s)
    then show ?thesis
      using assms encode_pair_neq_Nil [OF Inr] by (simp add: Cons bindE_assoc join_glue del: join.simps)
  qed (use assms in simp)
qed simp

lemma encodeQueryString_loop_pairs:
  assumes "check_hasOwnProperty obj = Inr ()"
  shows "encodeQueryString_loop obj rest str = bindE (encode_pairs rest) (\<lambda>ps. Inr (str @ ps))"
  using assms by (induction rest arbitrary: str) (simp_all add: bindE_assoc)

lemma qs_encode_eq: "qs_encode obj = encodeQueryString obj"
proof (cases "check_hasOwnProperty obj = Inr ()")
  case True
  then show ?thesis
    by (simp add: qs_encode_def encodeQueryString_def encode_loop_pairs encodeQueryString_loop_pairs bindE_assoc)
next
  case False
  then show ?thesis
    by (cases obj) (auto simp: qs_encode_def encodeQueryString_def check_hasOwnProperty_def split: if_splits)
qed

subsection \<open>Round trip\<close>

lemma split_on_append: "c \<notin> set xs \<Longrightarrow> split_on c (xs @ c # ys) = xs # split_on c ys"
  by (induction xs) auto

lemma split_on_id: "c \<notin> set xs \<Longrightarrow> split_on c xs = [xs]"
  by (induction xs) auto

lemma split_on_join: "\<forall>p \<in> set ps. c \<notin> set p \<Longrightarrow> ps \<noteq> [] \<Longrightarrow> split_on c (join [c] ps) = ps"
proof (induction "[c]" ps rule: join.induct)
  case (3 s t ss)
  then show ?case by (simp add: split_on_append)
qed (simp_all add: split_on_id)

lemma decode_pair_encode:
  assumes "encode_pair (k, v) = Inr s"
  shows "decode_pair s = Inr (k, js_toString v)" "38 \<notin> set s"
proof -
  obtain a b where ab: "encodeURIComponent k = Inr a" "encodeURIComponent (js_toString v) = Inr b"
    "s = a @ 61 # b"
    using assms by (auto simp: encode_pair_def bindE_Inr_iff lit_def)
  have "61 \<notin> set a" "61 \<notin> set b" "38 \<notin> set a" "38 \<notin> set b"
    using encodeURIComponent_chars ab(1,2) by blast+
  then show "decode_pair s = Inr (k, js_toString v)" "38 \<notin> set s"
    using ab decodeURIComponent_encode by (simp_all add: decode_pair_def split_on_append split_on_id)
qed

lemma encode_pairs_chars: "encode_pairs obj = Inr ps \<Longrightarrow> p \<in> set ps \<Longrightarrow> 38 \<notin> set p"
  by (induction obj arbitrary: ps) (auto simp: bindE_Inr_iff dest: decode_pair_encode(2))

lemma decode_loop_pairs:
  "encode_pairs obj = Inr ps \<Longrightarrow>
   decode_loop ps qry = Inr (fold (\<lambda>(k, v). set_prop k v) (map (\<lambda>(k, v). (k, JStr (js_toString v))) obj) qry)"
proof (induction obj arbitrary: ps qry)
  case (Cons p obj)
  then show ?case
    by (cases p) (auto simp: bindE_Inr_iff dest!: decode_pair_encode(1))
qed simp

lemma qs_decode_encode:
  assumes "qs_encode obj = Inr s" "obj \<noteq> []" "distinct (map fst obj)" "lit ''__proto__'' \<notin> set (map fst obj)"
  shows "qs_decode s = Inr (map (\<lambda>(k, v). (k, JStr (js_toString v))) obj)"
proof -
  let ?strs = "map (\<lambda>(k, v). (k, JStr (js_toString v))) obj"
  have "check_hasOwnProperty obj = Inr ()"
    using assms(1,2) by (cases obj) (auto simp: qs_encode_def check_hasOwnProperty_def split: if_splits)
  then obtain ps where ps: "encode_pairs obj = Inr ps" "s = join [38] ps"
    using assms(1) by (auto simp: qs_encode_def encode_loop_pairs bindE_Inr_iff lit_def)
  have "ps \<noteq> []" using ps(1) assms(2) by (cases obj) (auto simp: bindE_Inr_iff)
  then have "split_on 38 s = ps"
    using split_on_join encode_pairs_chars [OF ps(1)] ps(2) by blast
  moreover have "map fst ?strs = map fst obj" by (simp add: comp_def case_prod_unfold)
  then have "fold (\<lambda>(k, v). set_prop k v) ?strs [] = ?strs"
    using fold_set_prop [of "[]" ?strs] assms(3,4) by (simp del: map_map)
  ultimately show ?thesis
    using decode_loop_pairs [OF ps(1)] by (simp add: qs_decode_def)
qed

subsection \<open>Properties\<close>

text \<open>
  C39. Decoding an encoded query gives every key with its value as a string, for any keys and
  values: no character of them can be mistaken for a separator. An encoding exists as long
  as all strings are well-formed UTF-16.
\<close>

theorem qs_roundtrip:
  assumes "qs_encode obj = Inr s" "obj \<noteq> []" "distinct (map fst obj)" "lit ''__proto__'' \<notin> set (map fst obj)"
  shows "qs_decode s = Inr (map (\<lambda>(k, v). (k, JStr (js_toString v))) obj)"
  using assms by (rule qs_decode_encode)

theorem qs_roundtrip_witness:
  "\<exists>s. qs_encode [(lit ''a&b'', JStr [0xE9, 0xD83D, 0xDE00]), (lit ''EIO'', JNum (Decimal 3 0))] = Inr s \<and>
     qs_decode s = Inr [(lit ''a&b'', JStr [0xE9, 0xD83D, 0xDE00]), (lit ''EIO'', JStr (lit ''3''))]"
proof -
  let ?obj = "[(lit ''a&b'', JStr [0xE9, 0xD83D, 0xDE00]), (lit ''EIO'', JNum (Decimal 3 0))]"
  have "\<not> (case qs_encode ?obj of Inl _ \<Rightarrow> True | Inr _ \<Rightarrow> False)" by code_simp
  then obtain s where s: "qs_encode ?obj = Inr s" by (auto split: sum.splits)
  have "js_String (Decimal 3 0) = lit ''3''" by code_simp
  with qs_roundtrip [OF s] s show ?thesis by (simp del: js_String.simps)
qed

text \<open>
  The query encoder of the entry module and the one of parseqs compute the same string,
  and throw in the same cases.
\<close>

theorem qs_encoders_agree: "encodeQueryString obj = qs_encode obj"
  by (rule qs_encode_eq [symmetric])

text \<open>The empty query is decoded to one entry, the string \<open>undefined\<close> under the empty key.\<close>

lemma qs_decode_empty: "qs_decode [] = Inr [([], JStr (lit ''undefined''))]"
  by code_simp

end
