(* ===== verification/BinaryPacket.thy ===== *)
theory BinaryPacket
  imports Json
begin

text \<open>
  Binary data inside packets: \<open>deconstructPacket\<close>, \<open>reconstructPacket\<close> and \<open>removeBlobs\<close> (module 14
  of the bundle) with \<open>isArray\<close> (15) and \<open>isBuf\<close> (16), and \<open>hasBinary\<close> (29). The functions are
  those on the packet's \<open>data\<close>; the parser that owns the packet calls them.

  \<open>removeBlobs\<close> starts one \<open>FileReader\<close> for each \<open>Blob\<close> and writes each result into its place
  when its \<open>load\<close> event comes. A place is a path from the root; the events are steps.
\<close>

subsection \<open>Tests\<close>

fun truthy :: "jsval \<Rightarrow> bool" where
  "truthy JUndef \<longleftrightarrow> False"
| "truthy JNull \<longleftrightarrow> False"
| "truthy (JBool b) \<longleftrightarrow> b"
| "truthy (JNum n) \<longleftrightarrow> (case n of Decimal m _ \<Rightarrow> m \<noteq> 0 | NumInf _ \<Rightarrow> True | NumNaN \<Rightarrow> False)"
| "truthy (JStr s) \<longleftrightarrow> s \<noteq> []"
| "truthy _ \<longleftrightarrow> True"

fun isArray :: "jsval \<Rightarrow> bool" where
  "isArray (JArr _) \<longleftrightarrow> True"
| "isArray _ \<longleftrightarrow> False"

fun isBuf :: "jsval \<Rightarrow> bool" where
  "isBuf (JBuf _) \<longleftrightarrow> True"
| "isBuf _ \<longleftrightarrow> False"

definition get_field :: "jsstr \<Rightarrow> (jsstr \<times> jsval) list \<Rightarrow> jsval" where
  "get_field k kvs = (case map_of kvs k of Some v \<Rightarrow> v | None \<Rightarrow> JUndef)"

lemma list_member_size: "v \<in> set vs \<Longrightarrow> size v < Suc (size_list size vs)"
  by (induction vs) auto

function hasBinary :: "jsval \<Rightarrow> bool" where
  "hasBinary (JBuf _) \<longleftrightarrow> True"
| "hasBinary (JBlob _) \<longleftrightarrow> True"
| "hasBinary (JArr vs) \<longleftrightarrow> list_ex hasBinary vs"
| "hasBinary (JObj kvs) \<longleftrightarrow> list_ex (\<lambda>(_, v). hasBinary v) kvs"
| "hasBinary JUndef \<longleftrightarrow> False"
| "hasBinary JNull \<longleftrightarrow> False"
| "hasBinary (JBool _) \<longleftrightarrow> False"
| "hasBinary (JNum _) \<longleftrightarrow> False"
| "hasBinary (JStr _) \<longleftrightarrow> False"
  by pat_completeness auto
termination
  by (relation "measure size") (auto dest: size_member list_member_size)

subsection \<open>Deconstruction\<close>

definition placeholder :: "nat \<Rightarrow> jsval" where
  "placeholder n = JObj [(lit ''_placeholder'', JBool True), (lit ''num'', JNum (js_nat n))]"

function deconstruct :: "jsval \<Rightarrow> jsval list \<Rightarrow> jsval \<times> jsval list"
  and deconstruct_elements :: "jsval list \<Rightarrow> jsval list \<Rightarrow> jsval list \<times> jsval list"
  and deconstruct_members :: "(jsstr \<times> jsval) list \<Rightarrow> (jsstr \<times> jsval) list \<Rightarrow> jsval list \<Rightarrow>
        (jsstr \<times> jsval) list \<times> jsval list"
where
  "deconstruct data buffers =
     (if \<not> truthy data then (data, buffers)
      else if isBuf data then (placeholder (length buffers), buffers @ [data])
      else (case data of
          JArr vs \<Rightarrow> (case deconstruct_elements vs buffers of (vs', buffers') \<Rightarrow> (JArr vs', buffers'))
        | JObj kvs \<Rightarrow> (case deconstruct_members kvs [] buffers of (kvs', buffers') \<Rightarrow> (JObj kvs', buffers'))
        | _ \<Rightarrow> (data, buffers)))"
| "deconstruct_elements [] buffers = ([], buffers)"
| "deconstruct_elements (v # vs) buffers =
     (case deconstruct v buffers of (v', b1) \<Rightarrow>
      case deconstruct_elements vs b1 of (vs', b2) \<Rightarrow> (v' # vs', b2))"
| "deconstruct_members [] newData buffers = (newData, buffers)"
| "deconstruct_members ((k, v) # kvs) newData buffers =
     (case deconstruct v buffers of (v', b1) \<Rightarrow> deconstruct_members kvs (set_prop k v' newData) b1)"
  by pat_completeness auto
termination
  by (relation "measure (\<lambda>x. case x of Inl (v, _) \<Rightarrow> 2 * size v
        | Inr (Inl (vs, _)) \<Rightarrow> 2 * size_list size vs + 1
        | Inr (Inr (kvs, _, _)) \<Rightarrow> 2 * size_list (size_prod (\<lambda>_. 0) size) kvs + 1)") auto

declare deconstruct.simps [simp del]

lemma deconstruct_simps [simp]:
  "deconstruct (JBuf x) buffers = (placeholder (length buffers), buffers @ [JBuf x])"
  "deconstruct (JArr vs) buffers =
     (case deconstruct_elements vs buffers of (vs', buffers') \<Rightarrow> (JArr vs', buffers'))"
  "deconstruct (JObj kvs) buffers =
     (case deconstruct_members kvs [] buffers of (kvs', buffers') \<Rightarrow> (JObj kvs', buffers'))"
  "deconstruct JUndef buffers = (JUndef, buffers)"
  "deconstruct JNull buffers = (JNull, buffers)"
  "deconstruct (JBool b) buffers = (JBool b, buffers)"
  "deconstruct (JNum n) buffers = (JNum n, buffers)"
  "deconstruct (JStr s) buffers = (JStr s, buffers)"
  "deconstruct (JBlob y) buffers = (JBlob y, buffers)"
  by (simp_all add: deconstruct.simps)

subsection \<open>Reconstruction\<close>

text \<open>
  \<open>buffers[data.num]\<close>: the property named by \<open>String(num)\<close>, that is an element when the name is
  the decimal of an index, the length for \<open>length\<close>, and \<open>undefined\<close> otherwise.
\<close>

definition array_get :: "jsval list \<Rightarrow> jsval \<Rightarrow> jsval" where
  "array_get xs num =
     (case filter (\<lambda>i. js_String (js_nat i) = js_toString num) [0..<length xs] of
        i # _ \<Rightarrow> xs ! i
      | [] \<Rightarrow> if js_toString num = lit ''length'' then JNum (js_nat (length xs)) else JUndef)"

function reconstruct :: "jsval list \<Rightarrow> jsval \<Rightarrow> jsval" where
  "reconstruct buffers (JObj kvs) =
     (if truthy (get_field (lit ''_placeholder'') kvs) then array_get buffers (get_field (lit ''num'') kvs)
      else JObj (map (\<lambda>(k, v). (k, reconstruct buffers v)) kvs))"
| "reconstruct buffers (JArr vs) = JArr (map (reconstruct buffers) vs)"
| "reconstruct buffers JUndef = JUndef"
| "reconstruct buffers JNull = JNull"
| "reconstruct buffers (JBool b) = JBool b"
| "reconstruct buffers (JNum n) = JNum n"
| "reconstruct buffers (JStr s) = JStr s"
| "reconstruct buffers (JBuf b) = JBuf b"
| "reconstruct buffers (JBlob b) = JBlob b"
  by pat_completeness auto
termination
  by (relation "measure (size \<circ> snd)") (auto dest: size_member list_member_size)

subsection \<open>Removing blobs\<close>

datatype path_step = Index nat | Key jsstr

type_synonym path = "path_step list"

function blob_paths :: "jsval \<Rightarrow> path list" where
  "blob_paths (JBlob b) = [[]]"
| "blob_paths (JArr vs) = concat (map (\<lambda>(i, v). map ((#) (Index i)) (blob_paths v)) (enumerate 0 vs))"
| "blob_paths (JObj kvs) = concat (map (\<lambda>(k, v). map ((#) (Key k)) (blob_paths v)) kvs)"
| "blob_paths JUndef = []"
| "blob_paths JNull = []"
| "blob_paths (JBool b) = []"
| "blob_paths (JNum n) = []"
| "blob_paths (JStr s) = []"
| "blob_paths (JBuf b) = []"
  by pat_completeness auto
termination
  by (relation "measure size")
    (auto dest: size_member simp: in_set_enumerate_eq intro: list_member_size [OF nth_mem])

fun value_at :: "path \<Rightarrow> jsval \<Rightarrow> jsval" where
  "value_at [] v = v"
| "value_at (Index i # p) (JArr vs) = (if i < length vs then value_at p (vs ! i) else JUndef)"
| "value_at (Key k # p) (JObj kvs) = value_at p (get_field k kvs)"
| "value_at _ _ = JUndef"

fun write_at :: "path \<Rightarrow> jsval \<Rightarrow> jsval \<Rightarrow> jsval" where
  "write_at [] w v = w"
| "write_at (Index i # p) w (JArr vs) = (if i < length vs then JArr (vs[i := write_at p w (vs ! i)]) else JArr vs)"
| "write_at (Key k # p) w (JObj kvs) = JObj (set_assoc k (write_at p w (get_field k kvs)) kvs)"
| "write_at _ w v = v"

text \<open>The result of a \<open>FileReader\<close> that reads a value as an \<open>ArrayBuffer\<close>.\<close>

fun file_reader_result :: "jsval \<Rightarrow> jsval" where
  "file_reader_result (JBlob b) = JBuf b"
| "file_reader_result v = v"

record blob_state =
  readers :: "(path \<times> jsval) list"
  bloblessData :: jsval
  delivered :: "jsval list"

definition removeBlobs :: "jsval \<Rightarrow> blob_state" where
  "removeBlobs data =
     \<lparr>readers = map (\<lambda>p. (p, value_at p data)) (blob_paths data), bloblessData = data,
      delivered = (if blob_paths data = [] then [data] else [])\<rparr>"

definition reader_onload :: "path \<Rightarrow> blob_state \<Rightarrow> blob_state" where
  "reader_onload p st =
     (case map_of (readers st) p of
        None \<Rightarrow> st
      | Some obj \<Rightarrow>
          let data = write_at p (file_reader_result obj) (bloblessData st);
              rest = filter (\<lambda>(q, _). q \<noteq> p) (readers st)
          in \<lparr>readers = rest, bloblessData = data,
              delivered = (if rest = [] then delivered st @ [data] else delivered st)\<rparr>)"

subsection \<open>Array indices\<close>

lemma index_string_inject:
  "js_String (js_nat i) = js_String (js_nat j) \<Longrightarrow> j < 2 ^ 53 \<Longrightarrow> i = j"
  by (metis js_Number_String js_nat_inject num_wf_nat)

lemma array_get_nth:
  assumes "i < length xs" "i < 2 ^ 53"
  shows "array_get xs (JNum (js_nat i)) = xs ! i"
proof -
  have "filter (\<lambda>j. js_String (js_nat j) = js_toString (JNum (js_nat i))) [0..<length xs] =
      filter (\<lambda>j. j = i) [0..<length xs]"
    using index_string_inject [OF _ assms(2)] by (intro filter_cong) auto
  also have "\<dots> = [i]"
    using assms(1) by (induction xs rule: rev_induct) (auto simp: less_Suc_eq filter_empty_conv)
  finally show ?thesis by (simp add: array_get_def)
qed

subsection \<open>Deconstruction and reconstruction are inverse\<close>

text \<open>Values an application can send: no own property \<open>_placeholder\<close> that is truthy.\<close>

function restorable :: "jsval \<Rightarrow> bool" where
  "restorable (JArr vs) = list_all restorable vs"
| "restorable (JObj kvs) =
     (distinct (map fst kvs) \<and> lit ''__proto__'' \<notin> set (map fst kvs) \<and>
      \<not> truthy (get_field (lit ''_placeholder'') kvs) \<and> list_all (\<lambda>(_, v). restorable v) kvs)"
| "restorable JUndef = True"
| "restorable JNull = True"
| "restorable (JBool _) = True"
| "restorable (JNum _) = True"
| "restorable (JStr _) = True"
| "restorable (JBuf _) = True"
| "restorable (JBlob _) = True"
  by pat_completeness auto
termination
  by (relation "measure size") (auto dest: size_member list_member_size)

lemma deconstruct_grows:
  "\<exists>new. snd (deconstruct v bufs) = bufs @ new"
  "\<exists>new. snd (deconstruct_elements vs bufs) = bufs @ new"
  "\<exists>new. snd (deconstruct_members kvs nd bufs) = bufs @ new"
proof (induction v bufs and vs bufs and kvs nd bufs rule: deconstruct_deconstruct_elements_deconstruct_members.induct)
  case (1 v bufs)
  then show ?case by (cases v) (auto split: prod.splits)
next
  case (3 v vs bufs)
  obtain v' b1 where "deconstruct v bufs = (v', b1)" by fastforce
  with 3 show ?case by (force split: prod.splits)
next
  case (5 k v kvs nd bufs)
  obtain v' b1 where "deconstruct v bufs = (v', b1)" by fastforce
  with 5 show ?case by (force split: prod.splits)
qed auto

lemma set_prop_new:
  "k \<notin> set (map fst kvs) \<Longrightarrow> k \<noteq> lit ''__proto__'' \<Longrightarrow> set_prop k v kvs = kvs @ [(k, v)]"
  by (induction kvs) (auto simp: set_prop_def)

text \<open>The members of a deconstructed object: new values under the old names.\<close>

lemma deconstruct_members_append:
  "distinct (map fst (nd @ kvs)) \<Longrightarrow> lit ''__proto__'' \<notin> set (map fst kvs) \<Longrightarrow>
   deconstruct_members kvs nd bufs =
     (case deconstruct_elements (map snd kvs) bufs of (vs', b) \<Rightarrow> (nd @ zip (map fst kvs) vs', b))"
proof (induction kvs arbitrary: nd bufs)
  case (Cons kv kvs)
  obtain k v where kv: "kv = (k, v)" by fastforce
  obtain v' b1 where d: "deconstruct v bufs = (v', b1)" by fastforce
  have "set_prop k v' nd = nd @ [(k, v')]"
    using Cons.prems kv by (intro set_prop_new) auto
  then show ?case
    using Cons.IH [of "nd @ [(k, v')]" b1] Cons.prems kv d by (auto split: prod.splits)
qed simp

lemma deconstruct_object:
  assumes "distinct (map fst kvs)" "lit ''__proto__'' \<notin> set (map fst kvs)"
  shows "deconstruct (JObj kvs) bufs =
    (case deconstruct_elements (map snd kvs) bufs of (vs', b) \<Rightarrow> (JObj (zip (map fst kvs) vs'), b))"
  using assms deconstruct_members_append [of "[]" kvs bufs] by (auto split: prod.splits)

lemma length_deconstruct_elements:
  "deconstruct_elements vs bufs = (vs', b) \<Longrightarrow> length vs' = length vs"
  by (induction vs arbitrary: bufs vs' b) (auto split: prod.splits)

text \<open>\<open>_placeholder\<close> stays falsy: a falsy value is its own deconstruction.\<close>

lemma deconstruct_falsy: "\<not> truthy v \<Longrightarrow> deconstruct v bufs = (v, bufs)"
  by (cases v) auto

lemma get_field_deconstruct:
  assumes "\<not> truthy (get_field k kvs)" "deconstruct_elements (map snd kvs) bufs = (vs', b)"
  shows "\<not> truthy (get_field k (zip (map fst kvs) vs'))"
  using assms
proof (induction kvs arbitrary: bufs vs')
  case (Cons kv kvs)
  obtain k1 v1 where kv: "kv = (k1, v1)" by fastforce
  obtain v' b1 where d: "deconstruct v1 bufs = (v', b1)" by fastforce
  obtain ws where ws: "deconstruct_elements (map snd kvs) b1 = (ws, b)" "vs' = v' # ws"
    using Cons.prems kv d by (auto split: prod.splits)
  show ?case
  proof (cases "k = k1")
    case True
    then have "\<not> truthy v1" using Cons.prems kv by (simp add: get_field_def)
    from deconstruct_falsy [OF this] show ?thesis
      using True kv d ws \<open>\<not> truthy v1\<close> by (simp add: get_field_def)
  next
    case False
    then show ?thesis
      using Cons.IH [OF _ ws(1)] Cons.prems kv ws by (simp add: get_field_def)
  qed
qed simp

lemma reconstruct_placeholder:
  "n < length bufs \<Longrightarrow> n < 2 ^ 53 \<Longrightarrow> reconstruct bufs (placeholder n) = bufs ! n"
  by (simp add: placeholder_def get_field_def array_get_nth del: js_toString.simps)

lemma reconstruct_elements:
  assumes "\<And>v bufs v' b rest. v \<in> set vs \<Longrightarrow> restorable v \<Longrightarrow> deconstruct v bufs = (v', b) \<Longrightarrow>
      length b \<le> 2 ^ 53 \<Longrightarrow> reconstruct (b @ rest) v' = v"
    and "list_all restorable vs" "deconstruct_elements vs bufs = (vs', b)" "length b \<le> 2 ^ 53"
  shows "map (reconstruct (b @ rest)) vs' = vs"
  using assms
proof (induction vs arbitrary: bufs vs')
  case (Cons v vs)
  obtain v1 b1 where d: "deconstruct v bufs = (v1, b1)" by fastforce
  obtain ws where ws: "deconstruct_elements vs b1 = (ws, b)" "vs' = v1 # ws"
    using Cons.prems(3) d by (auto split: prod.splits)
  obtain new where b: "b = b1 @ new"
    using deconstruct_grows(2) [of vs b1] ws(1) by auto
  have "reconstruct (b1 @ new @ rest) v1 = v"
    using Cons.prems b by (intro Cons.prems(1) [OF _ _ d]) auto
  moreover have "map (reconstruct (b @ rest)) ws = vs"
    using Cons.prems ws(1) by (intro Cons.IH) auto
  ultimately show ?case using ws(2) b by simp
qed simp

lemma reconstruct_deconstruct:
  "restorable v \<Longrightarrow> deconstruct v bufs = (v', b) \<Longrightarrow> length b \<le> 2 ^ 53 \<Longrightarrow> reconstruct (b @ rest) v' = v"
proof (induction v arbitrary: bufs v' b rest)
  case (JArr vs)
  obtain vs' where d: "deconstruct_elements vs bufs = (vs', b)" "v' = JArr vs'"
    using JArr.prems by (auto split: prod.splits)
  have "map (reconstruct (b @ rest)) vs' = vs"
    using JArr.IH JArr.prems(1,3) by (intro reconstruct_elements [OF _ _ d(1)]) auto
  then show ?case using d(2) by simp
next
  case (JObj kvs)
  let ?vs = "map snd kvs"
  have ok: "distinct (map fst kvs)" "lit ''__proto__'' \<notin> set (map fst kvs)"
    "\<not> truthy (get_field (lit ''_placeholder'') kvs)" "list_all restorable ?vs"
    using JObj.prems(1) by (auto simp: list_all_iff)
  obtain vs' where d: "deconstruct_elements ?vs bufs = (vs', b)" "v' = JObj (zip (map fst kvs) vs')"
    using JObj.prems(2) unfolding deconstruct_object [OF ok(1,2)] by (auto split: prod.splits)
  have "reconstruct (b1 @ r1) w = v" if "v \<in> set ?vs" "restorable v" "deconstruct v bs = (w, b1)"
    "length b1 \<le> 2 ^ 53" for v bs w b1 r1
    using JObj.IH that by (metis (no_types, lifting) imageE list.set_map snds.intros)
  then have vals: "map (reconstruct (b @ rest)) vs' = ?vs"
    using ok(4) JObj.prems(3) by (intro reconstruct_elements [OF _ _ d(1)]) auto
  have "length vs' = length kvs" using length_deconstruct_elements [OF d(1)] by simp
  then have "map (\<lambda>(k, v). (k, reconstruct (b @ rest) v)) (zip (map fst kvs) vs') =
      zip (map fst kvs) (map (reconstruct (b @ rest)) vs')"
    by (simp add: zip_map2)
  then show ?case
    using get_field_deconstruct [OF ok(3) d(1)] d(2) vals by (simp add: zip_map_fst_snd)
next
  case (JBuf x)
  then show ?case
    by (auto simp: reconstruct_placeholder nth_append)
qed auto

text \<open>Binary data is found exactly when there is something to take out.\<close>

function blob_free :: "jsval \<Rightarrow> bool" where
  "blob_free (JBlob _) = False"
| "blob_free (JArr vs) = list_all blob_free vs"
| "blob_free (JObj kvs) = list_all (\<lambda>(_, v). blob_free v) kvs"
| "blob_free JUndef = True"
| "blob_free JNull = True"
| "blob_free (JBool _) = True"
| "blob_free (JNum _) = True"
| "blob_free (JStr _) = True"
| "blob_free (JBuf _) = True"
  by pat_completeness auto
termination
  by (relation "measure size") (auto dest: size_member list_member_size)

lemma deconstruct_hasBinary:
  "blob_free v \<Longrightarrow> snd (deconstruct v bufs) = bufs \<longleftrightarrow> \<not> hasBinary v"
  "list_all blob_free vs \<Longrightarrow> snd (deconstruct_elements vs bufs) = bufs \<longleftrightarrow> \<not> list_ex hasBinary vs"
  "list_all (\<lambda>(_, v). blob_free v) kvs \<Longrightarrow>
   snd (deconstruct_members kvs nd bufs) = bufs \<longleftrightarrow> \<not> list_ex (\<lambda>(_, v). hasBinary v) kvs"
proof (induction v bufs and vs bufs and kvs nd bufs rule: deconstruct_deconstruct_elements_deconstruct_members.induct)
  case (1 v bufs)
  then show ?case by (cases v) (auto split: prod.splits)
next
  case (3 v vs bufs)
  obtain v' b1 where d: "deconstruct v bufs = (v', b1)" by fastforce
  obtain n1 n2 where "b1 = bufs @ n1" "snd (deconstruct_elements vs b1) = b1 @ n2"
    using deconstruct_grows(1) [of v bufs] deconstruct_grows(2) [of vs b1] d by auto
  with 3 d show ?case by (auto split: prod.splits)
next
  case (5 k v kvs nd bufs)
  obtain v' b1 where d: "deconstruct v bufs = (v', b1)" by fastforce
  obtain n1 n2 where "b1 = bufs @ n1" "snd (deconstruct_members kvs (set_prop k v' nd) b1) = b1 @ n2"
    using deconstruct_grows(1) [of v bufs] deconstruct_grows(3) [of kvs "set_prop k v' nd" b1] d by auto
  with 5 d show ?case by (auto split: prod.splits)
qed auto

subsection \<open>Blobs\<close>

text \<open>The data with the blobs at a set of places replaced by their contents.\<close>

function replace_blobs :: "(path \<Rightarrow> bool) \<Rightarrow> jsval \<Rightarrow> jsval" where
  "replace_blobs P (JBlob b) = (if P [] then JBuf b else JBlob b)"
| "replace_blobs P (JArr vs) =
     JArr (map (\<lambda>(i, v). replace_blobs (\<lambda>p. P (Index i # p)) v) (enumerate 0 vs))"
| "replace_blobs P (JObj kvs) =
     JObj (map (\<lambda>(k, v). (k, replace_blobs (\<lambda>p. P (Key k # p)) v)) kvs)"
| "replace_blobs P JUndef = JUndef"
| "replace_blobs P JNull = JNull"
| "replace_blobs P (JBool b) = JBool b"
| "replace_blobs P (JNum n) = JNum n"
| "replace_blobs P (JStr s) = JStr s"
| "replace_blobs P (JBuf b) = JBuf b"
  by pat_completeness auto
termination
  by (relation "measure (size \<circ> snd)")
    (auto dest: size_member simp: in_set_enumerate_eq intro: list_member_size [OF nth_mem])

text \<open>Objects with distinct property names, down to the leaves.\<close>

function distinct_keys :: "jsval \<Rightarrow> bool" where
  "distinct_keys (JArr vs) = list_all distinct_keys vs"
| "distinct_keys (JObj kvs) = (distinct (map fst kvs) \<and> list_all (\<lambda>(_, v). distinct_keys v) kvs)"
| "distinct_keys JUndef = True"
| "distinct_keys JNull = True"
| "distinct_keys (JBool _) = True"
| "distinct_keys (JNum _) = True"
| "distinct_keys (JStr _) = True"
| "distinct_keys (JBuf _) = True"
| "distinct_keys (JBlob _) = True"
  by pat_completeness auto
termination
  by (relation "measure size") (auto dest: size_member list_member_size)

lemma replace_blobs_none: "replace_blobs (\<lambda>_. False) v = v"
proof (induction v)
  case (JArr vs)
  then show ?case by (auto intro!: nth_equalityI simp: nth_enumerate_eq)
next
  case (JObj kvs)
  have "map (\<lambda>(k, v). (k, replace_blobs (\<lambda>_. False) v)) kvs = kvs"
    using JObj by (intro map_idI) (force intro: snds.intros)
  then show ?case by simp
qed auto

lemma in_snds: "v \<in> Basic_BNFs.snds (k, v)"
  by (auto intro: snds.intros)

lemma replace_blobs_cong:
  "(\<And>p. p \<in> set (blob_paths v) \<Longrightarrow> P p = Q p) \<Longrightarrow> replace_blobs P v = replace_blobs Q v"
proof (induction v arbitrary: P Q)
  case (JArr vs)
  have "replace_blobs (\<lambda>p. P (Index i # p)) v = replace_blobs (\<lambda>p. Q (Index i # p)) v"
    if "(i, v) \<in> set (enumerate 0 vs)" for i v
  proof (rule JArr.IH)
    show "v \<in> set vs" using that by (auto simp: in_set_enumerate_eq)
    show "P (Index i # p) = Q (Index i # p)" if "p \<in> set (blob_paths v)" for p
      using JArr.prems \<open>(i, v) \<in> set (enumerate 0 vs)\<close> that by force
  qed
  then show ?case by auto
next
  case (JObj kvs)
  have "replace_blobs (\<lambda>p. P (Key k # p)) v = replace_blobs (\<lambda>p. Q (Key k # p)) v"
    if "(k, v) \<in> set kvs" for k v
  proof (rule JObj.IH [OF that in_snds])
    show "P (Key k # p) = Q (Key k # p)" if "p \<in> set (blob_paths v)" for p
      using JObj.prems \<open>(k, v) \<in> set kvs\<close> that by force
  qed
  then show ?case by auto
qed auto

lemma map_of_replace: "map_of (map (\<lambda>(k, v). (k, f k v)) kvs) k = map_option (f k) (map_of kvs k)"
  by (induction kvs) auto

lemma set_assoc_update:
  "distinct (map fst kvs) \<Longrightarrow> map_of kvs k = Some v \<Longrightarrow>
   set_assoc k w kvs = map (\<lambda>(k', v'). (k', if k' = k then w else v')) kvs"
proof (induction kvs)
  case (Cons kv kvs)
  have "k \<notin> fst ` set kvs \<Longrightarrow> map (\<lambda>(k', v'). (k', if k' = k then w else v')) kvs = kvs"
    by (intro map_idI) force
  with Cons show ?case by (cases kv) auto
qed simp

lemma write_at_replace:
  "distinct_keys v \<Longrightarrow> p \<in> set (blob_paths v) \<Longrightarrow>
   write_at p (file_reader_result (value_at p v)) (replace_blobs P v) = replace_blobs (\<lambda>q. P q \<or> q = p) v"
proof (induction v arbitrary: p P)
  case (JArr vs)
  then obtain i q where p: "p = Index i # q" "i < length vs" "q \<in> set (blob_paths (vs ! i))"
    by (auto simp: in_set_enumerate_eq)
  have "write_at q (file_reader_result (value_at q (vs ! i))) (replace_blobs (\<lambda>p. P (Index i # p)) (vs ! i)) =
      replace_blobs (\<lambda>r. P (Index i # r) \<or> r = q) (vs ! i)"
    using JArr.IH [OF nth_mem [OF p(2)]] JArr.prems(1) p by (auto simp: list_all_length)
  moreover have "replace_blobs (\<lambda>r. P (Index j # r) \<or> Index j # r = p) (vs ! j) =
      (if j = i then replace_blobs (\<lambda>r. P (Index i # r) \<or> r = q) (vs ! i)
       else replace_blobs (\<lambda>r. P (Index j # r)) (vs ! j))" for j
    by (simp add: p(1))
  ultimately show ?case
    using p by (auto intro!: nth_equalityI simp: nth_enumerate_eq nth_list_update)
next
  case (JObj kvs)
  then obtain k u q where p: "p = Key k # q" "(k, u) \<in> set kvs" "q \<in> set (blob_paths u)"
    by auto
  have m: "map_of kvs k = Some u" using JObj.prems(1) p(2) by simp
  have d: "distinct (map fst kvs)" using JObj.prems(1) by simp
  let ?R = "\<lambda>k v. replace_blobs (\<lambda>r. P (Key k # r)) v"
  let ?kvs = "map (\<lambda>(k, v). (k, ?R k v)) kvs"
  have m': "map_of ?kvs k = Some (?R k u)" by (simp add: map_of_replace m)
  have d': "distinct (map fst ?kvs)" using d by (simp add: comp_def case_prod_unfold)
  have w: "write_at q (file_reader_result (value_at q u)) (?R k u) =
      replace_blobs (\<lambda>r. P (Key k # r) \<or> r = q) u"
    using JObj.IH [OF p(2) in_snds] JObj.prems(1) p(2,3) by (auto simp: list_all_iff)
  have "set_assoc k (replace_blobs (\<lambda>r. P (Key k # r) \<or> r = q) u) ?kvs =
      map (\<lambda>(k', v). (k', replace_blobs (\<lambda>r. P (Key k' # r) \<or> Key k' # r = p) v)) kvs"
    unfolding set_assoc_update [OF d' m'] using eq_key_imp_eq_value [OF d p(2)]
    by (auto simp: p(1) comp_def)
  then show ?case
    by (simp add: p(1) get_field_def m m' w)
qed auto

lemma distinct_array_paths:
  "\<forall>v \<in> set vs. distinct (f v) \<Longrightarrow>
   distinct (concat (map (\<lambda>(i, v). map ((#) (Index i)) (f v)) (enumerate n vs)))"
proof (induction vs arbitrary: n)
  case (Cons v vs)
  have "p \<notin> set (concat (map (\<lambda>(i, v). map ((#) (Index i)) (f v)) (enumerate (Suc n) vs)))"
    if "p \<in> set (map ((#) (Index n)) (f v))" for p
    using that by (auto simp: in_set_enumerate_eq)
  then have "set (map ((#) (Index n)) (f v)) \<inter>
      set (concat (map (\<lambda>(i, v). map ((#) (Index i)) (f v)) (enumerate (Suc n) vs))) = {}"
    by blast
  moreover have "distinct (map ((#) (Index n)) (f v))"
    using Cons.prems by (simp add: distinct_map)
  moreover have "distinct (concat (map (\<lambda>(i, v). map ((#) (Index i)) (f v)) (enumerate (Suc n) vs)))"
    using Cons.prems by (intro Cons.IH) simp
  ultimately show ?case
    unfolding enumerate_simps list.map prod.case concat.simps distinct_append by blast
qed simp

lemma distinct_object_paths:
  "distinct (map fst kvs) \<Longrightarrow> \<forall>(k, v) \<in> set kvs. distinct (f v) \<Longrightarrow>
   distinct (concat (map (\<lambda>(k, v). map ((#) (Key k)) (f v)) kvs))"
proof (induction kvs)
  case (Cons kv kvs)
  obtain k v where kv: "kv = (k, v)" by fastforce
  have "p \<notin> set (concat (map (\<lambda>(k, v). map ((#) (Key k)) (f v)) kvs))"
    if "p \<in> set (map ((#) (Key k)) (f v))" for p
    using that Cons.prems(1) kv by force
  then have "set (map ((#) (Key k)) (f v)) \<inter> set (concat (map (\<lambda>(k, v). map ((#) (Key k)) (f v)) kvs)) = {}"
    by blast
  moreover have "distinct (map ((#) (Key k)) (f v))"
    using Cons.prems(2) kv by (simp add: distinct_map)
  moreover have "distinct (concat (map (\<lambda>(k, v). map ((#) (Key k)) (f v)) kvs))"
    using Cons.prems by (intro Cons.IH) auto
  ultimately show ?case
    unfolding kv list.map prod.case concat.simps distinct_append by blast
qed simp

lemma distinct_blob_paths: "distinct_keys v \<Longrightarrow> distinct (blob_paths v)"
proof (induction v)
  case (JArr vs)
  then have "\<forall>v \<in> set vs. distinct (blob_paths v)" by (auto simp: list_all_iff)
  from distinct_array_paths [OF this, of 0] show ?case by simp
next
  case (JObj kvs)
  have "distinct (blob_paths v)" if "(k, v) \<in> set kvs" for k v
    using JObj.IH [OF that in_snds] JObj.prems that by (auto simp: list_all_iff)
  then have "\<forall>(k, v) \<in> set kvs. distinct (blob_paths v)" by auto
  from distinct_object_paths [OF _ this] JObj.prems show ?case by simp
qed auto

definition blob_progress :: "jsval \<Rightarrow> path set \<Rightarrow> blob_state \<Rightarrow> bool" where
  "blob_progress v done st \<longleftrightarrow>
     readers st = filter (\<lambda>(q, _). q \<notin> done) (map (\<lambda>p. (p, value_at p v)) (blob_paths v)) \<and>
     bloblessData st = replace_blobs (\<lambda>p. p \<in> done) v \<and>
     delivered st = (if set (blob_paths v) \<subseteq> done then [replace_blobs (\<lambda>_. True) v] else [])"

lemma blob_progress_start: "blob_progress v {} (removeBlobs v)"
  using replace_blobs_cong [of v "\<lambda>_. True" "\<lambda>_. False"]
  by (auto simp: blob_progress_def removeBlobs_def replace_blobs_none intro: filter_True [symmetric])

lemma map_of_paths: "map_of (filter (\<lambda>(q, _). q \<notin> D) (map (\<lambda>p. (p, f p)) ps)) p =
    (if p \<in> set ps \<and> p \<notin> D then Some (f p) else None)"
  by (induction ps) auto

lemma blob_progress_step:
  assumes "blob_progress v D st" "distinct_keys v" "p \<in> set (blob_paths v)" "p \<notin> D"
  shows "blob_progress v (insert p D) (reader_onload p st)"
proof -
  have m: "map_of (readers st) p = Some (value_at p v)"
    using assms(1,3,4) by (simp add: blob_progress_def map_of_paths)
  have data: "write_at p (file_reader_result (value_at p v)) (bloblessData st) =
      replace_blobs (\<lambda>q. q \<in> insert p D) v"
    using write_at_replace [OF assms(2,3), of "\<lambda>q. q \<in> D"] assms(1)
    by (simp add: blob_progress_def insert_iff disj_commute cong: disj_cong)
  have rest: "filter (\<lambda>(q, _). q \<noteq> p) (readers st) =
      filter (\<lambda>(q, _). q \<notin> insert p D) (map (\<lambda>p. (p, value_at p v)) (blob_paths v))"
    using assms(1) by (auto simp: blob_progress_def intro!: filter_cong)
  have "\<not> set (blob_paths v) \<subseteq> D" using assms(3,4) by blast
  then have none: "delivered st = []" using assms(1) by (simp add: blob_progress_def)
  have fin: "filter (\<lambda>(q, _). q \<notin> insert p D) (map (\<lambda>p. (p, value_at p v)) (blob_paths v)) = [] \<longleftrightarrow>
      set (blob_paths v) \<subseteq> insert p D"
    by (auto simp: filter_empty_conv)
  have "set (blob_paths v) \<subseteq> insert p D \<Longrightarrow>
      replace_blobs (\<lambda>q. q \<in> insert p D) v = replace_blobs (\<lambda>_. True) v"
    by (intro replace_blobs_cong) auto
  then show ?thesis
    unfolding blob_progress_def reader_onload_def m option.case Let_def data rest
    using fin none by simp
qed

lemma blob_progress_run:
  "blob_progress v D st \<Longrightarrow> distinct_keys v \<Longrightarrow> distinct ps \<Longrightarrow> set ps \<subseteq> set (blob_paths v) \<Longrightarrow>
   set ps \<inter> D = {} \<Longrightarrow> blob_progress v (D \<union> set ps) (fold reader_onload ps st)"
proof (induction ps arbitrary: D st)
  case (Cons p ps)
  then have "blob_progress v (insert p D) (reader_onload p st)"
    by (intro blob_progress_step) auto
  then show ?case using Cons.IH [of "insert p D"] Cons.prems by auto
qed simp

subsection \<open>What can be sent\<close>

text \<open>
  Application data that survives a packet: JSON values (with binary data as leaves) without
  a property \<open>_placeholder\<close> that is truthy.
\<close>

function packet_ok :: "jsval \<Rightarrow> bool" where
  "packet_ok (JNum n) = json_plain (JNum n)"
| "packet_ok (JArr vs) = list_all packet_ok vs"
| "packet_ok (JObj kvs) =
     (distinct (map fst kvs) \<and> lit ''__proto__'' \<notin> set (map fst kvs) \<and>
      lit ''constructor'' \<notin> set (map fst kvs) \<and>
      \<not> truthy (get_field (lit ''_placeholder'') kvs) \<and> list_all (\<lambda>(_, v). packet_ok v) kvs)"
| "packet_ok JUndef = False"
| "packet_ok JNull = True"
| "packet_ok (JBool b) = True"
| "packet_ok (JStr s) = True"
| "packet_ok (JBuf b) = True"
| "packet_ok (JBlob b) = False"
  by pat_completeness auto
termination
  by (relation "measure size") (auto dest: size_member list_member_size)

lemma packet_ok_restorable: "packet_ok v \<Longrightarrow> restorable v \<and> blob_free v"
  by (induction v rule: packet_ok.induct) (auto simp: list_all_iff)

lemma js_nat_plain: "n < 2 ^ 53 \<Longrightarrow> json_plain (JNum (js_nat n))"
proof -
  assume "n < 2 ^ 53"
  then have "\<not> overflows (int n) 0" by (simp add: overflows_def float_limit_int_def)
  then obtain m e where "js_nat n = Decimal m e"
    by (cases "strip_zeros (int n) 0") (auto simp: js_nat_def decimal_def underflows_def)
  then show ?thesis using num_wf_nat [of n] by simp
qed

lemma placeholder_plain: "n < 2 ^ 53 \<Longrightarrow> json_plain (placeholder n)"
  using js_nat_plain by (simp add: placeholder_def del: json_plain.simps(1))

lemma plain_elements:
  assumes "\<And>v bufs v' b. v \<in> set vs \<Longrightarrow> packet_ok v \<Longrightarrow> deconstruct v bufs = (v', b) \<Longrightarrow>
      length b \<le> 2 ^ 53 \<Longrightarrow> json_plain v'"
    and "list_all packet_ok vs" "deconstruct_elements vs bufs = (vs', b)" "length b \<le> 2 ^ 53"
  shows "list_all json_plain vs'"
  using assms
proof (induction vs arbitrary: bufs vs')
  case (Cons v vs)
  obtain v1 b1 where d: "deconstruct v bufs = (v1, b1)" by fastforce
  obtain ws where ws: "deconstruct_elements vs b1 = (ws, b)" "vs' = v1 # ws"
    using Cons.prems(3) d by (auto split: prod.splits)
  have "length b1 \<le> 2 ^ 53"
    using deconstruct_grows(2) [of vs b1] ws(1) Cons.prems(4) by auto
  then have "json_plain v1" using Cons.prems by (intro Cons.prems(1) [OF _ _ d]) auto
  moreover have "list_all json_plain ws"
    using Cons.prems ws(1) by (intro Cons.IH) auto
  ultimately show ?case using ws(2) by simp
qed simp

lemma deconstruct_plain:
  "packet_ok v \<Longrightarrow> deconstruct v bufs = (v', b) \<Longrightarrow> length b \<le> 2 ^ 53 \<Longrightarrow> json_plain v'"
proof (induction v arbitrary: bufs v' b)
  case (JArr vs)
  obtain vs' where d: "deconstruct_elements vs bufs = (vs', b)" "v' = JArr vs'"
    using JArr.prems by (auto split: prod.splits)
  have "list_all json_plain vs'"
    using JArr.IH JArr.prems(1,3) by (intro plain_elements [OF _ _ d(1)]) auto
  then show ?case using d(2) by simp
next
  case (JObj kvs)
  let ?vs = "map snd kvs"
  have ok: "distinct (map fst kvs)" "lit ''__proto__'' \<notin> set (map fst kvs)"
    "lit ''constructor'' \<notin> set (map fst kvs)" "list_all packet_ok ?vs"
    using JObj.prems(1) by (auto simp: list_all_iff)
  obtain vs' where d: "deconstruct_elements ?vs bufs = (vs', b)" "v' = JObj (zip (map fst kvs) vs')"
    using JObj.prems(2) unfolding deconstruct_object [OF ok(1,2)] by (auto split: prod.splits)
  have "json_plain w" if "v \<in> set ?vs" "packet_ok v" "deconstruct v bs = (w, b1)"
    "length b1 \<le> 2 ^ 53" for v bs w b1
    using JObj.IH that by (metis (no_types, lifting) imageE list.set_map snds.intros)
  then have "list_all json_plain vs'"
    using ok(4) JObj.prems(3) by (intro plain_elements [OF _ _ d(1)]) auto
  moreover have len: "length vs' = length (map fst kvs)" using length_deconstruct_elements [OF d(1)] by simp
  ultimately show ?case
    using ok d(2) by (auto simp: list_all_iff dest: set_zip_rightD)
next
  case (JBuf x)
  then show ?case by (auto intro: placeholder_plain)
qed auto

subsection \<open>Properties\<close>



text \<open>
  \<open>hasBinary\<close>, by which a socket chooses the packet type, says yes exactly when the
  deconstruction takes at least one buffer out of the data.
\<close>

theorem hasBinary_deconstruct:
  assumes "blob_free v"
  shows "hasBinary v \<longleftrightarrow> snd (deconstruct v []) \<noteq> []"
  using deconstruct_hasBinary(1) [OF assms, of "[]"] by simp

theorem hasBinary_deconstruct_witness:
  "hasBinary (JArr [JStr (lit ''x''), JObj [(lit ''k'', JBuf [7])]])"
  by (subst hasBinary_deconstruct) (simp_all add: set_prop_def)

text \<open>
  C31. In whatever order the file readers finish, \<open>removeBlobs\<close> calls its callback exactly
  once, after the last of them, with the data in which every blob is replaced by its contents.
\<close>

theorem removeBlobs_any_order:
  assumes "distinct_keys v" "distinct ps" "set ps = set (blob_paths v)"
  shows "delivered (fold reader_onload ps (removeBlobs v)) = [replace_blobs (\<lambda>_. True) v]"
  using blob_progress_run [OF blob_progress_start assms(1,2)] assms(3)
  by (auto simp: blob_progress_def)

theorem removeBlobs_any_order_witness:
  "delivered (fold reader_onload [[Index 1, Key (lit ''k'')], [Index 0]]
      (removeBlobs (JArr [JBlob [1], JObj [(lit ''k'', JBlob [2])]]))) =
   [JArr [JBuf [1], JObj [(lit ''k'', JBuf [2])]]]"
  by (subst removeBlobs_any_order) (auto simp: enumerate_eq_zip)

text \<open>An application object that looks like a placeholder is taken for one.\<close>

lemma user_placeholder_lost:
  "reconstruct [] (JObj [(lit ''_placeholder'', JBool True), (lit ''text'', JStr (lit ''hi''))]) = JUndef"
  by (simp add: get_field_def array_get_def)

end
