(* ===== verification/IoParser.thy ===== *)
theory IoParser
  imports BinaryPacket
begin

text \<open>
  The socket.io packet codec (module 7 of the bundle): \<open>Encoder\<close> with \<open>encodeAsString\<close> and
  \<open>encodeAsBinary\<close>, \<open>Decoder\<close> with \<open>add\<close>, \<open>decodeString\<close>, \<open>tryParse\<close> and \<open>destroy\<close>, and
  \<open>BinaryReconstructor\<close>. The JSON codec is an argument: the bundle's module 11 hands out the
  host's \<open>JSON\<close> when there is a usable one and its own functions otherwise.

  A read position \<open>i\<close> in the text is the suffix that begins at \<open>i + 1\<close>. An exception leaves
  the decoder in the state it has at the throw, which is part of the result of \<open>add\<close>.
\<close>

subsection \<open>Packets\<close>

definition CONNECT :: nat where "CONNECT = 0"
definition DISCONNECT :: nat where "DISCONNECT = 1"
definition EVENT :: nat where "EVENT = 2"
definition ACK :: nat where "ACK = 3"
definition ERROR :: nat where "ERROR = 4"
definition BINARY_EVENT :: nat where "BINARY_EVENT = 5"
definition BINARY_ACK :: nat where "BINARY_ACK = 6"

lemmas packet_type_defs = CONNECT_def DISCONNECT_def EVENT_def ACK_def ERROR_def BINARY_EVENT_def BINARY_ACK_def

definition types :: "string list" where
  "types = [''CONNECT'', ''DISCONNECT'', ''EVENT'', ''ACK'', ''ERROR'', ''BINARY_EVENT'', ''BINARY_ACK'']"

record io_packet =
  ptype :: nat
  nsp :: "jsstr option"
  pid :: "jsnum option"
  pdata :: jsval
  attachments :: "jsnum option"

definition is_binary_type :: "nat \<Rightarrow> bool" where
  "is_binary_type t \<longleftrightarrow> t = BINARY_EVENT \<or> t = BINARY_ACK"

subsection \<open>Encoder\<close>

definition attachments_string :: "io_packet \<Rightarrow> jsstr" where
  "attachments_string obj = (case attachments obj of None \<Rightarrow> lit ''undefined'' | Some n \<Rightarrow> js_String n)"

definition has_nsp :: "io_packet \<Rightarrow> bool" where
  "has_nsp obj = (case nsp obj of None \<Rightarrow> False | Some s \<Rightarrow> s \<noteq> [] \<and> s \<noteq> lit ''/'')"

definition encodeAsString :: "(jsval \<Rightarrow> jsstr option) \<Rightarrow> io_packet \<Rightarrow> jsstr" where
  "encodeAsString stringify obj =
     (let str = js_String (js_nat (ptype obj));
          str = (if is_binary_type (ptype obj) then str @ attachments_string obj @ lit ''-'' else str);
          pending = has_nsp obj;
          str = (if has_nsp obj then str @ the (nsp obj) else str);
          (str, pending) = (case pid obj of
              None \<Rightarrow> (str, pending)
            | Some i \<Rightarrow> ((if pending then str @ lit '','' else str) @ js_String i, False))
      in if pdata obj \<noteq> JUndef \<and> pdata obj \<noteq> JNull then
           (if pending then str @ lit '','' else str)
           @ (case stringify (pdata obj) of Some s \<Rightarrow> s | None \<Rightarrow> lit ''undefined'')
         else str)"

definition writeEncoding :: "(jsval \<Rightarrow> jsstr option) \<Rightarrow> io_packet \<Rightarrow> jsval list" where
  "writeEncoding stringify obj =
     (case deconstruct (pdata obj) [] of (data, buffers) \<Rightarrow>
        JStr (encodeAsString stringify (obj\<lparr>pdata := data, attachments := Some (js_nat (length buffers))\<rparr>))
        # buffers)"

text \<open>
  \<open>encode\<close> gives the calls of its callback: at once, or for a binary packet with blobs after
  the given file readers have finished.
\<close>

definition encodeAsBinary :: "(jsval \<Rightarrow> jsstr option) \<Rightarrow> path list \<Rightarrow> io_packet \<Rightarrow> jsval list list" where
  "encodeAsBinary stringify loads obj =
     map (\<lambda>data. writeEncoding stringify (obj\<lparr>pdata := data\<rparr>))
       (delivered (fold reader_onload loads (removeBlobs (pdata obj))))"

definition Encoder_encode :: "(jsval \<Rightarrow> jsstr option) \<Rightarrow> path list \<Rightarrow> io_packet \<Rightarrow> jsval list list" where
  "Encoder_encode stringify loads obj =
     (if is_binary_type (ptype obj) then encodeAsBinary stringify loads obj
      else [[JStr (encodeAsString stringify obj)]])"

subsection \<open>Decoding a text\<close>

definition parser_error :: io_packet where
  "parser_error = \<lparr>ptype = ERROR, nsp = None, pid = None, pdata = JStr (lit ''parser error''), attachments = None\<rparr>"

text \<open>\<open>Number(c) == c\<close> for a character.\<close>

definition numeric :: "jschar \<Rightarrow> bool" where
  "numeric c \<longleftrightarrow> js_Number [c] \<noteq> NumNaN"

definition lookup_type :: "jsstr \<Rightarrow> nat option" where
  "lookup_type str =
     (let n = js_Number (take 1 str) in
      if n \<in> set (map js_nat [0..<length types])
      then Some (hd (filter (\<lambda>t. js_nat t = n) [0..<length types])) else None)"

definition lookup_attachments :: "jsstr \<Rightarrow> (jsnum \<times> jsstr) result" where
  "lookup_attachments s =
     (let buf = takeWhile (\<lambda>c. c \<noteq> of_char (CHR ''-'')) s; r = dropWhile (\<lambda>c. c \<noteq> of_char (CHR ''-'')) s in
      if js_Number buf = NumNaN \<or> r = [] then Inl (Error ''Illegal attachments'')
      else Inr (js_Number buf, tl r))"

definition lookup_nsp :: "jsstr \<Rightarrow> jsstr \<times> jsstr" where
  "lookup_nsp s =
     (if take 1 s = lit ''/''
      then (takeWhile (\<lambda>c. c \<noteq> of_char (CHR '','')) s, drop 1 (dropWhile (\<lambda>c. c \<noteq> of_char (CHR '','')) s))
      else (lit ''/'', s))"

definition lookup_id :: "jsstr \<Rightarrow> jsnum option \<times> jsstr" where
  "lookup_id s =
     (if s \<noteq> [] \<and> numeric (hd s)
      then (Some (js_Number (takeWhile numeric s)), dropWhile numeric s)
      else (None, s))"

definition tryParse :: "(jsstr \<Rightarrow> jsval result) \<Rightarrow> io_packet \<Rightarrow> jsstr \<Rightarrow> io_packet" where
  "tryParse parse p str = (case parse str of Inr v \<Rightarrow> p\<lparr>pdata := v\<rparr> | Inl _ \<Rightarrow> parser_error)"

definition decodeString :: "(jsstr \<Rightarrow> jsval result) \<Rightarrow> jsstr \<Rightarrow> io_packet result" where
  "decodeString parse str =
     (case lookup_type str of
        None \<Rightarrow> Inr parser_error
      | Some t \<Rightarrow>
          bindE (if is_binary_type t
                 then bindE (lookup_attachments (drop 1 str)) (\<lambda>(n, s). Inr (Some n, s))
                 else Inr (None, drop 1 str)) (\<lambda>(att, s1).
          case lookup_nsp s1 of (n, s2) \<Rightarrow>
          case lookup_id s2 of (i, s3) \<Rightarrow>
            let p = \<lparr>ptype = t, nsp = Some n, pid = i, pdata = JUndef, attachments = att\<rparr> in
            Inr (if s3 \<noteq> [] then tryParse parse p s3 else p)))"

subsection \<open>Decoder\<close>

record reconstructor =
  reconPack :: "io_packet option"
  buffers :: "jsval list"

type_synonym decoder = "reconstructor option"

definition Decoder :: decoder where
  "Decoder = None"

definition BinaryReconstructor :: "io_packet \<Rightarrow> reconstructor" where
  "BinaryReconstructor packet = \<lparr>reconPack = Some packet, buffers = []\<rparr>"

definition finishedReconstruction :: "reconstructor \<Rightarrow> reconstructor" where
  "finishedReconstruction r = r\<lparr>reconPack := None, buffers := []\<rparr>"

definition reconstructPacket :: "io_packet \<Rightarrow> jsval list \<Rightarrow> io_packet" where
  "reconstructPacket packet bufs = packet\<lparr>pdata := reconstruct bufs (pdata packet), attachments := None\<rparr>"

text \<open>The second component is \<open>null\<close> or the reconstructed packet, or the exception.\<close>

definition takeBinaryData :: "jsval \<Rightarrow> reconstructor \<Rightarrow> reconstructor \<times> io_packet option result" where
  "takeBinaryData binData r =
     (let r' = r\<lparr>buffers := buffers r @ [binData]\<rparr> in
      case reconPack r' of
        None \<Rightarrow> (r', Inl TypeError)
      | Some packet \<Rightarrow>
          if attachments packet = Some (js_nat (length (buffers r')))
          then (finishedReconstruction r', Inr (Some (reconstructPacket packet (buffers r'))))
          else (r', Inr None))"

definition is_base64 :: "jsval \<Rightarrow> bool" where
  "is_base64 v = (case v of JObj kvs \<Rightarrow> truthy (get_field (lit ''base64'') kvs) | _ \<Rightarrow> False)"

text \<open>\<open>add\<close>: the new state, the packets emitted as \<open>decoded\<close> and the exception, if any.\<close>

definition add :: "(jsstr \<Rightarrow> jsval result) \<Rightarrow> jsval \<Rightarrow> decoder \<Rightarrow> decoder \<times> io_packet list \<times> js_error option" where
  "add parse obj d =
     (case obj of
        JStr s \<Rightarrow>
          (case decodeString parse s of
             Inl e \<Rightarrow> (d, [], Some e)
           | Inr packet \<Rightarrow>
               if is_binary_type (ptype packet) then
                 (Some (BinaryReconstructor packet),
                  if attachments packet = Some (js_nat 0) then [packet] else [], None)
               else (d, [packet], None))
      | JUndef \<Rightarrow> (d, [], Some TypeError)
      | JNull \<Rightarrow> (d, [], Some TypeError)
      | _ \<Rightarrow>
          if isBuf obj \<or> is_base64 obj then
            (case d of
               None \<Rightarrow> (d, [], Some (Error ''got binary data when not reconstructing a packet''))
             | Some r \<Rightarrow>
                 (case takeBinaryData obj r of
                    (r', Inl e) \<Rightarrow> (Some r', [], Some e)
                  | (r', Inr None) \<Rightarrow> (Some r', [], None)
                  | (r', Inr (Some packet)) \<Rightarrow> (None, [packet], None)))
          else (d, [], Some (Error ''Unknown type'')))"

definition Decoder_destroy :: "decoder \<Rightarrow> decoder" where
  "Decoder_destroy d = map_option finishedReconstruction d"

text \<open>A sequence of received frames: the packets it yields, and the first exception.\<close>

fun add_all :: "(jsstr \<Rightarrow> jsval result) \<Rightarrow> jsval list \<Rightarrow> decoder \<Rightarrow> decoder \<times> io_packet list \<times> js_error option" where
  "add_all parse [] d = (d, [], None)"
| "add_all parse (f # fs) d =
     (case add parse f d of
        (d', ps, Some e) \<Rightarrow> (d', ps, Some e)
      | (d', ps, None) \<Rightarrow> (case add_all parse fs d' of (d'', qs, e) \<Rightarrow> (d'', ps @ qs, e)))"

subsection \<open>Characters that are numbers\<close>

lemma js_Number_single: "js_Number [c] = (if is_space c then Decimal 0 0 else if is_digit c then decimal (int (digit_val c)) 0 else NumNaN)"
proof (cases "is_space c")
  case True
  then show ?thesis by (simp add: js_Number_def trim_def)
next
  case False
  then have t: "trim [c] = [c]" by (simp add: trim_def)
  have "decimal_literal neg [] = NumNaN" for neg
    by (simp add: decimal_literal_def split_fraction_def)
  moreover have "decimal_literal neg [c] = (if is_digit c then decimal ((if neg then -1 else 1) * int (digit_val c)) 0 else NumNaN)" for neg
    by (auto simp: decimal_literal_def split_fraction_def exponent_of_def)
  moreover have "\<not> is_digit 45" "\<not> is_digit 43" by (simp_all add: is_digit_def)
  ultimately show ?thesis
    using False t by (auto simp: js_Number_def lit_def split_sign_def)
qed

lemma decimal_not_NaN [simp]: "decimal m e \<noteq> NumNaN"
  by (simp add: decimal_def split: prod.split)

lemma numeric_iff: "numeric c \<longleftrightarrow> is_digit c \<or> is_space c"
  by (simp add: numeric_def js_Number_single)

subsection \<open>Decoding what was encoded\<close>

text \<open>
  Packets as the sockets make them: a namespace that begins with a slash and has no comma, an
  identifier that is a natural number, and an array (or nothing) as data.
\<close>

definition valid_nsp :: "jsstr \<Rightarrow> bool" where
  "valid_nsp n \<longleftrightarrow> n \<noteq> [] \<and> hd n = of_char (CHR ''/'') \<and> of_char (CHR '','') \<notin> set n"

definition header_ok :: "io_packet \<Rightarrow> bool" where
  "header_ok pk \<longleftrightarrow> ptype pk < 7 \<and> (\<exists>n. nsp pk = Some n \<and> valid_nsp n) \<and>
     (pid pk = None \<or> (\<exists>k < 10 ^ 21. pid pk = Some (js_nat k)))"

definition attachments_ok :: "io_packet \<Rightarrow> bool" where
  "attachments_ok pk \<longleftrightarrow> (if is_binary_type (ptype pk)
     then \<exists>k < 10 ^ 21. attachments pk = Some (js_nat k) else attachments pk = None)"

lemma nat_digits_numeric: "c \<in> set (nat_digits n) \<Longrightarrow> numeric c \<and> c \<noteq> 45 \<and> c \<noteq> 47 \<and> c \<noteq> 44"
  using nat_digits_digits [of c n] digit_bounds [of c] by (auto simp: numeric_iff is_digit_def)

lemma nat_digits_single: "t < 10 \<Longrightarrow> nat_digits t = [digit_char t]"
  by (simp add: nat_digits.simps)

lemma length_types: "length types = 7"
  by (simp add: types_def)

lemma span_until:
  assumes "c \<notin> set xs"
  shows "takeWhile (\<lambda>x. x \<noteq> c) (xs @ c # ys) = xs" "dropWhile (\<lambda>x. x \<noteq> c) (xs @ c # ys) = c # ys"
    "takeWhile (\<lambda>x. x \<noteq> c) xs = xs" "dropWhile (\<lambda>x. x \<noteq> c) xs = []"
  using assms by (induction xs) auto

lemma lookup_type_digit:
  assumes "t < 7"
  shows "lookup_type (nat_digits t @ s) = Some t"
proof -
  have "js_Number [digit_char t] = js_nat t"
    using assms digit_bounds [OF is_digit_char [of t]] by (simp add: js_Number_single js_nat_def)
  moreover have "filter (\<lambda>u. js_nat u = js_nat t) [0..<7] = filter (\<lambda>u. u = t) [0..<7]"
    using js_nat_inject [of _ t] assms by (intro filter_cong) auto
  moreover have "filter (\<lambda>u. u = t) [0..<7] = [t]"
    using assms by (auto simp: upt_rec)
  ultimately show ?thesis
    using assms by (simp add: lookup_type_def nat_digits_single length_types Let_def del: upt_rec_numeral upt_Suc)
qed

lemma lookup_attachments_digits:
  assumes "k < 10 ^ 21"
  shows "lookup_attachments (js_String (js_nat k) @ 45 # s) = Inr (js_nat k, s)"
proof -
  have str: "js_String (js_nat k) = nat_digits k" by (rule js_String_nat [OF assms])
  have "45 \<notin> set (nat_digits k)" using nat_digits_numeric by blast
  note span_until(1,2) [OF this, of s] span_until(3,4) [OF this]
  moreover have "js_Number (nat_digits k) = js_nat k"
    using js_Number_String [OF num_wf_nat, of k] by (simp only: str)
  moreover have "js_nat k \<noteq> NumNaN" by (simp add: js_nat_def)
  ultimately show ?thesis by (simp add: lookup_attachments_def str)
qed

lemma lookup_nsp_valid:
  assumes "valid_nsp n"
  shows "lookup_nsp (n @ 44 # s) = (n, s)" "lookup_nsp n = (n, [])"
proof -
  have n: "take 1 n = [47]" "44 \<notin> set n" "n \<noteq> []"
    using assms by (cases n; auto simp: valid_nsp_def)+
  then show "lookup_nsp (n @ 44 # s) = (n, s)" "lookup_nsp n = (n, [])"
    by (simp_all add: lookup_nsp_def lit_def span_until Suc_le_eq)
qed

lemma lookup_id_digits:
  assumes "k < 10 ^ 21" "s = [] \<or> \<not> numeric (hd s)"
  shows "lookup_id (js_String (js_nat k) @ s) = (Some (js_nat k), s)"
proof -
  have str: "js_String (js_nat k) = nat_digits k" by (rule js_String_nat [OF assms(1)])
  have num: "\<forall>c \<in> set (nat_digits k). numeric c" using nat_digits_numeric by blast
  have "takeWhile numeric (nat_digits k @ s) = nat_digits k" "dropWhile numeric (nat_digits k @ s) = s"
    using num assms(2) by (cases s; simp add: takeWhile_append2 dropWhile_append2)+
  moreover have "js_Number (nat_digits k) = js_nat k"
    using js_Number_String [OF num_wf_nat, of k] by (simp only: str)
  moreover have "numeric (hd (nat_digits k))" using num by simp
  ultimately show ?thesis by (simp add: lookup_id_def str)
qed

lemma deconstruct_buffers:
  "list_all isBuf bufs \<Longrightarrow> list_all isBuf (snd (deconstruct v bufs))"
  "list_all isBuf bufs \<Longrightarrow> list_all isBuf (snd (deconstruct_elements vs bufs))"
  "list_all isBuf bufs \<Longrightarrow> list_all isBuf (snd (deconstruct_members kvs nd bufs))"
proof (induction v bufs and vs bufs and kvs nd bufs rule: deconstruct_deconstruct_elements_deconstruct_members.induct)
  case (1 v bufs)
  then show ?case by (cases v) (auto split: prod.splits)
next
  case (3 v vs bufs)
  obtain v' b1 where d: "deconstruct v bufs = (v', b1)" by fastforce
  obtain vs' b2 where e: "deconstruct_elements vs b1 = (vs', b2)" by fastforce
  from 3 d e show ?case by simp
next
  case (5 k v kvs nd bufs)
  obtain v' b1 where d: "deconstruct v bufs = (v', b1)" by fastforce
  from 5 d show ?case by simp
qed auto

lemma hasBinary_replace_blobs: "hasBinary (replace_blobs P v) = hasBinary v"
proof (induction v arbitrary: P)
  case (JArr vs)
  then have "hasBinary (replace_blobs Q (vs ! i)) = hasBinary (vs ! i)" if "i < length vs" for Q i
    using that by simp
  then show ?case
    by (auto simp: list_ex_length nth_enumerate_eq)
next
  case (JObj kvs)
  have "hasBinary (replace_blobs Q v) = hasBinary v" if "(k, v) \<in> set kvs" for k v Q
    using JObj.IH [OF that in_snds] .
  then show ?case by (force simp: list_ex_iff)
qed auto

lemma replace_blobs_array: "v = JArr vs \<Longrightarrow> \<exists>ws. replace_blobs P v = JArr ws"
  by simp

subsection \<open>Binary frames\<close>

lemma add_buffer:
  assumes "isBuf b"
  shows "add parse b (Some r) =
    (case takeBinaryData b r of
       (r', Inl e) \<Rightarrow> (Some r', [], Some e)
     | (r', Inr None) \<Rightarrow> (Some r', [], None)
     | (r', Inr (Some packet)) \<Rightarrow> (None, [packet], None))"
  using assms by (cases b) (simp_all add: add_def)

lemma add_all_buffers:
  assumes "\<forall>b \<in> set rest. isBuf b" "rest \<noteq> []" "attachments p = Some (js_nat (length (taken @ rest)))"
    and "length (taken @ rest) < 2 ^ 53"
  shows "add_all parse rest (Some \<lparr>reconPack = Some p, buffers = taken\<rparr>) =
    (None, [reconstructPacket p (taken @ rest)], None)"
  using assms
proof (induction rest arbitrary: taken)
  case (Cons b rest)
  show ?case
  proof (cases "rest = []")
    case True
    then show ?thesis
      using Cons.prems by (simp add: add_buffer takeBinaryData_def)
  next
    case False
    then have "js_nat (length taken + 1) \<noteq> js_nat (length (taken @ b # rest))"
      using js_nat_inject [of "length taken + 1" "length (taken @ b # rest)"] Cons.prems(4) by auto
    then have "add parse b (Some \<lparr>reconPack = Some p, buffers = taken\<rparr>) =
        (Some \<lparr>reconPack = Some p, buffers = taken @ [b]\<rparr>, [], None)"
      using Cons.prems by (simp add: add_buffer takeBinaryData_def)
    then show ?thesis using Cons.IH [of "taken @ [b]"] Cons.prems False by simp
  qed
qed simp

context json_codec begin

lemma decode_body:
  assumes "header_ok pk" "pdata pk = JUndef \<or> pdata pk = JArr vs \<and> json_plain (JArr vs)"
  defines "data \<equiv> (if pdata pk = JUndef then [] else the (stringify (pdata pk)))"
  defines "idt \<equiv> (case pid pk of None \<Rightarrow> [] | Some i \<Rightarrow> js_String i)"
  shows "lookup_id (idt @ data) = (pid pk, data)"
    and "take 1 (idt @ data) \<noteq> [47]"
    and "data \<noteq> [] \<Longrightarrow> tryParse parse p data = p\<lparr>pdata := pdata pk\<rparr>"
    and "data = [] \<longleftrightarrow> pdata pk = JUndef"
proof -
  have "data = [] \<and> pdata pk = JUndef \<or>
    data \<noteq> [] \<and> hd data = 91 \<and> pdata pk \<noteq> JUndef \<and> parse data = Inr (pdata pk)"
  proof (cases "pdata pk = JUndef")
    case False
    then have arr: "pdata pk = JArr vs" "json_plain (JArr vs)" using assms(2) by auto
    obtain s where s: "stringify (JArr vs) = Some s" using stringify_defined by blast
    then show ?thesis
      using stringify_array [OF s] parse_stringify_plain [OF arr(2) s] arr(1) by (simp add: data_def)
  qed (simp add: data_def)
  moreover have "\<not> numeric 91" by (simp add: numeric_iff is_digit_def is_space_def)
  ultimately have data: "data = [] \<or> \<not> numeric (hd data)" "data = [] \<or> hd data \<noteq> 47"
    and rest: "data = [] \<longleftrightarrow> pdata pk = JUndef" "data \<noteq> [] \<Longrightarrow> parse data = Inr (pdata pk)"
    by auto
  show "data = [] \<longleftrightarrow> pdata pk = JUndef" by (rule rest)
  show "data \<noteq> [] \<Longrightarrow> tryParse parse p data = p\<lparr>pdata := pdata pk\<rparr>"
    using rest(2) by (simp add: tryParse_def)
  show "lookup_id (idt @ data) = (pid pk, data)"
  proof (cases "pid pk")
    case None
    then show ?thesis using data(1) by (simp add: idt_def lookup_id_def)
  next
    case (Some i)
    then show ?thesis
      using assms(1) lookup_id_digits [OF _ data(1)] by (auto simp: idt_def header_ok_def)
  qed
  show "take 1 (idt @ data) \<noteq> [47]"
  proof (cases "pid pk")
    case None
    then show ?thesis using data(2) by (cases data) (auto simp: idt_def)
  next
    case (Some i)
    then obtain k where "idt = nat_digits k"
      using assms(1) js_String_nat by (auto simp: idt_def header_ok_def)
    moreover have "hd (nat_digits k) \<noteq> 47" using nat_digits_numeric [of "hd (nat_digits k)" k] by simp
    ultimately show ?thesis by (cases "nat_digits k") auto
  qed
qed

lemma decodeString_encodeAsString:
  assumes "header_ok pk" "attachments_ok pk" "pdata pk = JUndef \<or> pdata pk = JArr vs \<and> json_plain (JArr vs)"
  shows "decodeString parse (encodeAsString stringify pk) = Inr pk"
proof -
  let ?data = "if pdata pk = JUndef then [] else the (stringify (pdata pk))"
  let ?id = "case pid pk of None \<Rightarrow> [] | Some i \<Rightarrow> js_String i"
  let ?att = "if is_binary_type (ptype pk) then attachments_string pk @ [45] else []"
  obtain n where n: "nsp pk = Some n" "valid_nsp n" using assms(1) by (auto simp: header_ok_def)
  let ?nsp = "if n = [47] then [] else if ?id @ ?data = [] then n else n @ [44]"
  have t: "ptype pk < 7" using assms(1) by (simp add: header_ok_def)
  have "n \<noteq> []" using n(2) by (simp add: valid_nsp_def)
  have id_neq: "\<And>i. pid pk = Some i \<Longrightarrow> js_String i \<noteq> []"
    using assms(1) js_String_nat nat_digits_neq_Nil by (auto simp: header_ok_def)
  note body = decode_body [OF assms(1,3)]
  have str: "encodeAsString stringify pk = nat_digits (ptype pk) @ ?att @ ?nsp @ ?id @ ?data"
  proof -
    have ty: "js_String (js_nat (ptype pk)) = nat_digits (ptype pk)"
      using t by (intro js_String_nat) simp
    have sf: "pdata pk \<noteq> JUndef \<Longrightarrow> \<exists>s. stringify (pdata pk) = Some s \<and> s \<noteq> [] \<and> pdata pk \<noteq> JNull"
      using stringify_defined [of "pdata pk"] stringify_array assms(3) by fastforce
    show ?thesis
      using sf id_neq
      by (cases "n = [47]"; cases "pid pk"; cases "pdata pk = JUndef")
        (auto simp: encodeAsString_def Let_def has_nsp_def n(1) \<open>n \<noteq> []\<close> lit_def ty)
  qed
  have nsp: "lookup_nsp (?nsp @ ?id @ ?data) = (n, ?id @ ?data)"
  proof (cases "n = [47]")
    case True
    then show ?thesis using body(2) by (simp add: lookup_nsp_def lit_def)
  next
    case False
    then show ?thesis using lookup_nsp_valid [OF n(2)] by (cases "?id @ ?data = []") simp_all
  qed
  have att: "(if is_binary_type (ptype pk)
      then bindE (lookup_attachments (?att @ s)) (\<lambda>(n, s). Inr (Some n, s)) else Inr (None, ?att @ s)) =
      Inr (attachments pk, s)" for s
    using assms(2) lookup_attachments_digits [of _ s]
    by (auto simp: attachments_ok_def attachments_string_def)
  have drop: "drop 1 (nat_digits (ptype pk) @ s) = s" for s
    using t by (simp add: nat_digits_single)
  show ?thesis
    unfolding str decodeString_def lookup_type_digit [OF t] option.case drop att bindE.simps prod.case
      nsp body(1) Let_def
    using body(3,4) n(1) by auto
qed

lemma decodeString_total:
  "decodeString parse s = Inl (Error ''Illegal attachments'') \<or> (\<exists>p. decodeString parse s = Inr p \<and> ptype p < 7)"
proof -
  have t: "lookup_type s = Some t \<Longrightarrow> t < 7" for t
  proof -
    assume l: "lookup_type s = Some t"
    let ?ts = "filter (\<lambda>t. js_nat t = js_Number (take 1 s)) [0..<7]"
    have "?ts \<noteq> []" "t = hd ?ts"
      using l by (auto simp: lookup_type_def Let_def length_types filter_empty_conv split: if_splits simp del: upt_rec_numeral)
    then have "t \<in> set ?ts" by (metis list.set_sel(1))
    then show "t < 7" by auto
  qed
  have e: "ptype (tryParse parse p r) < 7" if "ptype p < 7" for p r
    using that by (auto simp: tryParse_def parser_error_def ERROR_def split: sum.splits)
  have a: "lookup_attachments r = Inl x \<Longrightarrow> x = Error ''Illegal attachments''" for r x
    by (auto simp: lookup_attachments_def Let_def split: if_splits)
  show ?thesis
  proof (cases "lookup_type s")
    case (Some ty)
    then show ?thesis
      using t [OF Some] e a
      by (cases "lookup_attachments (drop 1 s)")
        (auto simp: decodeString_def Let_def split: prod.splits)
  qed (simp add: decodeString_def parser_error_def ERROR_def)
qed

lemma add_all_writeEncoding:
  assumes "header_ok pk" "is_binary_type (ptype pk)" "attachments pk = None"
    and "pdata pk = JArr vs" "packet_ok (JArr vs)" "hasBinary (JArr vs)"
    and "length (snd (deconstruct (JArr vs) [])) < 2 ^ 53"
  shows "add_all parse (writeEncoding stringify pk) d = (None, [pk], None)"
proof -
  obtain data bufs where d: "deconstruct (JArr vs) [] = (data, bufs)" by fastforce
  have len: "length bufs < 2 ^ 53" using assms(7) d by simp
  have ok: "restorable (JArr vs)" "blob_free (JArr vs)" using packet_ok_restorable [OF assms(5)] by auto
  have neq: "bufs \<noteq> []" using deconstruct_hasBinary(1) [OF ok(2), of "[]"] assms(6) d by simp
  have plain: "json_plain data" using deconstruct_plain [OF assms(5) d] len by simp
  obtain ws where data: "data = JArr ws" using d by (auto split: prod.splits)
  let ?p = "pk\<lparr>pdata := data, attachments := Some (js_nat (length bufs))\<rparr>"
  have "length bufs < 10 ^ 21" using len by simp
  then have "decodeString parse (encodeAsString stringify ?p) = Inr ?p"
    using assms(1,2) plain data
    by (intro decodeString_encodeAsString [of _ ws]) (auto simp: header_ok_def attachments_ok_def)
  moreover have "js_nat (length bufs) \<noteq> js_nat 0"
    using js_nat_inject [of "length bufs" 0] neq by auto
  ultimately have first: "add parse (JStr (encodeAsString stringify ?p)) d =
      (Some \<lparr>reconPack = Some ?p, buffers = []\<rparr>, [], None)"
    using assms(2) by (simp add: add_def BinaryReconstructor_def)
  have "add_all parse bufs (Some \<lparr>reconPack = Some ?p, buffers = []\<rparr>) =
      (None, [reconstructPacket ?p bufs], None)"
    using add_all_buffers [of bufs ?p "[]" parse] neq len deconstruct_buffers(1) [of "[]" "JArr vs"] d
    by (simp add: list_all_iff)
  moreover have "reconstruct bufs data = JArr vs"
    using reconstruct_deconstruct [OF ok(1) d, of "[]"] len by simp
  then have "reconstructPacket ?p bufs = pk"
    using assms(3,4) by (simp add: reconstructPacket_def)
  moreover have "writeEncoding stringify pk = JStr (encodeAsString stringify ?p) # bufs"
    by (simp add: writeEncoding_def assms(4) d del: deconstruct_simps)
  ultimately show ?thesis using first by simp
qed

lemma binary_pipeline:
  assumes "header_ok pk" "is_binary_type (ptype pk)" "attachments pk = None" "pdata pk = JArr vs"
    and "distinct_keys (JArr vs)" "distinct loads" "set loads = set (blob_paths (JArr vs))"
    and "packet_ok (replace_blobs (\<lambda>_. True) (JArr vs))" "hasBinary (JArr vs)"
    and "length (snd (deconstruct (replace_blobs (\<lambda>_. True) (JArr vs)) [])) < 2 ^ 53"
  shows "\<exists>frames. Encoder_encode stringify loads pk = [frames] \<and>
    add_all parse frames d = (None, [pk\<lparr>pdata := replace_blobs (\<lambda>_. True) (JArr vs)\<rparr>], None)"
proof -
  let ?data = "replace_blobs (\<lambda>_. True) (JArr vs)"
  let ?pk = "pk\<lparr>pdata := ?data\<rparr>"
  obtain ws where data: "?data = JArr ws" by simp
  have "delivered (fold reader_onload loads (removeBlobs (JArr vs))) = [?data]"
    using blob_progress_run [OF blob_progress_start assms(5,6)] assms(7)
    by (auto simp: blob_progress_def)
  then have "Encoder_encode stringify loads pk = [writeEncoding stringify ?pk]"
    using assms(2,4) by (simp add: Encoder_encode_def encodeAsBinary_def)
  moreover have "hasBinary (JArr ws)"
    using hasBinary_replace_blobs [of "\<lambda>_. True" "JArr vs"] assms(9) data by simp
  then have "add_all parse (writeEncoding stringify ?pk) d = (None, [?pk], None)"
    using assms(1,2,3,8,10) unfolding data
    by (intro add_all_writeEncoding) (auto simp: header_ok_def)
  ultimately show ?thesis by simp
qed

lemma text_pipeline:
  assumes "header_ok pk" "\<not> is_binary_type (ptype pk)" "attachments pk = None"
    and "pdata pk = JUndef \<or> pdata pk = JArr vs \<and> json_plain (JArr vs)"
  shows "\<exists>frames. Encoder_encode stringify [] pk = [frames] \<and> add_all parse frames d = (d, [pk], None)"
proof -
  have "decodeString parse (encodeAsString stringify pk) = Inr pk"
    using assms by (intro decodeString_encodeAsString [of _ vs]) (auto simp: attachments_ok_def)
  then show ?thesis using assms(2) by (simp add: Encoder_encode_def add_def)
qed

end

subsection \<open>Properties\<close>

text \<open>
  C8. A packet without binary data is encoded as one text, and a decoder in any state that gets
  the text emits exactly that packet and keeps its state.
\<close>

theorem io_text_roundtrip:
  assumes "header_ok pk" "\<not> is_binary_type (ptype pk)" "attachments pk = None"
    and "pdata pk = JUndef \<or> pdata pk = JArr vs \<and> json_plain (JArr vs)"
  shows "\<exists>frames. Encoder_encode json3_stringify [] pk = [frames] \<and>
    add_all json_parse frames d = (d, [pk], None)"
  using assms by (rule json3.text_pipeline)

theorem io_text_roundtrip_witness:
  "let pk = \<lparr>ptype = EVENT, nsp = Some (lit ''/chat''), pid = Some (js_nat 13),
             pdata = JArr [JStr (lit ''hello''), JBool True], attachments = None\<rparr> in
   \<exists>frames. Encoder_encode json3_stringify [] pk = [frames] \<and>
     add_all json_parse frames Decoder = (Decoder, [pk], None)"
  unfolding Let_def
  by (rule io_text_roundtrip [where vs = "[JStr (lit ''hello''), JBool True]"])
    (auto simp: header_ok_def packet_type_defs is_binary_type_def valid_nsp_def lit_def intro: exI [of _ 13])

text \<open>
  C7. A packet with binary data, blobs included, is encoded as a text and its buffers once all file
  readers have finished, in whatever order; a decoder that gets these frames emits the packet
  once, after the last frame, with every buffer in its place, and is ready for the next one.
\<close>

theorem io_binary_roundtrip:
  assumes "header_ok pk" "is_binary_type (ptype pk)" "attachments pk = None" "pdata pk = JArr vs"
    and "distinct_keys (JArr vs)" "distinct loads" "set loads = set (blob_paths (JArr vs))"
    and "packet_ok (replace_blobs (\<lambda>_. True) (JArr vs))" "hasBinary (JArr vs)"
    and "length (snd (deconstruct (replace_blobs (\<lambda>_. True) (JArr vs)) [])) < 2 ^ 53"
  shows "\<exists>frames. Encoder_encode json3_stringify loads pk = [frames] \<and>
    add_all json_parse frames d = (None, [pk\<lparr>pdata := replace_blobs (\<lambda>_. True) (JArr vs)\<rparr>], None)"
  using assms by (rule json3.binary_pipeline)

theorem io_binary_roundtrip_witness:
  "let pk = (\<lambda>data. \<lparr>ptype = BINARY_EVENT, nsp = Some (lit ''/''), pid = None, pdata = data, attachments = None\<rparr>) in
   \<exists>frames. Encoder_encode json3_stringify [[Index 2], [Index 1]]
        (pk (JArr [JStr (lit ''up''), JBlob [1, 2], JBlob [3], JBuf []])) = [frames] \<and>
     add_all json_parse frames Decoder =
       (None, [pk (JArr [JStr (lit ''up''), JBuf [1, 2], JBuf [3], JBuf []])], None)"
proof -
  let ?vs = "[JStr (lit ''up''), JBlob [1, 2], JBlob [3], JBuf []]"
  let ?pk = "\<lparr>ptype = BINARY_EVENT, nsp = Some (lit ''/''), pid = None, pdata = JArr ?vs, attachments = None\<rparr>"
  have "\<exists>frames. Encoder_encode json3_stringify [[Index 2], [Index 1]] ?pk = [frames] \<and>
    add_all json_parse frames Decoder = (None, [?pk\<lparr>pdata := replace_blobs (\<lambda>_. True) (JArr ?vs)\<rparr>], None)"
    by (rule io_binary_roundtrip)
      (auto simp: header_ok_def packet_type_defs is_binary_type_def valid_nsp_def lit_def enumerate_eq_zip)
  then show ?thesis by (simp add: enumerate_eq_zip)
qed

text \<open>
  C40. Decoding a text never fails in another way than by the exception \<open>Illegal attachments\<close>, and
  every packet it yields has a known type; text that is not JSON becomes an \<open>ERROR\<close> packet.
\<close>

theorem io_decodeString_total:
  "decodeString json_parse s = Inl (Error ''Illegal attachments'') \<or>
   (\<exists>p. decodeString json_parse s = Inr p \<and> ptype p < 7)"
  by (rule json3.decodeString_total)

text \<open>
  A binary frame that no packet is waiting for is refused with an exception that leaves the
  decoder as it was, and nothing is emitted.
\<close>

theorem io_stray_binary:
  "add json_parse (JBuf b) Decoder =
     (Decoder, [], Some (Error ''got binary data when not reconstructing a packet''))"
  by (simp add: add_def Decoder_def)

text \<open>
  The empty text is read as a \<open>CONNECT\<close> packet of the root namespace, because \<open>Number('')\<close> is 0.
\<close>

lemma empty_text_connects:
  "decodeString json_parse [] =
     Inr \<lparr>ptype = CONNECT, nsp = Some (lit ''/''), pid = None, pdata = JUndef, attachments = None\<rparr>"
  by code_simp

text \<open>
  After a binary packet without attachments the decoder keeps waiting: a stray binary frame is
  then swallowed instead of refused.
\<close>

lemma zero_attachments_swallow:
  "(case add_all json_parse [JStr (lit ''50-[]''), JBuf []] Decoder of (d, ps, e) \<Rightarrow>
      length ps = 1 \<and> e = None \<and> d \<noteq> None)"
  by code_simp

text \<open>After \<open>destroy\<close> in the middle of a packet the next binary frame throws a \<open>TypeError\<close>.\<close>

lemma destroyed_decoder_TypeError:
  "snd (snd (add parse (JBuf b) (Decoder_destroy (Some r)))) = Some TypeError"
  by (simp add: add_def Decoder_destroy_def finishedReconstruction_def takeBinaryData_def)

end
