(* ===== verification/EioParser.thy ===== *)
theory EioParser
  imports Wtf8 Base64 BinaryPacket
begin

text \<open>
  The engine.io packet parser (module 27) with its helpers \<open>keys\<close> (28), \<open>sliceBuffer\<close> (30) and
  \<open>after\<close> (31): one packet as a string, as a buffer or as base 64, and a payload of several
  packets as one string, one buffer or one blob.

  A callback of the decoders is a function on the caller's state that also says whether it
  returned \<open>false\<close>; the encoders return what they pass to their callback. The order in which
  the file readers of an asynchronous encoding finish is an argument.
\<close>

subsection \<open>Packets\<close>

datatype eio_type =
    P_open | P_close | P_ping | P_pong | P_message | P_upgrade | P_noop
  | P_error      \<comment> \<open>the type of the premade error packet\<close>
  | P_undefined  \<comment> \<open>\<open>packetslist[type]\<close> out of range\<close>

text \<open>The values a packet's data takes, on the wire and at the two ends.\<close>

datatype eio_data =
    NoData
  | Text jsstr
  | Buffer bytes
  | BlobOf bytes
  | Base64Obj jsstr  \<comment> \<open>\<open>{ base64: true, data: ... }\<close>\<close>

record eio_packet =
  etype :: eio_type
  edata :: eio_data

text \<open>What the parser finds out about the browser when it is loaded.\<close>

record eio_env =
  blob_api :: bool
  dontSendBlobs :: bool
  base64encoder :: bool
  native_slice :: bool

definition packets :: "(eio_type \<times> nat) list" where
  "packets = [(P_open, 0), (P_close, 1), (P_ping, 2), (P_pong, 3), (P_message, 4), (P_upgrade, 5), (P_noop, 6)]"

definition keys :: "('k \<times> 'v) list \<Rightarrow> 'k list" where
  "keys obj = map fst obj"

definition packetslist :: "eio_type list" where
  "packetslist = keys packets"

definition err :: eio_packet where
  "err = \<lparr>etype = P_error, edata = Text (lit ''parser error'')\<rparr>"

definition packet_code :: "eio_type \<Rightarrow> jsstr" where
  "packet_code t = (case map_of packets t of Some n \<Rightarrow> nat_digits n | None \<Rightarrow> lit ''undefined'')"

definition packet_byte :: "eio_type \<Rightarrow> 8 word" where
  "packet_byte t = (case map_of packets t of Some n \<Rightarrow> of_nat n | None \<Rightarrow> 0)"

definition packet_at :: "nat \<Rightarrow> eio_type" where
  "packet_at n = (if n < length packetslist then packetslist ! n else P_undefined)"

definition packet_of_char :: "jsstr \<Rightarrow> eio_type" where
  "packet_of_char s = (case s of [c] \<Rightarrow> if is_digit c then packet_at (digit_val c) else P_undefined | _ \<Rightarrow> P_undefined)"

subsection \<open>\<open>sliceBuffer\<close>\<close>

text \<open>
  An argument that is missing or \<open>NaN\<close> is \<open>None\<close>. \<open>ArrayBuffer.prototype.slice\<close> counts negative
  positions from the end and clamps both.
\<close>

definition clamp :: "int \<Rightarrow> int \<Rightarrow> int" where
  "clamp n x = (if x < 0 then max (x + n) 0 else min x n)"

definition array_slice :: "bytes \<Rightarrow> int \<Rightarrow> int \<Rightarrow> bytes" where
  "array_slice b s e =
     (let n = int (length b); s' = nat (clamp n s); e' = nat (clamp n e) in take (e' - s') (drop s' b))"

definition manual_slice :: "bytes \<Rightarrow> int \<Rightarrow> int \<Rightarrow> bytes" where
  "manual_slice b s e =
     (let n = int (length b);
          s = (if s < 0 then s + n else s);
          e = (if e < 0 then e + n else e);
          e = (if e > n then n else e)
      in if s \<ge> n \<or> s \<ge> e \<or> n = 0 then []
         else map (\<lambda>i. if 0 \<le> i then b ! nat i else 0) [s..e - 1])"

definition sliceBuffer :: "bool \<Rightarrow> bytes \<Rightarrow> int option \<Rightarrow> int option \<Rightarrow> bytes" where
  "sliceBuffer native b start end' =
     (let s = (case start of Some x \<Rightarrow> x | None \<Rightarrow> 0);
          e = (case end' of Some x \<Rightarrow> (if x = 0 then int (length b) else x) | None \<Rightarrow> int (length b))
      in if native then array_slice b s e else manual_slice b s e)"

subsection \<open>\<open>after\<close> and the asynchronous \<open>map\<close>\<close>

text \<open>
  \<open>calls\<close> are the calls of the callback, with their error and their result; once it has been
  called with an error, the callback is replaced with the empty \<open>err_cb\<close>.
\<close>

record ('e, 'r) after_state =
  count :: nat
  bail :: bool
  silenced :: bool
  calls :: "('e option \<times> 'r option) list"

definition after :: "nat \<Rightarrow> ('e, 'r) after_state" where
  "after n = \<lparr>count = n, bail = False, silenced = False, calls = (if n = 0 then [(None, None)] else [])\<rparr>"

definition after_call :: "'e option \<times> 'r option \<Rightarrow> ('e, 'r) after_state \<Rightarrow> ('e, 'r) after_state" where
  "after_call c st = (if silenced st then st else st\<lparr>calls := calls st @ [c]\<rparr>)"

definition after_proxy :: "'e option \<Rightarrow> 'r \<Rightarrow> ('e, 'r) after_state \<Rightarrow> ('e, 'r) after_state result" where
  "after_proxy error result st =
     (if count st = 0 then Inl (Error ''after called too many times'')
      else
        let st = st\<lparr>count := count st - 1\<rparr> in
        case error of
          Some e \<Rightarrow> Inr ((after_call (Some e, None) (st\<lparr>bail := True\<rparr>))\<lparr>silenced := True\<rparr>)
        | None \<Rightarrow> Inr (if count st = 0 \<and> \<not> bail st then after_call (None, Some result) st else st))"

record ('e, 'm) map_state =
  results :: "'m option list"
  next_state :: "('e, 'm option list) after_state"

definition map_start :: "nat \<Rightarrow> ('e, 'm) map_state" where
  "map_start n = \<lparr>results = replicate n None, next_state = after n\<rparr>"

definition each_done :: "nat \<Rightarrow> 'e option \<Rightarrow> 'm \<Rightarrow> ('e, 'm) map_state \<Rightarrow> ('e, 'm) map_state result" where
  "each_done i error msg st =
     (let rs = (results st)[i := Some msg] in
      bindE (after_proxy error rs (next_state st)) (\<lambda>nx. Inr \<lparr>results = rs, next_state = nx\<rparr>))"

text \<open>The elements are done in the given order, each with its message and no error.\<close>

definition async_map :: "nat list \<Rightarrow> ('p \<Rightarrow> 'm) \<Rightarrow> 'p list \<Rightarrow> (unit, 'm) map_state result" where
  "async_map order each ary =
     fold (\<lambda>i st. bindE st (each_done i None (each (ary ! i)))) order (Inr (map_start (length ary)))"

subsection \<open>One packet\<close>

fun data_string :: "eio_data \<Rightarrow> jsstr" where
  "data_string NoData = lit ''undefined''"
| "data_string (Text s) = s"
| "data_string (Buffer _) = lit ''[object ArrayBuffer]''"
| "data_string (BlobOf _) = lit ''[object Blob]''"
| "data_string (Base64Obj _) = lit ''[object Object]''"

text \<open>\<open>new Uint8Array(data)\<close>: an object that is no buffer has no elements.\<close>

fun Uint8Array :: "eio_data \<Rightarrow> bytes" where
  "Uint8Array (Buffer b) = b"
| "Uint8Array _ = []"

text \<open>
  \<open>btoa\<close> and the data URL of a file reader are base 64 as the RFC has it.
\<close>

definition encodeBase64Packet :: "eio_env \<Rightarrow> eio_packet \<Rightarrow> eio_data" where
  "encodeBase64Packet env p =
     (let message = lit ''b'' @ packet_code (etype p) in
      case edata p of
        BlobOf b \<Rightarrow> Text (message @ rfc4648 (if blob_api env then b else Uint8Array (BlobOf b)))
      | data \<Rightarrow> Text (message @ rfc4648 (Uint8Array data)))"

definition encodeBase64Object :: "eio_type \<Rightarrow> jsstr \<Rightarrow> eio_data" where
  "encodeBase64Object t s = Text (lit ''b'' @ packet_code t @ s)"

definition encodeArrayBuffer :: "eio_env \<Rightarrow> bool \<Rightarrow> eio_packet \<Rightarrow> eio_data" where
  "encodeArrayBuffer env supportsBinary p =
     (if \<not> supportsBinary then encodeBase64Packet env p
      else Buffer (packet_byte (etype p) # Uint8Array (edata p)))"

text \<open>The reader hands a buffer to \<open>encodePacket\<close>, which goes on as \<open>encodeArrayBuffer\<close>.\<close>

definition encodeBlobAsArrayBuffer :: "eio_env \<Rightarrow> bool \<Rightarrow> eio_packet \<Rightarrow> bytes \<Rightarrow> eio_data" where
  "encodeBlobAsArrayBuffer env supportsBinary p b =
     (if \<not> supportsBinary then encodeBase64Packet env p
      else encodeArrayBuffer env supportsBinary (p\<lparr>edata := Buffer b\<rparr>))"

definition encodeBlob :: "eio_env \<Rightarrow> bool \<Rightarrow> eio_packet \<Rightarrow> bytes \<Rightarrow> eio_data" where
  "encodeBlob env supportsBinary p b =
     (if \<not> supportsBinary then encodeBase64Packet env p
      else if dontSendBlobs env then encodeBlobAsArrayBuffer env supportsBinary p b
      else BlobOf (packet_byte (etype p) # b))"

definition encodeText :: "bool \<Rightarrow> eio_packet \<Rightarrow> eio_data" where
  "encodeText utf8encode p =
     Text (packet_code (etype p) @
       (if edata p = NoData then []
        else if utf8encode then wtf8encode (data_string (edata p)) else data_string (edata p)))"

definition encodePacket :: "eio_env \<Rightarrow> bool \<Rightarrow> bool \<Rightarrow> eio_packet \<Rightarrow> eio_data" where
  "encodePacket env supportsBinary utf8encode p =
     (case edata p of
        Buffer _ \<Rightarrow> encodeArrayBuffer env supportsBinary p
      | BlobOf b \<Rightarrow> if blob_api env then encodeBlob env supportsBinary p b else encodeText utf8encode p
      | Base64Obj s \<Rightarrow> encodeBase64Object (etype p) s
      | _ \<Rightarrow> encodeText utf8encode p)"

text \<open>\<open>blobType\<close> is \<open>binaryType === 'blob'\<close>.\<close>

definition decodeBase64Packet :: "eio_env \<Rightarrow> bool \<Rightarrow> jsstr \<Rightarrow> eio_packet" where
  "decodeBase64Packet env blobType msg =
     (let type = packet_of_char (take 1 msg) in
      if \<not> base64encoder env then \<lparr>etype = type, edata = Base64Obj (drop 1 msg)\<rparr>
      else
        let data = base64_decode (drop 1 msg) in
        \<lparr>etype = type, edata = (if blobType \<and> blob_api env then BlobOf data else Buffer data)\<rparr>)"

definition tryDecode :: "jsstr \<Rightarrow> jsstr option" where
  "tryDecode data = (case wtf8decode data of Inr s \<Rightarrow> Some s | Inl _ \<Rightarrow> None)"

definition decodeText :: "jsstr \<Rightarrow> eio_packet" where
  "decodeText data =
     (let type = take 1 data in
      if js_Number type = NumNaN \<or> packet_of_char type = P_undefined then err
      else if length data > 1 then \<lparr>etype = packet_of_char type, edata = Text (drop 1 data)\<rparr>
      else \<lparr>etype = packet_of_char type, edata = NoData\<rparr>)"

text \<open>
  Of a blob, and of an object that is no buffer, \<open>Uint8Array\<close> has no first byte; a blob has a
  \<open>slice\<close> of its own.
\<close>

fun decodePacket :: "eio_env \<Rightarrow> bool \<Rightarrow> bool \<Rightarrow> eio_data \<Rightarrow> eio_packet" where
  "decodePacket env blobType utf8decode NoData = err"
| "decodePacket env blobType utf8decode (Text data) =
     (if take 1 data = lit ''b'' then decodeBase64Packet env blobType (drop 1 data)
      else if utf8decode then (case tryDecode data of None \<Rightarrow> err | Some s \<Rightarrow> decodeText s)
      else decodeText data)"
| "decodePacket env blobType utf8decode (Buffer data) =
     (let type = (case data of b # _ \<Rightarrow> packet_at (unat b) | [] \<Rightarrow> P_undefined);
          rest = sliceBuffer (native_slice env) data (Some 1) None
      in \<lparr>etype = type, edata = (if blob_api env \<and> blobType then BlobOf rest else Buffer rest)\<rparr>)"
| "decodePacket env blobType utf8decode (BlobOf data) = \<lparr>etype = P_undefined, edata = BlobOf (drop 1 data)\<rparr>"
| "decodePacket env blobType utf8decode (Base64Obj _) =
     \<lparr>etype = P_undefined, edata = (if blob_api env \<and> blobType then BlobOf [] else Buffer [])\<rparr>"

subsection \<open>Encoding a payload\<close>

fun jsval_of_data :: "eio_data \<Rightarrow> jsval" where
  "jsval_of_data NoData = JUndef"
| "jsval_of_data (Text s) = JStr s"
| "jsval_of_data (Buffer b) = JBuf b"
| "jsval_of_data (BlobOf b) = JBlob b"
| "jsval_of_data (Base64Obj s) = JObj [(lit ''base64'', JBool True), (lit ''data'', JStr s)]"

definition packets_binary :: "eio_packet list \<Rightarrow> bool" where
  "packets_binary ps = hasBinary (JArr (map (\<lambda>p. JObj [(lit ''data'', jsval_of_data (edata p))]) ps))"

text \<open>\<open>message.length\<close> is below 2 to the 53rd, so its string is its decimal digits.\<close>

definition setLengthHeader :: "jsstr \<Rightarrow> jsstr" where
  "setLengthHeader message = nat_digits (length message) @ lit '':'' @ message"

fun text_of :: "eio_data \<Rightarrow> jsstr" where
  "text_of (Text s) = s"
| "text_of data = data_string data"

definition join_results :: "jsstr option list \<Rightarrow> jsstr" where
  "join_results rs = concat (map (\<lambda>r. case r of Some m \<Rightarrow> m | None \<Rightarrow> []) rs)"

text \<open>
  The calls of the callback that a run of \<open>map\<close> makes: \<open>done\<close> ignores the error. A call without
  results reads a member of \<open>undefined\<close>.
\<close>

definition map_done :: "('r \<Rightarrow> eio_data result) \<Rightarrow> ('e, 'm) map_state \<Rightarrow> ('m option list \<Rightarrow> 'r) \<Rightarrow> eio_data list result" where
  "map_done f st g =
     fold (\<lambda>(_, res) acc. bindE acc (\<lambda>out.
         case res of None \<Rightarrow> Inl TypeError | Some rs \<Rightarrow> bindE (f (g rs)) (\<lambda>d. Inr (out @ [d]))))
       (calls (next_state st)) (Inr [])"

text \<open>One packet of a binary payload: string flag, digits of the length, 255, the bytes.\<close>

fun frame_parts :: "eio_data \<Rightarrow> 8 word \<times> bytes" where
  "frame_parts (Text s) = (0, map ucast s)"
| "frame_parts (Buffer b) = (1, b)"
| "frame_parts (BlobOf b) = (1, b)"
| "frame_parts _ = (1, [])"

definition length_bytes :: "nat \<Rightarrow> bytes" where
  "length_bytes n = map (\<lambda>c. of_nat (digit_val c)) (nat_digits n) @ [255]"

definition frame :: "eio_data \<Rightarrow> bytes" where
  "frame p = (case frame_parts p of (flag, b) \<Rightarrow> flag # length_bytes (length b) @ b)"

definition total_length :: "eio_data list \<Rightarrow> nat" where
  "total_length ps = foldl (\<lambda>acc p. let len = length (snd (frame_parts p)) in acc + length (nat_digits len) + len + 2) 0 ps"

text \<open>The writes go into an array allocated beforehand: what does not fit is lost.\<close>

definition fill_array :: "nat \<Rightarrow> bytes \<Rightarrow> bytes" where
  "fill_array n w = take n w @ replicate (n - length w) 0"

text \<open>A blob among the encoded packets has no \<open>byteLength\<close>.\<close>

definition concat_buffers :: "eio_data option list \<Rightarrow> eio_data result" where
  "concat_buffers rs =
     (if list_all (\<lambda>r. case r of Some (Text _) \<Rightarrow> True | Some (Buffer _) \<Rightarrow> True | _ \<Rightarrow> False) rs
      then Inr (Buffer (fill_array (total_length (map the rs)) (concat (map (frame \<circ> the) rs))))
      else Inl TypeError)"

definition encodePayloadAsArrayBuffer :: "eio_env \<Rightarrow> nat list \<Rightarrow> eio_packet list \<Rightarrow> eio_data list result" where
  "encodePayloadAsArrayBuffer env order ps =
     (if ps = [] then Inr [Buffer []]
      else bindE (async_map order (encodePacket env True True) ps) (\<lambda>st. map_done concat_buffers st id))"

definition blob_of_frames :: "bytes option list \<Rightarrow> eio_data result" where
  "blob_of_frames rs = Inr (BlobOf (concat (map (\<lambda>r. case r of Some b \<Rightarrow> b | None \<Rightarrow> []) rs)))"

definition encodePayloadAsBlob :: "eio_env \<Rightarrow> nat list \<Rightarrow> eio_packet list \<Rightarrow> eio_data list result" where
  "encodePayloadAsBlob env order ps =
     (if ps = [] then Inr [BlobOf []]
      else bindE (async_map order (frame \<circ> encodePacket env True True) ps) (\<lambda>st. map_done blob_of_frames st id))"

definition encodePayload :: "eio_env \<Rightarrow> nat list \<Rightarrow> bool \<Rightarrow> eio_packet list \<Rightarrow> eio_data list result" where
  "encodePayload env order supportsBinary ps =
     (let isBinary = packets_binary ps in
      if supportsBinary \<and> isBinary then
        if blob_api env \<and> \<not> dontSendBlobs env then encodePayloadAsBlob env order ps
        else encodePayloadAsArrayBuffer env order ps
      else if ps = [] then Inr [Text (lit ''0:'')]
      else
        let encodeOne = (\<lambda>p. setLengthHeader (text_of
              (encodePacket env (if \<not> isBinary then False else supportsBinary) True p))) in
        bindE (async_map order encodeOne ps) (\<lambda>st. map_done (\<lambda>s. Inr (Text s)) st join_results))"

subsection \<open>Decoding a payload\<close>

type_synonym 's payload_callback = "eio_packet \<Rightarrow> nat \<Rightarrow> nat \<Rightarrow> 's \<Rightarrow> 's \<times> bool"

text \<open>\<open>str.substr(start, n)\<close> of the rest after \<open>start\<close>.\<close>

definition js_substr :: "jsstr \<Rightarrow> jsnum \<Rightarrow> jsstr" where
  "js_substr s n = (case n of
     NumNaN \<Rightarrow> [] | NumInf pos \<Rightarrow> (if pos then s else [])
   | Decimal m e \<Rightarrow> take (nat (if 0 \<le> e then m * 10 ^ nat e else m div 10 ^ nat (- e))) s)"

function decode_payload_loop ::
  "eio_env \<Rightarrow> bool \<Rightarrow> 's payload_callback \<Rightarrow> nat \<Rightarrow> nat \<Rightarrow> jsstr \<Rightarrow> jsstr \<Rightarrow> 's \<Rightarrow> 's" where
  "decode_payload_loop env blobType cb l i len [] st = (if len \<noteq> [] then fst (cb err 0 1 st) else st)"
| "decode_payload_loop env blobType cb l i len (chr # rest) st =
     (if chr \<noteq> of_char (CHR '':'') then decode_payload_loop env blobType cb l (i + 1) (len @ [chr]) rest st
      else if len = [] \<or> js_Number len = NumNaN then fst (cb err 0 1 st)
      else
        let n = js_Number len; msg = js_substr rest n in
        if js_Number len \<noteq> js_nat (length msg) then fst (cb err 0 1 st)
        else if msg \<noteq> [] then
          let packet = decodePacket env blobType True (Text msg) in
          if packet = err then fst (cb err 0 1 st)
          else
            (case cb packet (i + length msg) l st of (st', continue) \<Rightarrow>
               if \<not> continue then st'
               else decode_payload_loop env blobType cb l (i + length msg + 1) [] (drop (length msg) rest) st')
        else decode_payload_loop env blobType cb l (i + 1) [] rest st)"
  by pat_completeness auto
termination
  by (relation "measure (\<lambda>(_, _, _, _, _, _, s, _). length s)") auto

text \<open>
  \<open>read_length\<close> reads the bytes before the separator 255; past the end of the array it appends
  \<open>undefined\<close> until the number is too long.
\<close>

fun read_length :: "bytes \<Rightarrow> jsstr \<Rightarrow> jsstr option" where
  "read_length [] acc = None"
| "read_length (b # bs) acc =
     (if b = 255 then Some acc
      else if length acc > 310 then None
      else read_length bs (acc @ nat_digits (unat b)))"

definition parseInt :: "jsstr \<Rightarrow> int option" where
  "parseInt ds = (if ds = [] then None else Some (int (digits_val ds)))"

lemma slice_upto:
  assumes "0 \<le> s" "s \<le> e" "e \<le> int (length b)"
  shows "map (\<lambda>i. if 0 \<le> i then b ! nat i else (0 :: 8 word)) [s..e - 1] = take (nat e - nat s) (drop (nat s) b)"
  using assms by (intro nth_equalityI) (auto simp: nat_add_distrib)

lemma manual_slice_clamped:
  assumes "- int (length b) \<le> s"
  shows "manual_slice b s e = array_slice b s e"
proof -
  let ?n = "int (length b)"
  define s' where "s' = (if s < 0 then s + ?n else s)"
  define e' where "e' = (let e = if e < 0 then e + ?n else e in if e > ?n then ?n else e)"
  have s': "0 \<le> s'" and e': "e' \<le> ?n" using assms by (auto simp: s'_def e'_def)
  have "nat (clamp ?n s) = nat (min s' ?n)" "nat (clamp ?n e) = nat e'"
    using assms by (auto simp: clamp_def s'_def e'_def min_def max_def)
  then have array: "array_slice b s e = take (nat e' - nat (min s' ?n)) (drop (nat (min s' ?n)) b)"
    by (simp only: array_slice_def Let_def)
  have manual: "manual_slice b s e = (if s' \<ge> ?n \<or> s' \<ge> e' \<or> ?n = 0 then []
      else map (\<lambda>i. if 0 \<le> i then b ! nat i else 0) [s'..e' - 1])"
    by (simp only: manual_slice_def Let_def s'_def e'_def)
  show ?thesis
  proof (cases "s' \<ge> ?n \<or> s' \<ge> e'")
    case True
    then have "nat e' - nat (min s' ?n) = 0" using e' by (auto simp: min_def)
    with True show ?thesis unfolding array manual by auto
  next
    case False
    then show ?thesis unfolding array manual using slice_upto [OF s' _ e'] by (auto simp: min_def)
  qed
qed

lemma length_array_slice: "length (array_slice b s e) \<le> length b"
  by (simp add: array_slice_def Let_def)

lemma sliceBuffer_eq_array:
  assumes "- int (length b) \<le> (case start of Some x \<Rightarrow> x | None \<Rightarrow> 0)"
  shows "sliceBuffer native b start end' = sliceBuffer True b start end'"
  using manual_slice_clamped [OF assms] by (simp add: sliceBuffer_def Let_def)

lemma length_sliceBuffer_le:
  assumes "0 \<le> (case start of Some x \<Rightarrow> x | None \<Rightarrow> 0)"
  shows "length (sliceBuffer native b start end') \<le> length b"
proof -
  have "sliceBuffer native b start end' = sliceBuffer True b start end'"
    by (rule sliceBuffer_eq_array) (use assms in linarith)
  then show ?thesis by (simp add: sliceBuffer_def Let_def length_array_slice)
qed

lemma sliceBuffer_from [simp]: "sliceBuffer native b (Some (int n)) None = drop n b"
proof -
  have "sliceBuffer native b (Some (int n)) None = sliceBuffer True b (Some (int n)) None"
    by (rule sliceBuffer_eq_array) simp
  also have "\<dots> = drop n b"
    by (simp add: sliceBuffer_def array_slice_def clamp_def Let_def min_def)
  finally show ?thesis .
qed

lemma sliceBuffer_prefix: "0 < n \<Longrightarrow> sliceBuffer native b (Some 0) (Some (int n)) = take n b"
  by (subst sliceBuffer_eq_array) (simp_all add: sliceBuffer_def array_slice_def clamp_def Let_def min_def)

function split_buffers :: "bool \<Rightarrow> bytes \<Rightarrow> eio_data list \<Rightarrow> eio_data list option" where
  "split_buffers native tail buffers =
     (if tail = [] then Some buffers
      else case read_length (tl tail) [] of
        None \<Rightarrow> None
      | Some ds \<Rightarrow>
          let rest = sliceBuffer native tail (Some (2 + int (length ds))) None;
              msgLength = parseInt ds;
              msg = sliceBuffer native rest (Some 0) msgLength
          in split_buffers native (sliceBuffer native rest msgLength None)
               (buffers @ [if hd tail = 0 then Text (map ucast msg) else Buffer msg]))"
  by pat_completeness auto
termination
proof (relation "measure (\<lambda>(_, tail, _). length tail)")
  fix native :: bool and tail :: bytes and buffers :: "eio_data list" and ds rest msgLength msg
  assume a: "tail \<noteq> []" "rest = sliceBuffer native tail (Some (2 + int (length ds))) None" "msgLength = parseInt ds"
  have "length (sliceBuffer native rest msgLength None) \<le> length rest"
    by (rule length_sliceBuffer_le) (simp add: a(3) parseInt_def)
  moreover have "rest = drop (2 + length ds) tail"
    using a(2) sliceBuffer_from [of native tail "2 + length ds"] by simp
  ultimately have "length (sliceBuffer native rest msgLength None) < length tail"
    using a(1) by (cases tail) auto
  then show "((native, sliceBuffer native rest msgLength None,
      buffers @ [if hd tail = 0 then Text (map ucast msg) else Buffer msg]), native, tail, buffers)
      \<in> measure (\<lambda>(_, tail, _). length tail)" by simp
qed simp

declare split_buffers.simps [simp del]

definition decodePayloadAsBinary :: "eio_env \<Rightarrow> bool \<Rightarrow> 's payload_callback \<Rightarrow> bytes \<Rightarrow> 's \<Rightarrow> 's" where
  "decodePayloadAsBinary env blobType cb data st =
     (case split_buffers (native_slice env) data [] of
        None \<Rightarrow> fst (cb err 0 1 st)
      | Some buffers \<Rightarrow>
          fold (\<lambda>(i, b) st. fst (cb (decodePacket env blobType True b) i (length buffers) st))
            (enumerate 0 buffers) st)"

text \<open>An object without \<open>byteLength\<close> holds no packet.\<close>

fun decodePayload :: "eio_env \<Rightarrow> bool \<Rightarrow> 's payload_callback \<Rightarrow> eio_data \<Rightarrow> 's \<Rightarrow> 's result" where
  "decodePayload env blobType cb (Text data) st =
     Inr (if data = [] then fst (cb err 0 1 st)
          else decode_payload_loop env blobType cb (length data) 0 [] data st)"
| "decodePayload env blobType cb (Buffer data) st = Inr (decodePayloadAsBinary env blobType cb data st)"
| "decodePayload env blobType cb NoData st = Inl TypeError"
| "decodePayload env blobType cb _ st = Inr st"

text \<open>The bookkeeping of \<open>map\<close> when the elements of \<open>done\<close> have been done.\<close>

definition map_progress :: "nat list \<Rightarrow> ('p \<Rightarrow> 'm) \<Rightarrow> 'p list \<Rightarrow> ('e, 'm) map_state \<Rightarrow> bool" where
  "map_progress done each ary st \<longleftrightarrow>
     results st = map (\<lambda>i. if i \<in> set done then Some (each (ary ! i)) else None) [0..<length ary] \<and>
     count (next_state st) = length ary - length done \<and> \<not> bail (next_state st) \<and> \<not> silenced (next_state st) \<and>
     calls (next_state st) = (if length done = length ary then [(None, Some (results st))] else [])"

lemma map_progress_step:
  assumes "map_progress done each ary st" "distinct (done @ [i])" "set (done @ [i]) \<subseteq> {..<length ary}"
  obtains st' where "each_done i None (each (ary ! i)) st = Inr st'" "map_progress (done @ [i]) each ary st'"
proof -
  have "card (set (done @ [i])) \<le> card {..<length ary}"
    using assms(3) by (intro card_mono) auto
  then have len: "length done < length ary"
    using distinct_card [OF assms(2)] by simp
  let ?rs = "(results st)[i := Some (each (ary ! i))]"
  have rs: "?rs = map (\<lambda>j. if j \<in> set (done @ [i]) then Some (each (ary ! j)) else None) [0..<length ary]"
    using assms(1,3) by (intro nth_equalityI) (auto simp: map_progress_def nth_list_update)
  show ?thesis
    by (rule that [of "\<lparr>results = ?rs, next_state =
        (next_state st)\<lparr>count := length ary - Suc (length done),
          calls := (if Suc (length done) = length ary then [(None, Some ?rs)] else [])\<rparr>\<rparr>"])
      (use assms(1) len rs in \<open>auto simp: map_progress_def each_done_def after_proxy_def after_call_def Let_def\<close>)
qed

lemma async_map_progress:
  assumes "distinct order" "set order \<subseteq> {..<length ary}" "ary \<noteq> []"
  obtains st where "async_map order each ary = Inr st" "map_progress order each ary st"
proof -
  have "\<exists>st. async_map order each ary = Inr st \<and> map_progress order each ary st"
    using assms
  proof (induction order rule: rev_induct)
    case Nil
    then show ?case
      by (auto simp: async_map_def map_start_def after_def map_progress_def intro: nth_equalityI)
  next
    case (snoc i order)
    then obtain st where st: "async_map order each ary = Inr st" "map_progress order each ary st" by auto
    show ?case
      by (rule map_progress_step [OF st(2) snoc.prems(1,2)]) (use st(1) in \<open>auto simp: async_map_def\<close>)
  qed
  then show thesis using that by blast
qed

definition completion_order :: "nat list \<Rightarrow> 'p list \<Rightarrow> bool" where
  "completion_order order ary \<longleftrightarrow> distinct order \<and> set order = {..<length ary}"

lemma async_map_calls:
  assumes "completion_order order ary" "ary \<noteq> []"
  obtains st where "async_map order each ary = Inr st"
    "calls (next_state st) = [(None, Some (map (Some \<circ> each) ary))]"
proof -
  from assms obtain st where st: "async_map order each ary = Inr st" "map_progress order each ary st"
    by (metis async_map_progress completion_order_def order_refl)
  have "length order = length ary"
    using assms(1) distinct_card [of order] by (simp add: completion_order_def)
  moreover have "results st = map (Some \<circ> each) ary"
    using st(2) assms(1) by (intro nth_equalityI) (auto simp: map_progress_def completion_order_def)
  ultimately show ?thesis using that st by (simp add: map_progress_def)
qed

lemma map_async_map:
  assumes "completion_order order ary" "ary \<noteq> []"
  shows "bindE (async_map order each ary) (\<lambda>st. map_done f st g) = bindE (f (g (map (Some \<circ> each) ary))) (\<lambda>d. Inr [d])"
proof -
  obtain st where st: "async_map order each ary = Inr st"
    "calls (next_state st) = [(None, Some (map (Some \<circ> each) ary))]"
    by (rule async_map_calls [OF assms, of each])
  show ?thesis unfolding st(1) bindE.simps map_done_def st(2) by simp
qed

text \<open>
  Whatever the order in which the packets of a payload finish encoding, \<open>map\<close> calls back
  once, when the last of them has finished and not before, and with the messages in the order of
  the packets; \<open>after\<close> never throws.
\<close>

theorem map_any_order:
  assumes "completion_order order ary" "k \<le> length ary" "ary \<noteq> []"
  shows "\<exists>st. async_map (take k order) each ary = Inr st \<and>
           calls (next_state st) = (if k = length ary then [(None, Some (map (Some \<circ> each) ary))] else [])"
proof (cases "k = length ary")
  case True
  moreover have "length order = length ary"
    using assms(1) distinct_card [of order] by (simp add: completion_order_def)
  ultimately show ?thesis
    using async_map_calls [OF assms(1,3), of each] by (metis order_refl take_all)
next
  case False
  have "distinct (take k order)" "set (take k order) \<subseteq> {..<length ary}"
    using assms(1) by (auto simp: completion_order_def dest: in_set_takeD)
  then obtain st where st: "async_map (take k order) each ary = Inr st" "map_progress (take k order) each ary st"
    by (rule async_map_progress [OF _ _ assms(3)])
  moreover have "length (take k order) \<noteq> length ary" using False assms(2) by simp
  ultimately have "calls (next_state st) = []" by (simp only: map_progress_def if_False)
  with st(1) False show ?thesis by simp
qed

theorem map_any_order_witness:
  "\<exists>st. async_map (take 2 [1, 0]) (\<lambda>x. x + 1) [5, 6 :: nat] = Inr st \<and>
     calls (next_state st) = (if (2 :: nat) = length [5, 6 :: nat] then [(None, Some (map (Some \<circ> (\<lambda>x. x + 1)) [5, 6 :: nat]))] else [])"
  by (rule map_any_order) (auto simp: completion_order_def lessThan_Suc numeral_2_eq_2)

lemma encodeCodePoint_ascii:
  assumes "c < (0x80 :: jschar)"
  shows "encodeCodePoint (ucast c) = [c]"
proof -
  have "(ucast c :: 32 word) < 0x80"
    using assms by (simp add: word_less_nat_alt unsigned_ucast_eq take_bit_nat_eq_self)
  then show ?thesis by (simp add: encodeCodePoint_def fits_iff fits_less)
qed

lemma wtf8encode_ascii:
  assumes "c < 0x80"
  shows "wtf8encode (c # s) = c # wtf8encode s"
proof -
  have "\<not> 0xD800 \<le> c" using less_le_trans [OF assms, of "0xD800"] by auto
  then have "ucs2decode (c # s) = ucast c # ucs2decode s" by (cases s) auto
  then show ?thesis using encodeCodePoint_ascii [OF assms] by (simp add: wtf8encode_def)
qed

lemma packetslist_eq: "packetslist = [P_open, P_close, P_ping, P_pong, P_message, P_upgrade, P_noop]"
  by (simp add: packetslist_def keys_def packets_def)

lemma packet_code_simps:
  "packet_code P_open = [digit_char 0]" "packet_code P_close = [digit_char 1]" "packet_code P_ping = [digit_char 2]"
  "packet_code P_pong = [digit_char 3]" "packet_code P_message = [digit_char 4]"
  "packet_code P_upgrade = [digit_char 5]" "packet_code P_noop = [digit_char 6]"
  by (simp_all add: packet_code_def packets_def nat_digits.simps)

lemma packet_byte_simps:
  "packet_byte P_open = 0" "packet_byte P_close = 1" "packet_byte P_ping = 2" "packet_byte P_pong = 3"
  "packet_byte P_message = 4" "packet_byte P_upgrade = 5" "packet_byte P_noop = 6"
  by (simp_all add: packet_byte_def packets_def)

lemma packet_at_simps:
  "packet_at 0 = P_open" "packet_at 1 = P_close" "packet_at 2 = P_ping" "packet_at 3 = P_pong"
  "packet_at 4 = P_message" "packet_at 5 = P_upgrade" "packet_at 6 = P_noop"
  by (simp_all add: packet_at_def packetslist_eq)

lemma packet_at_inverse:
  assumes "t \<in> set packetslist"
  obtains n where "n < 7" "packet_at n = t" "packet_code t = [digit_char n]" "packet_byte t = of_nat n" "t \<noteq> P_undefined"
    "t \<noteq> P_error"
proof (cases t)
  case P_open then show ?thesis using that [of 0] by (simp add: packet_at_simps packet_code_simps packet_byte_simps)
next
  case P_close then show ?thesis using that [of 1] by (simp add: packet_at_simps [simplified] packet_code_simps packet_byte_simps)
next
  case P_ping then show ?thesis using that [of 2] by (simp add: packet_at_simps packet_code_simps packet_byte_simps)
next
  case P_pong then show ?thesis using that [of 3] by (simp add: packet_at_simps packet_code_simps packet_byte_simps)
next
  case P_message then show ?thesis using that [of 4] by (simp add: packet_at_simps packet_code_simps packet_byte_simps)
next
  case P_upgrade then show ?thesis using that [of 5] by (simp add: packet_at_simps packet_code_simps packet_byte_simps)
next
  case P_noop then show ?thesis using that [of 6] by (simp add: packet_at_simps packet_code_simps packet_byte_simps)
qed (use assms in \<open>simp_all add: packetslist_eq\<close>)

lemma digit_char_props:
  assumes "n < 10"
  shows "digit_char n < 0x80" "\<not> is_space (digit_char n)" "[digit_char n] \<noteq> lit ''b''" "digit_char n \<noteq> of_char (CHR '':'')"
    "unat (digit_char n) < 256"
  using assms unat_digit_char [OF assms] digit_bounds [OF is_digit_char [OF assms]]
  by (auto simp: word_less_nat_alt lit_def)

lemma js_Number_digit: "n < 10 \<Longrightarrow> js_Number [digit_char n] = js_nat n"
  using js_Number_String [OF num_wf_nat [of n]] js_String_nat [of n] by (simp add: nat_digits.simps)

lemma js_nat_not_NaN: "js_nat n \<noteq> NumNaN"
  by (auto simp: js_nat_def decimal_def split: prod.splits)

lemma packet_of_digit: "n < 10 \<Longrightarrow> packet_of_char [digit_char n] = packet_at n"
  by (simp add: packet_of_char_def)

text \<open>What arrives of a blob is its bytes.\<close>

fun transferred :: "eio_data \<Rightarrow> eio_data" where
  "transferred (BlobOf b) = Buffer b"
| "transferred d = d"

definition received :: "eio_env \<Rightarrow> bool \<Rightarrow> eio_packet \<Rightarrow> eio_packet" where
  "received env blobType p = p\<lparr>edata := (case edata p of
       Text s \<Rightarrow> if s = [] then NoData else Text s
     | Buffer b \<Rightarrow> if blob_api env \<and> blobType then BlobOf b else Buffer b
     | BlobOf b \<Rightarrow> if blob_api env \<and> blobType then BlobOf b else Buffer b
     | d \<Rightarrow> d)\<rparr>"

text \<open>The packets of the protocol: a browser with buffers has the base 64 decoder, one with blobs a blob api.\<close>

definition sendable :: "eio_env \<Rightarrow> eio_packet \<Rightarrow> bool" where
  "sendable env p \<longleftrightarrow> base64encoder env \<and> etype p \<in> set packetslist \<and>
     (case edata p of Base64Obj _ \<Rightarrow> False | BlobOf _ \<Rightarrow> blob_api env | _ \<Rightarrow> True)"

lemma decodeText_packet:
  assumes "n < 7"
  shows "decodeText (digit_char n # s) = \<lparr>etype = packet_at n, edata = (if s = [] then NoData else Text s)\<rparr>"
proof -
  have "packet_at n \<noteq> P_undefined"
    using assms by (auto simp: packet_at_def packetslist_eq nth_Cons' split: if_splits)
  moreover have "js_Number [digit_char n] \<noteq> NumNaN"
    using assms js_Number_digit [of n] js_nat_not_NaN [of n] by simp
  ultimately show ?thesis
    using assms by (simp add: decodeText_def Let_def packet_of_digit)
qed

lemma decodePacket_text:
  assumes "n < 7"
  shows "decodePacket env bt u (Text (digit_char n # (if u then wtf8encode s else s))) =
    \<lparr>etype = packet_at n, edata = (if s = [] then NoData else Text s)\<rparr>"
proof -
  have "digit_char n # wtf8encode s = wtf8encode (digit_char n # s)"
    using assms digit_char_props [of n] by (simp add: wtf8encode_ascii)
  then show ?thesis
    using assms digit_char_props [of n] decodeText_packet [OF assms, of s]
    by (simp add: tryDecode_def wtf8decode_encode)
qed

lemma decodePacket_base64:
  assumes "n < 7" "base64encoder env"
  shows "decodePacket env bt u (Text (lit ''b'' @ digit_char n # rfc4648 b)) =
    \<lparr>etype = packet_at n, edata = (if blob_api env \<and> bt then BlobOf b else Buffer b)\<rparr>"
  using assms
  by (simp add: lit_def decodeBase64Packet_def packet_of_digit rfc4648_eq_encode base64_decode_encode)

lemma decodePacket_buffer:
  assumes "n < 7"
  shows "decodePacket env bt u (Buffer (of_nat n # b)) =
    \<lparr>etype = packet_at n, edata = (if blob_api env \<and> bt then BlobOf b else Buffer b)\<rparr>"
proof -
  have "unat (of_nat n :: 8 word) = n" using assms by (simp add: unat_of_nat)
  then show ?thesis
    using sliceBuffer_from [of "native_slice env" "of_nat n # b" 1] by simp
qed

lemma encodePacket_cases:
  assumes "sendable env p"
  obtains (string) s where "edata p = (if s = [] then NoData else Text s) \<or> edata p = Text s"
      "encodePacket env sb u p = Text (packet_code (etype p) @ (if u then wtf8encode s else s))"
    | (base64) b where "edata p = Buffer b \<or> edata p = BlobOf b" "\<not> sb"
      "encodePacket env sb u p = Text (lit ''b'' @ packet_code (etype p) @ rfc4648 b)"
    | (buffer) b where "edata p = Buffer b \<or> edata p = BlobOf b" "sb"
      "transferred (encodePacket env sb u p) = Buffer (packet_byte (etype p) # b)"
proof (cases "edata p")
  case NoData
  then show ?thesis
    using string [of "[]"] by (simp add: encodePacket_def encodeText_def wtf8encode_def)
next
  case (Text s)
  then show ?thesis using string [of s] by (simp add: encodePacket_def encodeText_def)
next
  case (Buffer b)
  then show ?thesis
    using base64 [of b] buffer [of b]
    by (cases sb) (simp_all add: encodePacket_def encodeArrayBuffer_def encodeBase64Packet_def)
next
  case (BlobOf b)
  with assms have "blob_api env" by (simp add: sendable_def)
  with BlobOf show ?thesis
    using base64 [of b] buffer [of b]
    by (cases sb) (simp_all add: encodePacket_def encodeBlob_def encodeBlobAsArrayBuffer_def
        encodeArrayBuffer_def encodeBase64Packet_def)
qed (use assms in \<open>simp add: sendable_def\<close>)

lemma decode_encodePacket:
  assumes "sendable env p"
  shows "decodePacket env bt u (transferred (encodePacket env sb u p)) = received env bt p"
proof -
  obtain n where n: "n < 7" "packet_at n = etype p" "packet_code (etype p) = [digit_char n]"
      "packet_byte (etype p) = of_nat n"
    using assms packet_at_inverse [of "etype p"] by (auto simp: sendable_def)
  have env: "base64encoder env" using assms by (simp add: sendable_def)
  have p: "p = \<lparr>etype = etype p, edata = edata p\<rparr>" by simp
  from assms show ?thesis
  proof (cases rule: encodePacket_cases [where sb = sb and u = u])
    case (string s)
    then have "received env bt p = \<lparr>etype = packet_at n, edata = (if s = [] then NoData else Text s)\<rparr>"
      using n(2) by (cases p) (auto simp: received_def split: if_splits)
    then show ?thesis using decodePacket_text [OF n(1), of env bt u s] n(3) string(2) by simp
  next
    case (base64 b)
    then show ?thesis
      using decodePacket_base64 [OF n(1) env, of bt u b] n
      by (cases p) (auto simp: received_def)
  next
    case (buffer b)
    then show ?thesis
      using decodePacket_buffer [OF n(1), of env bt u b] n
      by (cases p) (auto simp: received_def)
  qed
qed

text \<open>
  A packet survives the parser: decoding what \<open>encodePacket\<close> makes of it, as text, as a
  buffer or as base 64, with or without WTF-8, gives the packet back, its binary data in the form
  the receiver asks for.
\<close>

theorem eio_packet_roundtrip:
  assumes "sendable env p"
  shows "decodePacket env blobType utf8 (transferred (encodePacket env supportsBinary utf8 p)) = received env blobType p"
  by (rule decode_encodePacket [OF assms])

definition full_env :: eio_env where
  "full_env = \<lparr>blob_api = True, dontSendBlobs = False, base64encoder = True, native_slice = False\<rparr>"

theorem eio_packet_roundtrip_witness:
  "decodePacket full_env False True (transferred (encodePacket full_env True True \<lparr>etype = P_message, edata = BlobOf [1, 2]\<rparr>))
    = \<lparr>etype = P_message, edata = Buffer [1, 2]\<rparr>"
  by (subst eio_packet_roundtrip) (simp_all add: sendable_def full_env_def packetslist_eq received_def)

declare decode_payload_loop.simps [simp del] decodePacket.simps [simp del] decodePayload.simps [simp del]

lemma completion_order_code: "completion_order order ary \<longleftrightarrow> distinct order \<and> set order = set [0..<length ary]"
  by (simp add: completion_order_def atLeast0LessThan)

lemma payload_loop_header:
  assumes "of_char (CHR '':'') \<notin> set ds"
  shows "decode_payload_loop env bt cb l i len (ds @ s) st = decode_payload_loop env bt cb l (i + length ds) (len @ ds) s st"
  using assms by (induction ds arbitrary: i len) (auto simp: decode_payload_loop.simps)

lemma js_substr_nat: "n < 2 ^ 53 \<Longrightarrow> js_substr s (js_nat n) = take n s"
proof (cases "n = 0")
  case True
  then show ?thesis by (simp add: js_nat_def js_substr_def)
next
  case False
  assume n: "n < 2 ^ 53"
  obtain m e where st: "strip_zeros (int n) 0 = (m, e)" by fastforce
  have "int n < float_limit_int" using n by (simp add: float_limit_int_def)
  then have "js_nat n = Decimal m e"
    using st by (simp add: js_nat_def decimal_def overflows_def underflows_def)
  moreover obtain k where "int n = m * 10 ^ k" "e = int k"
    using strip_zeros_value [OF _ st] False by auto
  ultimately show ?thesis by (simp add: js_substr_def) (metis nat_int)
qed

lemma js_Number_nat_digits: "n < 2 ^ 53 \<Longrightarrow> js_Number (nat_digits n) = js_nat n"
  using js_Number_String [OF num_wf_nat [of n]] js_String_nat [of n] by simp

lemma colon_not_digit: "of_char (CHR '':'') \<notin> set (nat_digits n)"
  by (auto dest: nat_digits_digits simp: is_digit_def)

text \<open>What the decoder does with a payload of well-formed messages.\<close>

fun deliver :: "eio_env \<Rightarrow> bool \<Rightarrow> 's payload_callback \<Rightarrow> nat \<Rightarrow> nat \<Rightarrow> jsstr list \<Rightarrow> 's \<Rightarrow> 's" where
  "deliver env bt cb l i [] st = st"
| "deliver env bt cb l i (m # ms) st =
     (let e = i + length (nat_digits (length m)) + length m in
      case cb (decodePacket env bt True (Text m)) e l st of (st', continue) \<Rightarrow>
        if \<not> continue then st' else deliver env bt cb l (e + 1) ms st')"

definition good_message :: "eio_env \<Rightarrow> bool \<Rightarrow> jsstr \<Rightarrow> bool" where
  "good_message env bt m \<longleftrightarrow> m \<noteq> [] \<and> length m < 2 ^ 53 \<and> decodePacket env bt True (Text m) \<noteq> err"

lemma payload_loop_message:
  assumes "good_message env bt m"
  shows "decode_payload_loop env bt cb l i [] (setLengthHeader m @ s) st =
    (let e = i + length (nat_digits (length m)) + length m in
      case cb (decodePacket env bt True (Text m)) e l st of (st', continue) \<Rightarrow>
        if \<not> continue then st' else decode_payload_loop env bt cb l (e + 1) [] s st')"
proof -
  have m: "m \<noteq> []" "length m < 2 ^ 53" "decodePacket env bt True (Text m) \<noteq> err"
    using assms by (auto simp: good_message_def)
  have "decode_payload_loop env bt cb l i [] (setLengthHeader m @ s) st =
      decode_payload_loop env bt cb l (i + length (nat_digits (length m))) (nat_digits (length m))
        (of_char (CHR '':'') # m @ s) st"
    using payload_loop_header [OF colon_not_digit, where len = "[]"] by (simp add: setLengthHeader_def lit_def)
  also have "\<dots> = (let e = i + length (nat_digits (length m)) + length m in
      case cb (decodePacket env bt True (Text m)) e l st of (st', continue) \<Rightarrow>
        if \<not> continue then st' else decode_payload_loop env bt cb l (e + 1) [] s st')"
    using m by (simp add: decode_payload_loop.simps js_Number_nat_digits js_substr_nat js_nat_not_NaN Let_def
        split: prod.splits)
  finally show ?thesis .
qed

lemma payload_loop_deliver:
  assumes "list_all (good_message env bt) ms"
  shows "decode_payload_loop env bt cb l i [] (concat (map setLengthHeader ms)) st = deliver env bt cb l i ms st"
  using assms
proof (induction ms arbitrary: i st)
  case Nil
  then show ?case by (simp add: decode_payload_loop.simps)
next
  case (Cons m ms)
  then show ?case by (simp add: payload_loop_message Let_def split: prod.splits)
qed

lemma decodePayload_deliver:
  assumes "list_all (good_message env bt) ms" "ms \<noteq> []"
  shows "decodePayload env bt cb (Text (concat (map setLengthHeader ms))) st =
    Inr (deliver env bt cb (length (concat (map setLengthHeader ms))) 0 ms st)"
proof -
  have "concat (map setLengthHeader ms) \<noteq> []"
    using assms(2) by (cases ms) (auto simp: setLengthHeader_def)
  then show ?thesis
    unfolding decodePayload.simps by (simp only: if_False payload_loop_deliver [OF assms(1)])
qed

definition collect :: "eio_packet list payload_callback" where
  "collect p i l st = (st @ [p], True)"

lemma deliver_collect: "deliver env bt collect l i ms st = st @ map (decodePacket env bt True \<circ> Text) ms"
  by (induction ms arbitrary: i st) (simp_all add: collect_def Let_def)

subsection \<open>Payloads survive\<close>

lemma packets_binary_iff:
  "packets_binary ps \<longleftrightarrow> (\<exists>p \<in> set ps. case edata p of Buffer _ \<Rightarrow> True | BlobOf _ \<Rightarrow> True | _ \<Rightarrow> False)"
proof -
  have "hasBinary (jsval_of_data d) \<longleftrightarrow> (case d of Buffer _ \<Rightarrow> True | BlobOf _ \<Rightarrow> True | _ \<Rightarrow> False)" for d
    by (cases d) simp_all
  then show ?thesis by (auto simp: packets_binary_def list_ex_iff)
qed

definition message_of :: "eio_env \<Rightarrow> eio_packet \<Rightarrow> jsstr" where
  "message_of env p = text_of (encodePacket env False True p)"

definition payload_ok :: "eio_env \<Rightarrow> eio_packet list \<Rightarrow> bool" where
  "payload_ok env ps \<longleftrightarrow> ps \<noteq> [] \<and> list_all (sendable env) ps \<and>
     list_all (\<lambda>p. length (message_of env p) < 2 ^ 53 \<and>
       length (snd (frame_parts (encodePacket env True True p))) < 2 ^ 53) ps"

lemma received_not_err: "sendable env p \<Longrightarrow> received env bt p \<noteq> err"
proof -
  assume "sendable env p"
  then have "etype p \<noteq> P_error" by (auto simp: sendable_def packetslist_eq)
  moreover have "etype (received env bt p) = etype p" "etype err = P_error"
    by (simp_all add: received_def err_def)
  ultimately show ?thesis by metis
qed

lemma encodePacket_message:
  assumes "sendable env p"
  shows "encodePacket env False True p = Text (message_of env p)" "message_of env p \<noteq> []"
proof -
  have "packet_code (etype p) \<noteq> []"
    by (rule packet_at_inverse [of "etype p"]) (use assms in \<open>simp_all add: sendable_def\<close>)
  moreover have "\<exists>m. encodePacket env False True p = Text m \<and> (packet_code (etype p) \<noteq> [] \<longrightarrow> m \<noteq> [])"
    using assms
  proof (cases rule: encodePacket_cases [where sb = False and u = True])
    case (string s)
    show ?thesis unfolding string(2) by auto
  next
    case (base64 b)
    show ?thesis unfolding base64(3) by auto
  next
    case (buffer b)
    then show ?thesis by simp
  qed
  ultimately obtain m where "encodePacket env False True p = Text m" "m \<noteq> []" by blast
  then show "encodePacket env False True p = Text (message_of env p)" "message_of env p \<noteq> []"
    by (simp_all add: message_of_def)
qed

lemma decode_message:
  assumes "sendable env p"
  shows "decodePacket env bt True (Text (message_of env p)) = received env bt p"
  using decode_encodePacket [OF assms, of bt True False] encodePacket_message [OF assms] by simp

lemma payload_ok_messages:
  assumes "payload_ok env ps"
  shows "list_all (good_message env bt) (map (message_of env) ps)"
  using assms
  by (auto simp: payload_ok_def list_all_iff good_message_def decode_message received_not_err encodePacket_message(2))

lemma encodePayload_text:
  assumes "completion_order order ps" "payload_ok env ps" "\<not> (sb \<and> packets_binary ps)"
  shows "encodePayload env order sb ps = Inr [Text (concat (map (setLengthHeader \<circ> message_of env) ps))]"
proof -
  have ne: "ps \<noteq> []" using assms(2) by (simp add: payload_ok_def)
  have "(if \<not> packets_binary ps then False else sb) = False" "\<not> (sb \<and> packets_binary ps)"
    using assms(3) by auto
  then have "encodePayload env order sb ps =
      bindE (async_map order (setLengthHeader \<circ> message_of env) ps) (\<lambda>st. map_done (\<lambda>s. Inr (Text s)) st join_results)"
    using ne by (simp only: encodePayload_def Let_def if_False message_of_def comp_def simp_thms)
  also have "\<dots> = Inr [Text (concat (map (setLengthHeader \<circ> message_of env) ps))]"
    by (simp add: map_async_map [OF assms(1) ne] join_results_def comp_def)
  finally show ?thesis .
qed

lemma text_payload_roundtrip:
  assumes "completion_order order ps" "payload_ok env ps" "\<not> (sb \<and> packets_binary ps)"
  shows "\<exists>w. encodePayload env order sb ps = Inr [Text w] \<and>
    decodePayload env bt collect (Text w) [] = Inr (map (received env bt) ps)"
proof -
  have "map (decodePacket env bt True \<circ> Text) (map (message_of env) ps) = map (received env bt) ps"
    using assms(2) by (auto simp: payload_ok_def list_all_iff decode_message)
  moreover have ne: "map (message_of env) ps \<noteq> []" using assms(2) by (simp add: payload_ok_def)
  ultimately have "decodePayload env bt collect (Text (concat (map (setLengthHeader \<circ> message_of env) ps))) [] =
      Inr (map (received env bt) ps)"
    using decodePayload_deliver [OF payload_ok_messages [OF assms(2)] ne, of bt collect "[]"]
    by (simp only: deliver_collect map_map append_Nil)
  with encodePayload_text [OF assms] show ?thesis by blast
qed

subsection \<open>Binary payloads survive\<close>

lemma read_length_digits:
  assumes "all_digits ds" "length acc + length ds \<le> 310"
  shows "read_length (map (\<lambda>c. of_nat (digit_val c)) ds @ 255 # s) acc = Some (acc @ ds)"
  using assms
proof (induction ds arbitrary: acc)
  case (Cons c ds)
  have c: "is_digit c" "all_digits ds" using Cons.prems(1) by (auto simp: all_digits_def)
  then have v: "digit_val c < 10" by (auto simp: is_digit_def digit_val_def word_le_nat_alt)
  have "unat (of_nat (digit_val c) :: 8 word) = digit_val c" using v by (simp add: unat_of_nat)
  moreover have "nat_digits (digit_val c) = [c]"
    using v c(1) by (auto simp: nat_digits.simps digit_char_def digit_val_def is_digit_def word_le_nat_alt word_unat_eq_iff unat_of_nat)
  moreover have "(of_nat (digit_val c) :: 8 word) \<noteq> 255"
    using v by (auto simp: word_unat_eq_iff unat_of_nat)
  ultimately show ?case using Cons.IH [of "acc @ [c]"] Cons.prems(2) c(2) by simp
qed simp

definition unframed :: "eio_data \<Rightarrow> eio_data" where
  "unframed p = (case p of BlobOf b \<Rightarrow> Buffer b | _ \<Rightarrow> p)"

definition framable :: "eio_data \<Rightarrow> bool" where
  "framable p \<longleftrightarrow> snd (frame_parts p) \<noteq> [] \<and> length (snd (frame_parts p)) < 2 ^ 53 \<and>
     (case p of Text s \<Rightarrow> \<forall>c \<in> set s. c < 0x100 | Buffer _ \<Rightarrow> True | BlobOf _ \<Rightarrow> True | _ \<Rightarrow> False)"

lemma parseInt_nat_digits: "parseInt (nat_digits n) = Some (int n)"
  by (simp add: parseInt_def)

lemma byte_of_char: "c < 0x100 \<Longrightarrow> ucast (ucast (c :: jschar) :: 8 word) = c"
proof -
  assume "c < 0x100"
  then have "take_bit 8 c = c" by (simp add: take_bit_self_iff)
  then show ?thesis by transfer simp
qed

lemma split_frame:
  assumes "framable p"
  shows "split_buffers native (frame p @ s) bufs = split_buffers native s (bufs @ [unframed p])"
proof -
  obtain flag b where fb: "frame_parts p = (flag, b)" by fastforce
  have b: "b \<noteq> []" "length b < 2 ^ 53" using assms fb by (auto simp: framable_def)
  then have "length (nat_digits (length b)) \<le> 16"
    by (intro length_nat_digits) simp_all
  then have len: "read_length (tl (frame p @ s)) [] = Some (nat_digits (length b))"
    using read_length_digits [of "nat_digits (length b)" "[]" "b @ s"] by (simp add: frame_def fb length_bytes_def)
  have rest: "sliceBuffer native (frame p @ s) (Some (2 + int (length (nat_digits (length b))))) None = b @ s"
    using sliceBuffer_from [of native "frame p @ s" "2 + length (nat_digits (length b))"]
    by (simp add: frame_def fb length_bytes_def)
  have item: "(if flag = 0 then Text (map ucast b) else Buffer b) = unframed p"
    using assms fb by (cases p) (auto simp: unframed_def framable_def map_idI byte_of_char)
  have "hd (frame p @ s) = flag" "frame p \<noteq> []" by (simp_all add: frame_def fb)
  then have "split_buffers native (frame p @ s) bufs =
      split_buffers native s (bufs @ [if flag = 0 then Text (map ucast b) else Buffer b])"
    using len rest b(1)
    by (simp add: split_buffers.simps [of native "frame p @ s"] parseInt_nat_digits Let_def sliceBuffer_prefix)
  then show ?thesis using item by simp
qed

lemma split_frames:
  "list_all framable ms \<Longrightarrow> split_buffers native (concat (map frame ms)) bufs = Some (bufs @ map unframed ms)"
proof (induction ms arbitrary: bufs)
  case Nil
  then show ?case by (simp add: split_buffers.simps)
next
  case (Cons m ms)
  then show ?case by (simp add: split_frame)
qed

lemma fold_collect:
  "fold (\<lambda>(i, b) st. fst (collect (f b) i n st)) (enumerate k bs) st = st @ map f bs"
  by (induction bs arbitrary: k st) (simp_all add: collect_def)

lemma decodePayload_frames:
  assumes "list_all framable ms"
  shows "decodePayload env bt collect (Buffer (concat (map frame ms))) [] =
    Inr (map (decodePacket env bt True \<circ> unframed) ms)"
  using split_frames [OF assms, of "native_slice env" "[]"]
  by (simp add: decodePayload.simps decodePayloadAsBinary_def fold_collect)

lemma total_length_frames: "total_length ms = length (concat (map frame ms))"
proof -
  have "foldl (\<lambda>acc p. let len = length (snd (frame_parts p)) in acc + length (nat_digits len) + len + 2) n ms =
      n + length (concat (map frame ms))" for n
    by (induction ms arbitrary: n) (simp_all add: Let_def frame_def length_bytes_def split: prod.splits)
  then show ?thesis by (simp add: total_length_def)
qed

lemma wtf8encode_bytes: "c \<in> set (wtf8encode s) \<Longrightarrow> c < 0x100"
  by (auto simp: wtf8encode_def dest: encodeCodePoint_lt [OF ucs2decode_range])

lemma packet_code_digit: "t \<in> set packetslist \<Longrightarrow> \<exists>n<7. packet_code t = [digit_char n]"
  by (rule packet_at_inverse [of t]) auto

lemma encodePacket_binary:
  assumes "sendable env p" "length (snd (frame_parts (encodePacket env True True p))) < 2 ^ 53"
  shows "framable (encodePacket env True True p)"
    "decodePacket env bt True (unframed (encodePacket env True True p)) = received env bt p"
proof -
  obtain n where n: "n < 7" "packet_code (etype p) = [digit_char n]"
    using assms(1) packet_code_digit [of "etype p"] by (auto simp: sendable_def)
  have d: "digit_char n < 0x100" using digit_char_props(5) [of n] n(1) by (simp add: word_less_nat_alt)
  have "framable (encodePacket env True True p) \<and> unframed (encodePacket env True True p) = transferred (encodePacket env True True p)"
    using assms(1)
  proof (cases rule: encodePacket_cases [where sb = True and u = True])
    case (string s)
    have e: "encodePacket env True True p = Text (digit_char n # wtf8encode s)" using string(2) n(2) by simp
    show ?thesis
      using assms(2) d unfolding e by (auto simp: framable_def unframed_def dest: wtf8encode_bytes)
  next
    case (buffer b)
    then show ?thesis
      using assms(2) by (cases "encodePacket env True True p") (auto simp: framable_def unframed_def)
  qed simp
  then show "framable (encodePacket env True True p)"
    "decodePacket env bt True (unframed (encodePacket env True True p)) = received env bt p"
    using decode_encodePacket [OF assms(1), of bt True True] by simp_all
qed

lemma encodePacket_no_blob:
  "\<not> (blob_api env \<and> \<not> dontSendBlobs env) \<Longrightarrow> sendable env p \<Longrightarrow>
     (case encodePacket env True True p of Text _ \<Rightarrow> True | Buffer _ \<Rightarrow> True | _ \<Rightarrow> False)"
  by (cases "edata p")
    (auto simp: encodePacket_def encodeText_def encodeArrayBuffer_def encodeBlob_def encodeBlobAsArrayBuffer_def sendable_def)

lemma payload_ok_frames:
  assumes "payload_ok env ps"
  shows "list_all framable (map (encodePacket env True True) ps)"
    "map (decodePacket env bt True \<circ> unframed) (map (encodePacket env True True) ps) = map (received env bt) ps"
  using assms by (auto simp: payload_ok_def list_all_iff encodePacket_binary)

lemma binary_payload_frames:
  assumes "completion_order order ps" "payload_ok env ps" "packets_binary ps"
  shows "\<exists>w. encodePayload env order True ps = Inr [w] \<and>
    transferred w = Buffer (concat (map frame (map (encodePacket env True True) ps)))"
proof -
  have ne: "ps \<noteq> []" using assms(2) by (simp add: payload_ok_def)
  let ?ms = "map (encodePacket env True True) ps"
  show ?thesis
  proof (cases "blob_api env \<and> \<not> dontSendBlobs env")
    case True
    have "encodePayload env order True ps = Inr [BlobOf (concat (map frame ?ms))]"
      using True assms(3) ne
      by (simp add: encodePayload_def encodePayloadAsBlob_def map_async_map [OF assms(1) ne] blob_of_frames_def comp_def)
    then show ?thesis by simp
  next
    case False
    have all: "list_all (\<lambda>r. case r of Some (Text _) \<Rightarrow> True | Some (Buffer _) \<Rightarrow> True | _ \<Rightarrow> False)
        (map (Some \<circ> encodePacket env True True) ps)"
      using assms(2) encodePacket_no_blob [OF False] unfolding payload_ok_def list_all_iff
      by (fastforce split: eio_data.splits)
    have "map the (map (Some \<circ> encodePacket env True True) ps) = ?ms"
      "map (frame \<circ> the) (map (Some \<circ> encodePacket env True True) ps) = map frame ?ms" by simp_all
    then have "concat_buffers (map (Some \<circ> encodePacket env True True) ps) = Inr (Buffer (concat (map frame ?ms)))"
      using all by (simp only: concat_buffers_def total_length_frames fill_array_def if_True) simp
    then have "encodePayload env order True ps = Inr [Buffer (concat (map frame ?ms))]"
      using False assms(3) ne
      by (auto simp: encodePayload_def encodePayloadAsArrayBuffer_def map_async_map [OF assms(1) ne])
    then show ?thesis by simp
  qed
qed

lemma payload_arrives:
  assumes "completion_order order ps" "payload_ok env ps"
  shows "\<exists>w. encodePayload env order supportsBinary ps = Inr [w] \<and>
    decodePayload env blobType collect (transferred w) [] = Inr (map (received env blobType) ps)"
proof (cases "supportsBinary \<and> packets_binary ps")
  case True
  then obtain w where w: "encodePayload env order supportsBinary ps = Inr [w]"
    "transferred w = Buffer (concat (map frame (map (encodePacket env True True) ps)))"
    using binary_payload_frames [OF assms] by auto
  moreover have "decodePayload env blobType collect (Buffer (concat (map frame (map (encodePacket env True True) ps)))) [] =
      Inr (map (received env blobType) ps)"
    using decodePayload_frames [OF payload_ok_frames(1) [OF assms(2)]]
    by (simp only: payload_ok_frames(2) [OF assms(2)])
  ultimately show ?thesis by metis
next
  case False
  then show ?thesis using text_payload_roundtrip [OF assms False] by force
qed

text \<open>
  C6. A payload arrives, as text, as one buffer or as one blob: whatever the order in which its
  packets finish encoding, \<open>encodePayload\<close> calls back once, with a value that \<open>decodePayload\<close> takes
  apart into exactly the packets, in order.
\<close>

theorem eio_payload_roundtrip:
  assumes "completion_order order ps" "payload_ok env ps"
  shows "\<exists>w. encodePayload env order supportsBinary ps = Inr [w] \<and>
    decodePayload env blobType collect (transferred w) [] = Inr (map (received env blobType) ps)"
  by (rule payload_arrives [OF assms])

theorem eio_payload_roundtrip_witness:
  "\<exists>w. encodePayload full_env [1, 0] True [\<lparr>etype = P_message, edata = Buffer [7]\<rparr>, \<lparr>etype = P_ping, edata = NoData\<rparr>] = Inr [w] \<and>
    decodePayload full_env False collect (transferred w) [] =
      Inr (map (received full_env False) [\<lparr>etype = P_message, edata = Buffer [7]\<rparr>, \<lparr>etype = P_ping, edata = NoData\<rparr>])"
  by (rule eio_payload_roundtrip)
    (auto simp: completion_order_code payload_ok_def sendable_def full_env_def packetslist_eq
      message_of_def encodePacket_def encodeText_def encodeArrayBuffer_def encodeBase64Packet_def packet_code_simps
      rfc4648_def octet_bits_def wtf8encode_def Let_def lit_def)

text \<open>
  \<open>sliceBuffer\<close> without \<open>ArrayBuffer.prototype.slice\<close> copies the same bytes as with it,
  whatever the end is and for every start that does not lie before the buffer.
\<close>

theorem sliceBuffer_equiv:
  assumes "- int (length b) \<le> (case start of Some x \<Rightarrow> x | None \<Rightarrow> 0)"
  shows "sliceBuffer False b start end' = sliceBuffer True b start end'"
  by (rule sliceBuffer_eq_array [OF assms])

theorem sliceBuffer_equiv_witness:
  "sliceBuffer False [1, 2, 3, 4] (Some (-3)) (Some (-1)) = [2, 3]"
  by (subst sliceBuffer_equiv) (simp_all add: sliceBuffer_def array_slice_def clamp_def)

text \<open>
  The length of a message is only compared with \<open>!=\<close>, so every string that converts to the right
  number is a length; and a message of length 0 in a binary payload is read as the whole rest,
  because \<open>sliceBuffer\<close> takes an end of 0 for a missing one.
\<close>

lemma hexadecimal_length:
  "decodePayload full_env False collect (Text (lit ''0x3:4ab'')) [] = Inr [\<lparr>etype = P_message, edata = Text (lit ''ab'')\<rparr>]"
  by code_simp

lemma empty_frame_swallows:
  "split_buffers True [0, 0, 255, 1, 1, 255, 9] [] = Some [Text [1, 1, 255, 9], Buffer [9]]"
  by code_simp

subsection \<open>Any callback that goes on\<close>

lemma deliver_fold:
  assumes "\<And>m i st. m \<in> set ms \<Longrightarrow> cb (decodePacket env bt True (Text m)) i l st = (f (decodePacket env bt True (Text m)) st, True)"
  shows "deliver env bt cb l i ms st = fold f (map (decodePacket env bt True \<circ> Text) ms) st"
  using assms by (induction ms arbitrary: i st) (simp_all add: Let_def)

lemma fold_deliver:
  assumes "\<And>b i st. b \<in> set bs \<Longrightarrow> cb (g b) i n st = (f (g b) st, True)"
  shows "fold (\<lambda>(i, b) st. fst (cb (g b) i n st)) (enumerate k bs) st = fold f (map g bs) st"
  using assms by (induction bs arbitrary: k st) simp_all

lemma decodePayload_fold:
  assumes "completion_order order ps" "payload_ok env ps" "encodePayload env order sb ps = Inr [w]"
    and cb: "\<And>p i l st. p \<in> set ps \<Longrightarrow> cb (received env bt p) i l st = (f (received env bt p) st, True)"
  shows "decodePayload env bt cb (transferred w) st = Inr (fold f (map (received env bt) ps) st)"
proof (cases "sb \<and> packets_binary ps")
  case True
  let ?ms = "map (encodePacket env True True) ps"
  let ?bs = "map unframed ?ms"
  obtain w' where w': "encodePayload env order True ps = Inr [w']" "transferred w' = Buffer (concat (map frame ?ms))"
    using binary_payload_frames [OF assms(1,2)] True by blast
  then have w: "transferred w = Buffer (concat (map frame ?ms))" using assms(3) True by simp
  have ms: "map (decodePacket env bt True) (map unframed ?ms) = map (received env bt) ps"
    using payload_ok_frames(2) [OF assms(2), of bt] by simp
  have "cb (decodePacket env bt True b) i l st = (f (decodePacket env bt True b) st, True)"
    if "b \<in> set (map unframed ?ms)" for b i l st
  proof -
    have "decodePacket env bt True b \<in> set (map (received env bt) ps)"
      using that unfolding ms [symmetric] by (metis image_eqI list.set_map)
    then show ?thesis using cb by auto
  qed
  then have "fold (\<lambda>(i, b) st. fst (cb (decodePacket env bt True b) i (length ?bs) st)) (enumerate 0 ?bs) st =
      fold f (map (decodePacket env bt True) ?bs) st"
    by (rule fold_deliver)
  then show ?thesis
    using split_frames [OF payload_ok_frames(1) [OF assms(2)], of "native_slice env" "[]"]
    unfolding w decodePayload.simps decodePayloadAsBinary_def by (simp add: ms del: map_map)
next
  case False
  let ?ms = "map (message_of env) ps"
  have w: "w = Text (concat (map setLengthHeader ?ms))"
    using encodePayload_text [OF assms(1,2) False] assms(3) by simp
  have ne: "?ms \<noteq> []" using assms(2) by (simp add: payload_ok_def)
  have decoded: "decodePacket env bt True (Text (message_of env p)) = received env bt p" if "p \<in> set ps" for p
    using assms(2) that by (simp add: payload_ok_def list_all_iff decode_message)
  then have ms: "map (decodePacket env bt True \<circ> Text) ?ms = map (received env bt) ps" by simp
  have "cb (decodePacket env bt True (Text m)) i l st = (f (decodePacket env bt True (Text m)) st, True)"
    if "m \<in> set ?ms" for m i l st
    using that decoded cb by auto
  then have "deliver env bt cb l i ?ms st = fold f (map (decodePacket env bt True \<circ> Text) ?ms) st" for l i
    by (rule deliver_fold)
  then show ?thesis
    using decodePayload_deliver [OF payload_ok_messages [OF assms(2)] ne, of bt cb st]
    unfolding w transferred.simps ms by simp
qed

lemma decode_payload_loop_preserves:
  assumes cb: "\<And>p i st. I st \<Longrightarrow> I (fst (cb p i l st))" "\<And>st. I st \<Longrightarrow> I (fst (cb err 0 1 st))" and "I st"
  shows "I (decode_payload_loop env bt cb l i len s st)"
  using \<open>I st\<close>
proof (induction "length s" arbitrary: s i len st rule: less_induct)
  case less
  show ?case
  proof (cases s)
    case Nil
    then show ?thesis using less.prems cb by (simp add: decode_payload_loop.simps)
  next
    case (Cons chr rest)
    let ?m = "js_substr rest (js_Number len)"
    obtain st' c where r: "cb (decodePacket env bt True (Text ?m)) (i + length ?m) l st = (st', c)" by fastforce
    have "I st'" using cb(1) [OF less.prems] r by (metis fst_conv)
    moreover have "I (decode_payload_loop env bt cb l i' len' (drop k rest) st'')" if "I st''" for i' len' k st''
      by (rule less.hyps) (use that Cons in auto)
    note this this [of _ _ _ 0, unfolded drop_0]
    ultimately show ?thesis
      using less.prems cb r unfolding Cons decode_payload_loop.simps(2) Let_def
      by (simp only: prod.case split: if_split) blast
  qed
qed

lemma decodePayload_preserves:
  assumes "\<And>p i l st. I st \<Longrightarrow> I (fst (cb p i l st))" "I st" "decodePayload env bt cb data st = Inr st'"
  shows "I st'"
proof -
  have "I (fold (\<lambda>(i, b) st. fst (cb (f b) i n st)) (enumerate k bs) st)" for f n k and bs :: "eio_data list"
    using assms(2) by (induction bs arbitrary: k st) (simp_all add: assms(1))
  then have "I (decodePayloadAsBinary env bt cb b st)" for b
    using assms(1,2) by (simp add: decodePayloadAsBinary_def split: option.split)
  moreover have "I (decode_payload_loop env bt cb l i len s st)" for l i len s
    by (rule decode_payload_loop_preserves) (use assms(1,2) in auto)
  ultimately show ?thesis
    using assms(1,2,3) by (cases data) (auto simp: decodePayload.simps split: if_splits)
qed

end
