(* ===== verification/Transport.thy ===== *)
theory Transport
  imports EioParser Qs
begin

text \<open>
  The engine.io transports: the base class (module 26), polling (25) with its XHR (24) and JSONP
  (39) variants and web sockets (40), the choice of a transport (21, 22) and their request URIs.

  A transport is a record; the object that owns it is its extension, so an operation takes and
  returns the owner's whole state and the listeners of the transport are a function \<open>h\<close> on it.
  What a transport asks of the browser is logged in \<open>actions\<close>; what the browser answers is an
  argument of the handler it calls. The encodings of a write are taken to finish at once, which
  all but blobs read for a browser that must not send them do.
\<close>

subsection \<open>Options and state\<close>

record transport_opts =
  hostname :: jsstr
  port :: jsval             \<comment> \<open>a string or a number\<close>
  secure :: bool
  path :: jsstr
  forceJSONP :: bool
  jsonp :: bool
  forceBase64 :: bool
  enablesXDR :: bool
  timestampParam :: jsstr
  timestampRequests :: "bool option"

text \<open>What the modules find out about the browser.\<close>

record browser =
  eio_env +
  location :: "(jsstr \<times> jsstr \<times> bool) option"  \<comment> \<open>host name, port, https\<close>
  has_XMLHttpRequest :: bool
  hasCORS :: bool
  has_XDomainRequest :: bool
  has_ActiveX :: bool
  hasXHR2 :: bool
  ws_check :: bool           \<comment> \<open>a WebSocket constructor that is no polyfill\<close>
  ws_throws :: bool          \<comment> \<open>the constructor throws\<close>
  ws_binaryType :: bool      \<comment> \<open>its objects have a \<open>binaryType\<close>\<close>
  ws_supports_binary :: bool \<comment> \<open>its objects have \<open>supports.binary\<close>\<close>
  blob_wanted :: bool        \<comment> \<open>\<open>socket.binaryType === 'blob'\<close>\<close>

datatype transport_kind = XHR | JSONP | WS

datatype transport_state = TS_none | TS_opening | TS_open | TS_closed | TS_pausing | TS_paused

datatype transport_action =
    A_poll                  \<comment> \<open>a GET request or a script element\<close>
  | A_post eio_data         \<comment> \<open>a POST request or a submitted form\<close>
  | A_connect               \<comment> \<open>a new WebSocket\<close>
  | A_frame eio_data        \<comment> \<open>\<open>ws.send\<close>\<close>
  | A_disconnect            \<comment> \<open>\<open>ws.close\<close>\<close>

text \<open>
  A pause that waits for the request it counts in \<open>remaining\<close>, with the events it still listens to.
\<close>

record pauser =
  onPause :: nat
  remaining :: nat
  awaits_poll :: bool
  awaits_drain :: bool

record transport =
  kind :: transport_kind
  topts :: transport_opts
  query :: "(jsstr \<times> jsval) list"
  tstate :: transport_state
  writable :: bool
  supportsBinary :: bool
  polling :: bool
  pausers :: "pauser list"
  close_on_open :: bool     \<comment> \<open>the deferred close of \<open>doClose\<close> listens to \<open>open\<close>\<close>
  listening :: bool         \<comment> \<open>the owner's listeners are registered\<close>
  script :: bool
  form :: bool
  ws :: bool
  drain_timers :: nat       \<comment> \<open>fake drains of a web socket under way\<close>
  actions :: "transport_action list"

datatype transport_event =
    T_open | T_drain | T_packet eio_packet | T_error jsstr | T_close | T_flush | T_poll | T_pollComplete
  | T_paused nat            \<comment> \<open>a call of the \<open>onPause\<close> with this number\<close>

type_synonym 'w transport_hook = "transport_event \<Rightarrow> 'w transport_scheme \<Rightarrow> 'w transport_scheme"

definition tname :: "transport_kind \<Rightarrow> jsstr" where
  "tname k = (if k = WS then lit ''websocket'' else lit ''polling'')"

definition act :: "transport_action \<Rightarrow> 'w transport_scheme \<Rightarrow> 'w transport_scheme" where
  "act a t = t\<lparr>actions := actions t @ [a]\<rparr>"

definition t_emit :: "'w transport_hook \<Rightarrow> transport_event \<Rightarrow> 'w transport_scheme \<Rightarrow> 'w transport_scheme" where
  "t_emit h ev t = (if listening t then h ev t else t)"

text \<open>Without an argument the internal listeners go as well.\<close>

definition removeAllListeners :: "'w transport_scheme \<Rightarrow> 'w transport_scheme" where
  "removeAllListeners t = t\<lparr>listening := False, close_on_open := False,
     pausers := map (\<lambda>p. p\<lparr>awaits_poll := False, awaits_drain := False\<rparr>) (pausers t)\<rparr>"

subsection \<open>Construction\<close>

definition Transport :: "transport_kind \<Rightarrow> bool \<Rightarrow> transport_opts \<Rightarrow> (jsstr \<times> jsval) list \<Rightarrow> transport" where
  "Transport k binary opts q =
     \<lparr>kind = k, topts = opts, query = q, tstate = TS_none, writable = False, supportsBinary = binary,
      polling = False, pausers = [], close_on_open = False, listening = False, script = False, form = False,
      ws = False, drain_timers = 0, actions = []\<rparr>"

definition Polling_binary :: "browser \<Rightarrow> transport_opts \<Rightarrow> bool \<Rightarrow> bool" where
  "Polling_binary b opts prototype = (if \<not> hasXHR2 b \<or> forceBase64 opts then False else prototype)"

definition new_XHR :: "browser \<Rightarrow> transport_opts \<Rightarrow> (jsstr \<times> jsval) list \<Rightarrow> transport" where
  "new_XHR b opts q = Transport XHR (Polling_binary b opts True) opts q"

text \<open>The index of the callback goes into the query.\<close>

definition new_JSONP :: "browser \<Rightarrow> nat \<Rightarrow> transport_opts \<Rightarrow> (jsstr \<times> jsval) list \<Rightarrow> transport" where
  "new_JSONP b index opts q =
     Transport JSONP (Polling_binary b opts False) opts (set_prop (lit ''j'') (JNum (js_nat index)) q)"

definition new_WS :: "transport_opts \<Rightarrow> (jsstr \<times> jsval) list \<Rightarrow> transport" where
  "new_WS opts q = Transport WS (\<not> forceBase64 opts) opts q"

datatype xhr_object = Native | XDomain | ActiveXObject | NoObject

definition XMLHttpRequest :: "browser \<Rightarrow> bool \<Rightarrow> bool \<Rightarrow> bool \<Rightarrow> xhr_object" where
  "XMLHttpRequest b xdomain xscheme xdr =
     (if has_XMLHttpRequest b \<and> (\<not> xdomain \<or> hasCORS b) then Native
      else if has_XDomainRequest b \<and> \<not> xscheme \<and> xdr then XDomain
      else if \<not> xdomain \<and> has_ActiveX b then ActiveXObject
      else NoObject)"

text \<open>An empty \<open>location.port\<close> is replaced by a number; the comparison is strict.\<close>

definition cross_domain :: "browser \<Rightarrow> transport_opts \<Rightarrow> bool \<times> bool" where
  "cross_domain b opts = (case location b of
     None \<Rightarrow> (False, False)
   | Some (host, p, ssl) \<Rightarrow>
       let p' = (if p = [] then JNum (js_nat (if ssl then 443 else 80)) else JStr p) in
       (hostname opts \<noteq> host \<or> p' \<noteq> port opts, secure opts \<noteq> ssl))"

definition polling_transport :: "browser \<Rightarrow> nat \<Rightarrow> transport_opts \<Rightarrow> (jsstr \<times> jsval) list \<Rightarrow> transport result" where
  "polling_transport b index opts q =
     (case cross_domain b opts of (xd, xs) \<Rightarrow>
        let xhr = XMLHttpRequest b xd xs (enablesXDR opts) in
        if xhr = NoObject then Inl TypeError
        else if \<not> forceJSONP opts then Inr (new_XHR b opts q)
        else if \<not> jsonp opts then Inl (Error ''JSONP disabled'')
        else Inr (new_JSONP b index opts q))"

definition new_transport :: "browser \<Rightarrow> nat \<Rightarrow> jsstr \<Rightarrow> transport_opts \<Rightarrow> (jsstr \<times> jsval) list \<Rightarrow> transport result" where
  "new_transport b index name opts q =
     (if name = lit ''polling'' then polling_transport b index opts q
      else if name = lit ''websocket'' then Inr (new_WS opts q)
      else Inl TypeError)"

subsection \<open>Writing\<close>

definition polling_write :: "browser \<Rightarrow> eio_packet list \<Rightarrow> 'w transport_scheme \<Rightarrow> 'w transport_scheme" where
  "polling_write b ps t =
     (let t = t\<lparr>writable := False\<rparr> in
      case encodePayload (eio_env.truncate b) [0..<length ps] (supportsBinary t) ps of
        Inl _ \<Rightarrow> t
      | Inr datas \<Rightarrow> fold (\<lambda>d t. act (A_post d) (if kind t = JSONP then t\<lparr>form := True\<rparr> else t)) datas t)"

text \<open>The packets are framed one by one; when the last is out, a drain is deferred to the next tick.\<close>

definition ws_write :: "browser \<Rightarrow> 'w transport_hook \<Rightarrow> eio_packet list \<Rightarrow> 'w transport_scheme \<Rightarrow> 'w transport_scheme" where
  "ws_write b h ps t =
     (let t = t\<lparr>writable := False\<rparr>;
          t = fold (\<lambda>p t. act (A_frame (encodePacket (eio_env.truncate b) (supportsBinary t) False p)) t) ps t
      in if ps = [] then t
         else let t = t_emit h T_flush t in t\<lparr>drain_timers := drain_timers t + 1\<rparr>)"

definition t_write :: "browser \<Rightarrow> 'w transport_hook \<Rightarrow> eio_packet list \<Rightarrow> 'w transport_scheme \<Rightarrow> 'w transport_scheme" where
  "t_write b h ps t = (if kind t = WS then ws_write b h ps t else polling_write b ps t)"

definition t_send :: "browser \<Rightarrow> 'w transport_hook \<Rightarrow> eio_packet list \<Rightarrow> 'w transport_scheme \<Rightarrow> 'w transport_scheme result" where
  "t_send b h ps t =
     (if tstate t = TS_open then Inr (t_write b h ps t) else Inl (Error ''Transport not open''))"

subsection \<open>Opening and polling\<close>

definition close_packet :: eio_packet where
  "close_packet = \<lparr>etype = P_close, edata = NoData\<rparr>"

text \<open>The listener of a deferred close is registered after the owner's.\<close>

definition t_onOpen :: "browser \<Rightarrow> 'w transport_hook \<Rightarrow> 'w transport_scheme \<Rightarrow> 'w transport_scheme" where
  "t_onOpen b h t =
     (let t = t\<lparr>tstate := TS_open, writable := True\<rparr>; deferred = close_on_open t;
          t = t_emit h T_open t
      in if deferred then polling_write b [close_packet] (t\<lparr>close_on_open := False\<rparr>) else t)"

definition doPoll :: "'w transport_scheme \<Rightarrow> 'w transport_scheme" where
  "doPoll t = act A_poll (if kind t = JSONP then t\<lparr>script := True\<rparr> else t)"

definition poll :: "'w transport_hook \<Rightarrow> 'w transport_scheme \<Rightarrow> 'w transport_scheme" where
  "poll h t = t_emit h T_poll (doPoll (t\<lparr>polling := True\<rparr>))"

definition ws_doOpen :: "browser \<Rightarrow> 'w transport_hook \<Rightarrow> 'w transport_scheme \<Rightarrow> 'w transport_scheme" where
  "ws_doOpen b h t =
     (if \<not> ws_check b then t
      else if ws_throws b then t_emit h (T_error (lit ''SyntaxError'')) t
      else
        let t = act A_connect (t\<lparr>ws := True\<rparr>);
            t = (if \<not> ws_binaryType b then t\<lparr>supportsBinary := False\<rparr> else t)
        in if ws_supports_binary b then t\<lparr>supportsBinary := True\<rparr> else t)"

definition doOpen :: "browser \<Rightarrow> 'w transport_hook \<Rightarrow> 'w transport_scheme \<Rightarrow> 'w transport_scheme" where
  "doOpen b h t = (if kind t = WS then ws_doOpen b h t else poll h t)"

definition t_open :: "browser \<Rightarrow> 'w transport_hook \<Rightarrow> 'w transport_scheme \<Rightarrow> 'w transport_scheme" where
  "t_open b h t =
     (if tstate t = TS_closed \<or> tstate t = TS_none then doOpen b h (t\<lparr>tstate := TS_opening\<rparr>) else t)"

subsection \<open>Closing\<close>

definition t_onClose :: "'w transport_hook \<Rightarrow> 'w transport_scheme \<Rightarrow> 'w transport_scheme" where
  "t_onClose h t = t_emit h T_close (t\<lparr>tstate := TS_closed\<rparr>)"

definition polling_doClose :: "browser \<Rightarrow> 'w transport_scheme \<Rightarrow> 'w transport_scheme" where
  "polling_doClose b t =
     (if tstate t = TS_open then polling_write b [close_packet] t else t\<lparr>close_on_open := True\<rparr>)"

definition jsonp_doClose :: "browser \<Rightarrow> 'w transport_scheme \<Rightarrow> 'w transport_scheme" where
  "jsonp_doClose b t = polling_doClose b (t\<lparr>script := False, form := False\<rparr>)"

definition ws_doClose :: "'w transport_scheme \<Rightarrow> 'w transport_scheme" where
  "ws_doClose t = (if ws t then act A_disconnect t else t)"

definition doClose :: "browser \<Rightarrow> 'w transport_scheme \<Rightarrow> 'w transport_scheme" where
  "doClose b t = (case kind t of XHR \<Rightarrow> polling_doClose b t | JSONP \<Rightarrow> jsonp_doClose b t | WS \<Rightarrow> ws_doClose t)"

definition t_close :: "browser \<Rightarrow> 'w transport_hook \<Rightarrow> 'w transport_scheme \<Rightarrow> 'w transport_scheme" where
  "t_close b h t =
     (if tstate t = TS_opening \<or> tstate t = TS_open then t_onClose h (doClose b t) else t)"

definition t_onError :: "'w transport_hook \<Rightarrow> jsstr \<Rightarrow> 'w transport_scheme \<Rightarrow> 'w transport_scheme" where
  "t_onError h msg t = t_emit h (T_error msg) t"

subsection \<open>Pausing\<close>

definition pause_now :: "'w transport_hook \<Rightarrow> nat \<Rightarrow> 'w transport_scheme \<Rightarrow> 'w transport_scheme" where
  "pause_now h k t = h (T_paused k) (t\<lparr>tstate := TS_paused\<rparr>)"

definition pause :: "'w transport_hook \<Rightarrow> nat \<Rightarrow> 'w transport_scheme \<Rightarrow> 'w transport_scheme" where
  "pause h k t =
     (let t = t\<lparr>tstate := TS_pausing\<rparr> in
      if polling t \<or> \<not> writable t then
        t\<lparr>pausers := pausers t @
          [\<lparr>onPause = k, remaining = (if polling t then 1 else 0) + (if writable t then 0 else 1),
            awaits_poll = polling t, awaits_drain = (\<not> writable t)\<rparr>]\<rparr>
      else pause_now h k t)"

text \<open>
  One of the two events a pause waits for: every pause that listened to it when it was emitted
  counts down, and goes through when nothing remains. Once the owner has moved on to another
  transport, the pauses of the old one are out of sight.
\<close>

definition count_down :: "'w transport_hook \<Rightarrow> nat \<Rightarrow> 'w transport_scheme \<Rightarrow> 'w transport_scheme" where
  "count_down h i t =
     (if i < length (pausers t) then
        let p = pausers t ! i; t = t\<lparr>pausers := (pausers t)[i := p\<lparr>remaining := remaining p - 1\<rparr>]\<rparr> in
        if remaining p - 1 = 0 then pause_now h (onPause p) t else t
      else t)"

definition emit_pollComplete :: "'w transport_hook \<Rightarrow> 'w transport_scheme \<Rightarrow> 'w transport_scheme" where
  "emit_pollComplete h t =
     (let is = filter (\<lambda>i. awaits_poll (pausers t ! i)) [0..<length (pausers t)];
          t = t_emit h T_pollComplete t
      in fold (\<lambda>i t. count_down h i (t\<lparr>pausers := (pausers t)[i := (pausers t ! i)\<lparr>awaits_poll := False\<rparr>]\<rparr>)) is t)"

definition emit_drain :: "'w transport_hook \<Rightarrow> 'w transport_scheme \<Rightarrow> 'w transport_scheme" where
  "emit_drain h t =
     (let is = filter (\<lambda>i. awaits_drain (pausers t ! i)) [0..<length (pausers t)];
          t = t_emit h T_drain t
      in fold (\<lambda>i t. count_down h i (t\<lparr>pausers := (pausers t)[i := (pausers t ! i)\<lparr>awaits_drain := False\<rparr>]\<rparr>)) is t)"

subsection \<open>What the browser calls\<close>

text \<open>The success of a POST request, and the tick after the frames of a web socket.\<close>

definition write_done :: "'w transport_hook \<Rightarrow> 'w transport_scheme \<Rightarrow> 'w transport_scheme" where
  "write_done h t = emit_drain h (t\<lparr>writable := True\<rparr>)"

definition ws_tick :: "'w transport_hook \<Rightarrow> 'w transport_scheme \<Rightarrow> 'w transport_scheme" where
  "ws_tick h t =
     (if drain_timers t = 0 then t
      else emit_drain h (t\<lparr>drain_timers := drain_timers t - 1, writable := True\<rparr>))"

definition t_onPacket :: "'w transport_hook \<Rightarrow> eio_packet \<Rightarrow> 'w transport_scheme \<Rightarrow> 'w transport_scheme" where
  "t_onPacket h p t = t_emit h (T_packet p) t"

definition t_onData :: "browser \<Rightarrow> 'w transport_hook \<Rightarrow> eio_data \<Rightarrow> 'w transport_scheme \<Rightarrow> 'w transport_scheme" where
  "t_onData b h data t = t_onPacket h (decodePacket (eio_env.truncate b) (blob_wanted b) False data) t"

definition poll_callback :: "browser \<Rightarrow> 'w transport_hook \<Rightarrow> 'w transport_scheme payload_callback" where
  "poll_callback b h p index l t =
     (let t = (if tstate t = TS_opening then t_onOpen b h t else t) in
      if etype p = P_close then (t_onClose h t, False) else (t_onPacket h p t, True))"

definition polling_onData :: "browser \<Rightarrow> 'w transport_hook \<Rightarrow> eio_data \<Rightarrow> 'w transport_scheme \<Rightarrow> 'w transport_scheme result" where
  "polling_onData b h data t =
     bindE (decodePayload (eio_env.truncate b) (blob_wanted b) (poll_callback b h) data t) (\<lambda>t.
       Inr (if tstate t \<noteq> TS_closed then
              let t = emit_pollComplete h (t\<lparr>polling := False\<rparr>) in
              if tstate t = TS_open then poll h t else t
            else t))"

subsection \<open>Listeners that leave the transport alone\<close>

definition quiet :: "'w transport_hook \<Rightarrow> bool" where
  "quiet h \<longleftrightarrow> (\<forall>ev t. transport.truncate (h ev t) = transport.truncate t)"

lemma truncate_fields:
  assumes "transport.truncate s = transport.truncate t"
  shows "kind s = kind t" "topts s = topts t" "query s = query t" "tstate s = tstate t" "writable s = writable t"
    "supportsBinary s = supportsBinary t" "polling s = polling t" "pausers s = pausers t"
    "close_on_open s = close_on_open t" "listening s = listening t" "script s = script t" "form s = form t"
    "ws s = ws t" "drain_timers s = drain_timers t" "actions s = actions t"
  using assms by (cases s, cases t, simp add: transport.defs)+

lemma quiet_fields [simp]:
  assumes "quiet h"
  shows "kind (h ev t) = kind t" "topts (h ev t) = topts t" "query (h ev t) = query t" "tstate (h ev t) = tstate t"
    "writable (h ev t) = writable t" "supportsBinary (h ev t) = supportsBinary t" "polling (h ev t) = polling t"
    "pausers (h ev t) = pausers t" "close_on_open (h ev t) = close_on_open t" "listening (h ev t) = listening t"
    "script (h ev t) = script t" "form (h ev t) = form t" "ws (h ev t) = ws t"
    "drain_timers (h ev t) = drain_timers t" "actions (h ev t) = actions t"
  using truncate_fields [of "h ev t" t] assms by (auto simp: quiet_def)

lemma quiet_emit [simp]:
  assumes "quiet h"
  shows "kind (t_emit h ev t) = kind t" "tstate (t_emit h ev t) = tstate t"
    "writable (t_emit h ev t) = writable t" "supportsBinary (t_emit h ev t) = supportsBinary t"
    "polling (t_emit h ev t) = polling t" "pausers (t_emit h ev t) = pausers t"
    "close_on_open (t_emit h ev t) = close_on_open t" "listening (t_emit h ev t) = listening t"
    "actions (t_emit h ev t) = actions t"
  using assms by (simp_all add: t_emit_def)

subsection \<open>A pause waits for what is under way\<close>

datatype completion = Poll_completes | Write_completes

fun complete :: "'w transport_hook \<Rightarrow> completion \<Rightarrow> 'w transport_scheme \<Rightarrow> 'w transport_scheme" where
  "complete h Poll_completes t = emit_pollComplete h (t\<lparr>polling := False\<rparr>)"
| "complete h Write_completes t = write_done h t"

definition outstanding :: "'w transport_scheme \<Rightarrow> completion set" where
  "outstanding t = (if polling t then {Poll_completes} else {}) \<union> (if writable t then {} else {Write_completes})"

lemma upt_1: "[0..<Suc 0] = [0]" by simp

lemma two_element_list:
  assumes "distinct cs" "set cs \<subseteq> {a, b}" "a \<noteq> b"
  shows "cs \<in> {[], [a], [b], [a, b], [b, a]}"
proof (cases cs)
  case (Cons x xs)
  then show ?thesis
  proof (cases xs)
    case (Cons y ys)
    have "ys = []" using assms \<open>cs = x # xs\<close> Cons by (cases ys) auto
    then show ?thesis using assms \<open>cs = x # xs\<close> Cons by auto
  qed (use assms Cons in auto)
qed simp

definition waiting :: "nat \<Rightarrow> bool \<Rightarrow> bool \<Rightarrow> 'w transport_scheme \<Rightarrow> bool" where
  "waiting n p d t \<longleftrightarrow> tstate t = TS_pausing \<and> (\<exists>k. pausers t = [\<lparr>onPause = k, remaining = n, awaits_poll = p, awaits_drain = d\<rparr>])"

lemmas completion_defs = emit_pollComplete_def write_done_def emit_drain_def count_down_def pause_now_def Let_def upt_1

lemma waiting_complete:
  assumes "quiet h"
  shows "waiting 2 True True t \<Longrightarrow> waiting 1 False True (complete h Poll_completes t)"
    and "waiting 2 True True t \<Longrightarrow> waiting 1 True False (complete h Write_completes t)"
    and "waiting 1 True False t \<Longrightarrow> tstate (complete h Poll_completes t) = TS_paused"
    and "waiting 1 False True t \<Longrightarrow> tstate (complete h Write_completes t) = TS_paused"
  using assms by (auto simp: waiting_def completion_defs)

lemma waiting_pause:
  assumes "polling t \<or> \<not> writable t" "pausers t = []"
  shows "waiting ((if polling t then 1 else 0) + (if writable t then 0 else 1)) (polling t) (\<not> writable t) (pause h k t)"
  using assms by (auto simp: waiting_def pause_def Let_def)

lemma waiting_state: "waiting n p d t \<Longrightarrow> tstate t = TS_pausing"
  by (simp add: waiting_def)

lemma pause_idle: "quiet h \<Longrightarrow> \<not> polling t \<Longrightarrow> writable t \<Longrightarrow> tstate (pause h k t) = TS_paused"
  by (simp add: pause_def pause_now_def Let_def)

declare complete.simps [simp del]

lemma completion_lists:
  assumes "distinct cs" "set cs = outstanding t"
  shows "(\<not> polling t \<and> writable t \<and> cs = []) \<or> (polling t \<and> writable t \<and> cs = [Poll_completes]) \<or>
    (\<not> polling t \<and> \<not> writable t \<and> cs = [Write_completes]) \<or>
    (polling t \<and> \<not> writable t \<and> (cs = [Poll_completes, Write_completes] \<or> cs = [Write_completes, Poll_completes]))"
proof -
  have "set cs \<subseteq> {Poll_completes, Write_completes}" by (metis completion.exhaust insertCI subsetI)
  then have "cs \<in> {[], [Poll_completes], [Write_completes], [Poll_completes, Write_completes], [Write_completes, Poll_completes]}"
    by (rule two_element_list [OF assms(1)]) simp
  with assms(2) show ?thesis
    unfolding outstanding_def
    by (cases "polling t"; cases "writable t"; simp; elim disjE; simp add: doubleton_eq_iff)
qed

lemma outstanding_lists:
  assumes "distinct cs" "set cs = outstanding t"
  obtains (idle) "\<not> polling t" "writable t" "cs = []"
    | (poll) "polling t" "writable t" "cs = [Poll_completes]"
    | (post) "\<not> polling t" "\<not> writable t" "cs = [Write_completes]"
    | (poll_first) "polling t" "\<not> writable t" "cs = [Poll_completes, Write_completes]"
    | (write_first) "polling t" "\<not> writable t" "cs = [Write_completes, Poll_completes]"
  using completion_lists [OF assms] by blast


subsection \<open>What is written arrives\<close>

definition parser_env :: "browser \<Rightarrow> eio_env" where
  "parser_env b = eio_env.truncate b"

lemma completion_order_upt: "completion_order [0..<length ps] ps"
  by (simp add: completion_order_code)

text \<open>
  C18. What a polling transport is told to send arrives: \<open>send\<close> on an open transport posts exactly
  one payload, from which the other side decodes the packets in order, and leaves the transport
  not writable until the post has succeeded.
\<close>

theorem polling_send_arrives:
  assumes "kind t \<noteq> WS" "tstate t = TS_open" "payload_ok (parser_env b) ps"
  shows "\<exists>w t'. t_send b h ps t = Inr t' \<and> actions t' = actions t @ [A_post w] \<and> \<not> writable t' \<and>
    decodePayload (parser_env b) blobType collect (transferred w) [] = Inr (map (received (parser_env b) blobType) ps)"
proof -
  obtain w where w: "encodePayload (parser_env b) [0..<length ps] (supportsBinary t) ps = Inr [w]"
    "decodePayload (parser_env b) blobType collect (transferred w) [] = Inr (map (received (parser_env b) blobType) ps)"
    using payload_arrives [OF completion_order_upt assms(3)] by blast
  have "t_send b h ps t = Inr (act (A_post w) (if kind t = JSONP then t\<lparr>writable := False, form := True\<rparr> else t\<lparr>writable := False\<rparr>))"
    using assms(1,2) w(1) by (simp add: t_send_def t_write_def polling_write_def parser_env_def Let_def)
  with w(2) show ?thesis by (auto simp: act_def)
qed

lemma act_fields [simp]:
  "actions (act a t) = actions t @ [a]" "writable (act a t) = writable t" "tstate (act a t) = tstate t"
  "supportsBinary (act a t) = supportsBinary t" "kind (act a t) = kind t" "polling (act a t) = polling t"
  "pausers (act a t) = pausers t" "close_on_open (act a t) = close_on_open t" "listening (act a t) = listening t"
  "drain_timers (act a t) = drain_timers t"
  by (simp_all add: act_def)

lemma ws_frames:
  "let t' = fold (\<lambda>p t. act (A_frame (encodePacket env (supportsBinary t) False p)) t) ps t in
   actions t' = actions t @ map (\<lambda>p. A_frame (encodePacket env (supportsBinary t) False p)) ps \<and>
   writable t' = writable t \<and> drain_timers t' = drain_timers t"
  by (induction ps arbitrary: t) (simp_all add: Let_def)

text \<open>
  C20. What a web socket is told to send arrives: \<open>send\<close> on an open transport makes one frame of
  each packet, in order, from which the other side decodes the packet, and the transport becomes
  writable again only when the tick after the frames reports the drain.
\<close>

theorem ws_send_arrives:
  assumes "kind t = WS" "tstate t = TS_open" "quiet h" "list_all (sendable (parser_env b)) ps"
  shows "\<exists>t'. t_send b h ps t = Inr t' \<and> \<not> writable t' \<and>
    (\<exists>ws. actions t' = actions t @ map A_frame ws \<and>
       map (decodePacket (parser_env b) blobType False \<circ> transferred) ws = map (received (parser_env b) blobType) ps) \<and>
    drain_timers t' = drain_timers t + (if ps = [] then 0 else 1)"
proof -
  let ?e = "\<lambda>p. encodePacket (parser_env b) (supportsBinary t) False p"
  let ?t = "t\<lparr>writable := False\<rparr>"
  obtain t' where t': "t_send b h ps t = Inr t'" "\<not> writable t'" "actions t' = actions t @ map (A_frame \<circ> ?e) ps"
    "drain_timers t' = drain_timers t + (if ps = [] then 0 else 1)"
    using assms(1,2,3) ws_frames [of "parser_env b" ps ?t]
    by (auto simp: t_send_def t_write_def ws_write_def parser_env_def Let_def comp_def t_emit_def)
  moreover have "map (decodePacket (parser_env b) blobType False \<circ> transferred) (map ?e ps) = map (received (parser_env b) blobType) ps"
    using assms(4) by (auto simp: list_all_iff decode_encodePacket)
  ultimately show ?thesis by (metis map_map)
qed

subsection \<open>What is polled is delivered\<close>

text \<open>The listener that notes the events in the owner's state.\<close>

definition log_hook :: "transport_event list transport_hook" where
  "log_hook ev t = transport.more_update (\<lambda>evs. evs @ [ev]) t"

lemma quiet_log: "quiet log_hook"
  by (simp add: quiet_def log_hook_def transport.defs)

lemma more_log [simp]: "transport.more (log_hook ev t) = transport.more t @ [ev]"
  by (simp add: log_hook_def)

definition deliver_packet :: "browser \<Rightarrow> eio_packet \<Rightarrow> transport_event list transport_scheme \<Rightarrow> transport_event list transport_scheme" where
  "deliver_packet b p t = fst (poll_callback b log_hook p 0 0 t)"

lemma deliver_packets:
  assumes "\<forall>p \<in> set ps. etype p \<noteq> P_close" "tstate t = TS_open" "listening t"
  shows "fold (deliver_packet b) ps t = transport.more_update (\<lambda>evs. evs @ map T_packet ps) t"
  using assms
proof (induction ps arbitrary: t)
  case (Cons p ps)
  then have "deliver_packet b p t = transport.more_update (\<lambda>evs. evs @ [T_packet p]) t"
    by (simp add: deliver_packet_def poll_callback_def t_onPacket_def t_emit_def log_hook_def)
  with Cons show ?case by simp
qed simp

lemma etype_received [simp]: "etype (received env bt p) = etype p"
  by (simp add: received_def)

lemma open_then_deliver:
  assumes "ps \<noteq> []" "\<forall>p \<in> set ps. etype p \<noteq> P_close" "tstate t \<in> {TS_opening, TS_open}" "listening t" "\<not> close_on_open t"
  shows "fold (deliver_packet b) ps t = transport.more_update
      (\<lambda>evs. evs @ (if tstate t = TS_opening then [T_open] else []) @ map T_packet ps)
      (if tstate t = TS_opening then t\<lparr>tstate := TS_open, writable := True\<rparr> else t)"
proof (cases "tstate t = TS_opening")
  case True
  obtain p qs where ps: "ps = p # qs" using assms(1) by (cases ps) auto
  let ?t = "transport.more_update (\<lambda>evs. evs @ [T_open, T_packet p]) (t\<lparr>tstate := TS_open, writable := True\<rparr>)"
  have "deliver_packet b p t = ?t"
    using True assms ps
    by (simp add: deliver_packet_def poll_callback_def t_onOpen_def t_onPacket_def t_emit_def log_hook_def Let_def)
  then show ?thesis
    using deliver_packets [of qs ?t b] assms True ps by simp
next
  case False
  then show ?thesis using assms deliver_packets [of ps t b] by simp
qed

text \<open>
  C19. What is polled is delivered: a payload that the other side encoded without a close packet
  opens a transport that is still opening, is handed on packet by packet, in order, ends the poll
  and starts the next one.
\<close>

theorem polling_receives:
  assumes "payload_ok (parser_env b) ps" "completion_order order ps"
    "encodePayload (parser_env b) order supportsBin ps = Inr [w]" "\<forall>p \<in> set ps. etype p \<noteq> P_close"
    "tstate t \<in> {TS_opening, TS_open}" "listening t" "\<not> close_on_open t" "pausers t = []"
  shows "\<exists>t'. polling_onData b log_hook (transferred w) t = Inr t' \<and>
    transport.more t' = transport.more t @ (if tstate t = TS_opening then [T_open] else []) @
      map (T_packet \<circ> received (parser_env b) (blob_wanted b)) ps @ [T_pollComplete, T_poll] \<and>
    tstate t' = TS_open \<and> polling t' \<and> actions t' = actions t @ [A_poll]"
proof -
  let ?rs = "map (received (parser_env b) (blob_wanted b)) ps"
  have cb: "poll_callback b log_hook (received (parser_env b) (blob_wanted b) p) i l st =
      (deliver_packet b (received (parser_env b) (blob_wanted b) p) st, True)" if "p \<in> set ps" for p i l st
    using that assms(4) by (simp add: deliver_packet_def poll_callback_def Let_def)
  have "decodePayload (parser_env b) (blob_wanted b) (poll_callback b log_hook) (transferred w) t =
      Inr (fold (deliver_packet b) ?rs t)"
    by (rule decodePayload_fold [OF assms(2,1,3)]) (rule cb)
  moreover have "?rs \<noteq> []" "\<forall>p \<in> set ?rs. etype p \<noteq> P_close"
    using assms(1,4) by (auto simp: payload_ok_def)
  note open_then_deliver [OF this assms(5,6,7), of b]
  ultimately show ?thesis
    using assms(5,6,8)
    by (auto simp: polling_onData_def parser_env_def emit_pollComplete_def poll_def doPoll_def act_def
        t_emit_def log_hook_def Let_def)
qed

text \<open>
  A transport closed while it opens defers its close packet to the \<open>open\<close> event. That event is
  only emitted in the state \<open>opening\<close>, which \<open>close\<close> has just left: the packet is never sent.
\<close>

lemma closed_delivers_nothing:
  assumes "quiet h" "tstate t = TS_closed"
  shows "tstate (fst (poll_callback b h p i l t)) = TS_closed \<and> actions (fst (poll_callback b h p i l t)) = actions t"
  using assms by (simp add: poll_callback_def t_onClose_def t_onPacket_def Let_def)

lemma deferred_close_lost:
  assumes "quiet h" "kind t = XHR" "tstate t = TS_opening"
  shows "tstate (t_close b h t) = TS_closed \<and> close_on_open (t_close b h t) \<and>
    (let t' = fst (poll_callback b h p i l (t_close b h t)) in tstate t' = TS_closed \<and> actions t' = actions t)"
proof -
  have "tstate (t_close b h t) = TS_closed" "close_on_open (t_close b h t)" "actions (t_close b h t) = actions t"
    using assms by (simp_all add: t_close_def doClose_def polling_doClose_def t_onClose_def)
  then show ?thesis using closed_delivers_nothing [OF assms(1)] by (simp add: Let_def)
qed

text \<open>
  A page on the default port is another domain for an \<open>opts.port\<close> given as the string \<open>'80'\<close>: the
  number 80 put for an empty \<open>location.port\<close> is not identical to it.
\<close>

lemma same_origin_cross_domain:
  "location b = Some (lit ''h'', [], False) \<Longrightarrow> hostname opts = lit ''h'' \<Longrightarrow> port opts = JStr (lit ''80'') \<Longrightarrow>
     fst (cross_domain b opts)"
  by (simp add: cross_domain_def)

subsection \<open>Concrete transports\<close>

definition full_browser :: browser where
  "full_browser = \<lparr>blob_api = True, dontSendBlobs = False, base64encoder = True, native_slice = False,
     location = None, has_XMLHttpRequest = True, hasCORS = True, has_XDomainRequest = False, has_ActiveX = False,
     hasXHR2 = True, ws_check = True, ws_throws = False, ws_binaryType = True, ws_supports_binary = False,
     blob_wanted = False\<rparr>"

lemma parser_env_full [simp]: "parser_env full_browser = full_env"
  by (simp add: parser_env_def full_browser_def full_env_def eio_env.defs)

definition sample_opts :: transport_opts where
  "sample_opts = \<lparr>hostname = lit ''localhost'', port = JStr (lit ''80''), secure = False, path = lit ''/engine.io/'',
     forceJSONP = False, jsonp = True, forceBase64 = False, enablesXDR = False, timestampParam = lit ''t'',
     timestampRequests = None\<rparr>"

definition hi :: eio_packet where
  "hi = \<lparr>etype = P_message, edata = Text (lit ''hi'')\<rparr>"

lemma hi_ok: "payload_ok full_env [hi]" "sendable full_env hi"
  by (auto simp: payload_ok_def sendable_def full_env_def packetslist_eq hi_def
      message_of_def encodePacket_def encodeText_def packet_code_simps lit_def wtf8encode_ascii wtf8encode_def[of "[]"])

lemma hi_payload: "encodePayload full_env [0] False [hi] = Inr [Text (lit ''3:4hi'')]"
  by code_simp


theorem polling_send_arrives_witness:
  "\<exists>w t'. t_send full_browser (\<lambda>ev t. t) [hi] (new_XHR full_browser sample_opts []\<lparr>tstate := TS_open\<rparr>) = Inr t' \<and>
    actions t' = actions (new_XHR full_browser sample_opts []\<lparr>tstate := TS_open\<rparr>) @ [A_post w] \<and> \<not> writable t' \<and>
    decodePayload (parser_env full_browser) False collect (transferred w) [] =
      Inr (map (received (parser_env full_browser) False) [hi])"
  by (rule polling_send_arrives) (simp_all add: new_XHR_def Transport_def hi_ok)

theorem ws_send_arrives_witness:
  "\<exists>t'. t_send full_browser (\<lambda>ev t. t) [hi, hi] (new_WS sample_opts []\<lparr>tstate := TS_open\<rparr>) = Inr t' \<and> \<not> writable t' \<and>
    (\<exists>ws. actions t' = actions (new_WS sample_opts []\<lparr>tstate := TS_open\<rparr>) @ map A_frame ws \<and>
       map (decodePacket (parser_env full_browser) False False \<circ> transferred) ws =
         map (received (parser_env full_browser) False) [hi, hi]) \<and>
    drain_timers t' = drain_timers (new_WS sample_opts []\<lparr>tstate := TS_open\<rparr>) + (if [hi, hi] = [] then 0 else 1)"
  by (rule ws_send_arrives) (simp_all add: new_WS_def Transport_def hi_ok quiet_def)

theorem polling_receives_witness:
  "\<exists>t'. polling_onData full_browser log_hook (transferred (Text (lit ''3:4hi'')))
      (transport.extend (new_XHR full_browser sample_opts []\<lparr>tstate := TS_opening, listening := True\<rparr>) []) = Inr t' \<and>
    transport.more t' = [T_open, T_packet hi, T_pollComplete, T_poll] \<and> polling t'"
proof -
  let ?t = "transport.extend (new_XHR full_browser sample_opts []\<lparr>tstate := TS_opening, listening := True\<rparr>) []
      :: transport_event list transport_scheme"
  have t: "tstate ?t = TS_opening" "listening ?t" "\<not> close_on_open ?t" "pausers ?t = []" "transport.more ?t = []"
    by (simp_all add: transport.defs new_XHR_def Transport_def)
  have "received full_env False hi = hi" by (simp add: received_def hi_def lit_def)
  moreover have "blob_wanted full_browser = False" by (simp add: full_browser_def)
  moreover have "\<exists>t'. polling_onData full_browser log_hook (transferred (Text (lit ''3:4hi''))) ?t = Inr t' \<and>
    transport.more t' = transport.more ?t @ (if tstate ?t = TS_opening then [T_open] else []) @
      map (T_packet \<circ> received (parser_env full_browser) (blob_wanted full_browser)) [hi] @ [T_pollComplete, T_poll] \<and>
    tstate t' = TS_open \<and> polling t' \<and> actions t' = actions ?t @ [A_poll]"
    by (rule polling_receives [where order = "[0]" and supportsBin = False])
      (simp_all add: hi_ok hi_payload completion_order_code t, simp add: hi_def)
  ultimately show ?thesis using t by auto
qed

end
