(* ===== verification/EngineSocket.thy ===== *)
theory EngineSocket
  imports Transport
begin

text \<open>
  The engine.io client socket (module 20): handshake, heartbeat, write buffer, upgrade probes and
  the closing sequence.

  A socket is an extension of its current transport, so the transport's operations apply to it
  directly; the transport a probe tries out is a record of its own. The listeners of the socket's
  user are a function \<open>eh\<close> on the socket's whole state; the listeners the socket registers on
  itself are fields and run after the user's. An exception that would leave a handler is noted in
  \<open>thrown\<close>.
\<close>

subsection \<open>State\<close>

datatype ready_state = RS_none | RS_opening | RS_open | RS_closing | RS_closed

record probe_state =
  ptransport :: "transport option"
  failed :: bool
  on_open :: bool       \<comment> \<open>the probe's listeners on its transport\<close>
  on_error :: bool
  on_close :: bool
  on_packet :: bool
  self_close :: bool    \<comment> \<open>and on the socket\<close>
  self_upgrading :: bool

record engine = transport +
  readyState :: ready_state
  has_transport :: bool
  transports :: "jsstr list"
  engine_opts :: transport_opts
  engine_query :: "(jsstr \<times> jsval) list"
  jsonp_index :: nat
  upgrade :: bool
  rememberUpgrade :: bool
  onlyBinaryUpgrades :: bool
  priorWebsocketSuccess :: bool
  writeBuffer :: "eio_packet list"
  prevBufferLen :: nat
  sid :: "jsval"
  upgrades :: "jsstr list"
  pingInterval :: nat
  pingTimeout :: nat
  pingIntervalTimer :: bool
  pingTimeoutTimer :: "nat option"
  heartbeat_listener :: bool
  upgrading :: bool
  probes :: "probe_state list"
  close_on_drain :: bool     \<comment> \<open>\<open>close\<close> waits for \<open>drain\<close>\<close>
  close_on_upgrade :: bool   \<comment> \<open>\<open>close\<close> waits for \<open>upgrade\<close> or \<open>upgradeError\<close>\<close>
  ping_waiters :: nat        \<comment> \<open>pings that wait for \<open>flush\<close>\<close>
  no_transports_timer :: bool
  retired :: "transport list"  \<comment> \<open>transports the socket has let go of, last first\<close>
  thrown :: "js_error option"

datatype engine_event =
    E_open | E_close jsstr | E_error jsstr | E_packet eio_packet | E_heartbeat | E_handshake | E_pong | E_ping
  | E_data eio_data | E_message eio_data | E_drain | E_flush | E_packetCreate eio_packet
  | E_upgrading | E_upgrade | E_upgradeError

type_synonym 'w engine_hook = "engine_event \<Rightarrow> 'w engine_scheme \<Rightarrow> 'w engine_scheme"

definition throw :: "js_error \<Rightarrow> 'w engine_scheme \<Rightarrow> 'w engine_scheme" where
  "throw e s = s\<lparr>thrown := Some e\<rparr>"

text \<open>Nothing listens to what the transport emits while the socket calls it.\<close>

definition unheard :: "'w transport_hook" where
  "unheard ev t = t"

subsection \<open>The write buffer\<close>

definition emit_flush :: "'w engine_hook \<Rightarrow> 'w engine_scheme \<Rightarrow> 'w engine_scheme" where
  "emit_flush eh s =
     (let n = ping_waiters s; s = eh E_flush s in
      fold (\<lambda>_ s. eh E_ping (s\<lparr>ping_waiters := ping_waiters s - 1\<rparr>)) [0..<n] s)"

definition flush :: "browser \<Rightarrow> 'w engine_hook \<Rightarrow> 'w engine_scheme \<Rightarrow> 'w engine_scheme" where
  "flush b eh s =
     (if readyState s \<noteq> RS_closed \<and> \<not> has_transport s then throw TypeError s
      else if readyState s \<noteq> RS_closed \<and> writable s \<and> \<not> upgrading s \<and> writeBuffer s \<noteq> [] then
        case t_send b unheard (writeBuffer s) s of
          Inl e \<Rightarrow> throw e s
        | Inr s \<Rightarrow> emit_flush eh (s\<lparr>prevBufferLen := length (writeBuffer s)\<rparr>)
      else s)"

definition sendPacket :: "browser \<Rightarrow> 'w engine_hook \<Rightarrow> eio_type \<Rightarrow> eio_data \<Rightarrow> bool \<Rightarrow> 'w engine_scheme \<Rightarrow> 'w engine_scheme" where
  "sendPacket b eh type data ping_fn s =
     (if readyState s = RS_closing \<or> readyState s = RS_closed then s
      else
        let packet = \<lparr>etype = type, edata = data\<rparr>;
            s = eh (E_packetCreate packet) s;
            s = s\<lparr>writeBuffer := writeBuffer s @ [packet]\<rparr>;
            s = (if ping_fn then s\<lparr>ping_waiters := ping_waiters s + 1\<rparr> else s)
        in flush b eh s)"

definition engine_write :: "browser \<Rightarrow> 'w engine_hook \<Rightarrow> eio_data \<Rightarrow> 'w engine_scheme \<Rightarrow> 'w engine_scheme" where
  "engine_write b eh msg s = sendPacket b eh P_message msg False s"

definition ping :: "browser \<Rightarrow> 'w engine_hook \<Rightarrow> 'w engine_scheme \<Rightarrow> 'w engine_scheme" where
  "ping b eh s = sendPacket b eh P_ping NoData True s"

subsection \<open>Heartbeat\<close>

definition onHeartbeat :: "nat option \<Rightarrow> 'w engine_scheme \<Rightarrow> 'w engine_scheme" where
  "onHeartbeat timeout s = s\<lparr>pingTimeoutTimer := Some (case timeout of
       Some n \<Rightarrow> if n = 0 then pingInterval s + pingTimeout s else n
     | None \<Rightarrow> pingInterval s + pingTimeout s)\<rparr>"

definition setPing :: "'w engine_scheme \<Rightarrow> 'w engine_scheme" where
  "setPing s = s\<lparr>pingIntervalTimer := True\<rparr>"

definition ping_interval_fires :: "browser \<Rightarrow> 'w engine_hook \<Rightarrow> 'w engine_scheme \<Rightarrow> 'w engine_scheme" where
  "ping_interval_fires b eh s =
     (if \<not> pingIntervalTimer s then s
      else
        let s = ping b eh (s\<lparr>pingIntervalTimer := False\<rparr>)
        in onHeartbeat (Some (pingTimeout s)) s)"

subsection \<open>Closing\<close>

definition get_probe :: "nat \<Rightarrow> 'w engine_scheme \<Rightarrow> probe_state" where
  "get_probe k s = probes s ! k"

definition set_probe :: "nat \<Rightarrow> (probe_state \<Rightarrow> probe_state) \<Rightarrow> 'w engine_scheme \<Rightarrow> 'w engine_scheme" where
  "set_probe k f s = s\<lparr>probes := (probes s)[k := f (probes s ! k)]\<rparr>"

text \<open>The five listeners of a probe; without a transport, removing the first one throws.\<close>

definition probe_cleanup :: "nat \<Rightarrow> 'w engine_scheme \<Rightarrow> 'w engine_scheme" where
  "probe_cleanup k s = (case ptransport (get_probe k s) of
     None \<Rightarrow> throw TypeError s
   | Some _ \<Rightarrow> set_probe k (\<lambda>p. p\<lparr>on_open := False, on_error := False, on_close := False,
       self_close := False, self_upgrading := False\<rparr>) s)"

text \<open>The probe's transport is closed and let go of.\<close>

definition freezeTransport :: "browser \<Rightarrow> nat \<Rightarrow> 'w engine_scheme \<Rightarrow> 'w engine_scheme" where
  "freezeTransport b k s =
     (if failed (get_probe k s) then s
      else
        let s = probe_cleanup k (set_probe k (\<lambda>p. p\<lparr>failed := True\<rparr>) s) in
        case ptransport (get_probe k s) of
          None \<Rightarrow> s
        | Some t \<Rightarrow> set_probe k (\<lambda>p. p\<lparr>ptransport := None\<rparr>) (s\<lparr>retired := t_close b unheard t # retired s\<rparr>))"

text \<open>
  Closing emits \<open>close\<close>, which aborts the probes, which emits \<open>upgradeError\<close>, which may run the
  deferred close: \<open>close\<close> below is what that one calls.
\<close>

definition emit_upgradeError :: "'w engine_hook \<Rightarrow> ('w engine_scheme \<Rightarrow> 'w engine_scheme) \<Rightarrow> 'w engine_scheme \<Rightarrow> 'w engine_scheme" where
  "emit_upgradeError eh close s =
     (let deferred = close_on_upgrade s; s = eh E_upgradeError s in
      if deferred then close (s\<lparr>close_on_upgrade := False\<rparr>) else s)"

definition probe_onerror :: "browser \<Rightarrow> 'w engine_hook \<Rightarrow> ('w engine_scheme \<Rightarrow> 'w engine_scheme) \<Rightarrow> nat \<Rightarrow> 'w engine_scheme \<Rightarrow> 'w engine_scheme" where
  "probe_onerror b eh close k s =
     (if ptransport (get_probe k s) = None then throw TypeError s
      else emit_upgradeError eh close (freezeTransport b k s))"

definition emit_close :: "browser \<Rightarrow> 'w engine_hook \<Rightarrow> ('w engine_scheme \<Rightarrow> 'w engine_scheme) \<Rightarrow> jsstr \<Rightarrow> 'w engine_scheme \<Rightarrow> 'w engine_scheme" where
  "emit_close b eh close reason s =
     (let ks = filter (\<lambda>k. self_close (probes s ! k)) [0..<length (probes s)];
          s = eh (E_close reason) s
      in fold (\<lambda>k s. probe_onerror b eh close k (set_probe k (\<lambda>p. p\<lparr>self_close := False\<rparr>) s)) ks s)"

text \<open>
  The timers are cleared and the transport, its \<open>close\<close> listener removed first, is closed.
\<close>

definition onClose_body :: "browser \<Rightarrow> 'w engine_hook \<Rightarrow> ('w engine_scheme \<Rightarrow> 'w engine_scheme) \<Rightarrow> jsstr \<Rightarrow> 'w engine_scheme \<Rightarrow> 'w engine_scheme" where
  "onClose_body b eh close reason s =
     (if readyState s = RS_opening \<or> readyState s = RS_open \<or> readyState s = RS_closing then
        let s = s\<lparr>pingIntervalTimer := False, pingTimeoutTimer := None\<rparr> in
        if \<not> has_transport s then throw TypeError s
        else
          let s = removeAllListeners (t_close b unheard s);
              s = emit_close b eh close reason (s\<lparr>readyState := RS_closed, sid := JNull\<rparr>)
          in s\<lparr>writeBuffer := [], prevBufferLen := 0\<rparr>
      else s)"

text \<open>The end of a forced close; \<open>onClose\<close> has thrown when there is no transport.\<close>

definition close_transport :: "browser \<Rightarrow> 'w engine_scheme \<Rightarrow> 'w engine_scheme" where
  "close_transport b s = (if has_transport s then t_close b unheard s else s)"

text \<open>
  \<open>n\<close> bounds how often a deferred close may nest; a nested one finds the socket closed and
  returns, so 1 is enough.
\<close>

primrec onClose_nested :: "nat \<Rightarrow> browser \<Rightarrow> 'w engine_hook \<Rightarrow> jsstr \<Rightarrow> 'w engine_scheme \<Rightarrow> 'w engine_scheme" where
  "onClose_nested 0 b eh reason s = onClose_body b eh (\<lambda>s. s) reason s"
| "onClose_nested (Suc n) b eh reason s =
     onClose_body b eh (\<lambda>s. close_transport b (onClose_nested n b eh (lit ''forced close'') s)) reason s"

definition onClose :: "browser \<Rightarrow> 'w engine_hook \<Rightarrow> jsstr \<Rightarrow> 'w engine_scheme \<Rightarrow> 'w engine_scheme" where
  "onClose b eh reason s = onClose_nested 1 b eh reason s"

text \<open>The inner \<open>close\<close> of \<open>Socket.prototype.close\<close>.\<close>

definition close_now :: "browser \<Rightarrow> 'w engine_hook \<Rightarrow> 'w engine_scheme \<Rightarrow> 'w engine_scheme" where
  "close_now b eh s = close_transport b (onClose b eh (lit ''forced close'') s)"

definition waitForUpgrade :: "'w engine_scheme \<Rightarrow> 'w engine_scheme" where
  "waitForUpgrade s = s\<lparr>close_on_upgrade := True\<rparr>"

definition engine_close :: "browser \<Rightarrow> 'w engine_hook \<Rightarrow> 'w engine_scheme \<Rightarrow> 'w engine_scheme" where
  "engine_close b eh s =
     (if readyState s = RS_opening \<or> readyState s = RS_open then
        let s = s\<lparr>readyState := RS_closing\<rparr> in
        if writeBuffer s \<noteq> [] then s\<lparr>close_on_drain := True\<rparr>
        else if upgrading s then waitForUpgrade s
        else close_now b eh s
      else s)"

definition onError :: "browser \<Rightarrow> 'w engine_hook \<Rightarrow> jsstr \<Rightarrow> 'w engine_scheme \<Rightarrow> 'w engine_scheme" where
  "onError b eh desc s =
     onClose b eh (lit ''transport error'') (eh (E_error desc) (s\<lparr>priorWebsocketSuccess := False\<rparr>))"

definition ping_timeout_fires :: "browser \<Rightarrow> 'w engine_hook \<Rightarrow> 'w engine_scheme \<Rightarrow> 'w engine_scheme" where
  "ping_timeout_fires b eh s =
     (if pingTimeoutTimer s = None then s
      else
        let s = s\<lparr>pingTimeoutTimer := None\<rparr> in
        if readyState s = RS_closed then s else onClose b eh (lit ''ping timeout'') s)"

subsection \<open>Draining\<close>

definition emit_engine_drain :: "browser \<Rightarrow> 'w engine_hook \<Rightarrow> 'w engine_scheme \<Rightarrow> 'w engine_scheme" where
  "emit_engine_drain b eh s =
     (let deferred = close_on_drain s; s = eh E_drain s in
      if deferred then
        let s = s\<lparr>close_on_drain := False\<rparr> in
        if upgrading s then waitForUpgrade s else close_now b eh s
      else s)"

definition onDrain :: "browser \<Rightarrow> 'w engine_hook \<Rightarrow> 'w engine_scheme \<Rightarrow> 'w engine_scheme" where
  "onDrain b eh s =
     (let s = s\<lparr>writeBuffer := drop (prevBufferLen s) (writeBuffer s), prevBufferLen := 0\<rparr> in
      if writeBuffer s = [] then emit_engine_drain b eh s else flush b eh s)"


subsection \<open>Transports\<close>

definition createTransport :: "browser \<Rightarrow> jsstr \<Rightarrow> 'w engine_scheme \<Rightarrow> transport result" where
  "createTransport b name s =
     bindE (if engine_query s = [] then Inr () else check_hasOwnProperty (engine_query s)) (\<lambda>_.
       let q = set_prop (lit ''transport'') (JStr name) (set_prop (lit ''EIO'') (JNum (js_nat 3)) (engine_query s));
           q = (if truthy (sid s) then set_prop (lit ''sid'') (sid s) q else q)
       in new_transport b (jsonp_index s) name (engine_opts s) q)"

text \<open>A transport of its own reports its events in a list, for its owner to handle.\<close>

definition logged :: "(transport_event list transport_scheme \<Rightarrow> transport_event list transport_scheme) \<Rightarrow>
    transport \<Rightarrow> transport \<times> transport_event list" where
  "logged f t = (let t' = f (transport.extend (t\<lparr>listening := True\<rparr>) []) in (transport.truncate t', transport.more t'))"

text \<open>A transport that was a probe's has no pauses: \<open>pause\<close> is only called on the socket's transport.\<close>

definition swap_transport :: "transport \<Rightarrow> 'w engine_scheme \<Rightarrow> 'w engine_scheme" where
  "swap_transport t s = transport.extend (t\<lparr>listening := True, pausers := []\<rparr>) (transport.more s)"

definition setTransport :: "transport \<Rightarrow> 'w engine_scheme \<Rightarrow> 'w engine_scheme" where
  "setTransport t s =
     (let s = (if has_transport s then s\<lparr>retired := transport.truncate (removeAllListeners s) # retired s\<rparr> else s)
      in (swap_transport t s)\<lparr>has_transport := True\<rparr>)"

text \<open>
  The transport is opened before the socket listens to it. A transport that cannot be created is
  dropped from the list.
\<close>

function engine_open :: "browser \<Rightarrow> 'w engine_scheme \<Rightarrow> 'w engine_scheme" where
  "engine_open b s =
     (let websocket = rememberUpgrade s \<and> priorWebsocketSuccess s \<and> lit ''websocket'' \<in> set (transports s) in
      if \<not> websocket \<and> transports s = [] then s\<lparr>no_transports_timer := True\<rparr>
      else
        let name = (if websocket then lit ''websocket'' else hd (transports s)); s = s\<lparr>readyState := RS_opening\<rparr> in
        case createTransport b name s of
          Inl _ \<Rightarrow> engine_open b (s\<lparr>transports := tl (transports s)\<rparr>)
        | Inr t \<Rightarrow>
            setTransport (t_open b unheard t)
              (if kind t = JSONP then s\<lparr>jsonp_index := jsonp_index s + 1\<rparr> else s))"
  by pat_completeness auto
termination
  by (relation "measure (\<lambda>(b, s). length (transports s))") (auto simp: Let_def dest: length_pos_if_in_set)

declare engine_open.simps [simp del]

definition no_transports_fires :: "'w engine_hook \<Rightarrow> 'w engine_scheme \<Rightarrow> 'w engine_scheme" where
  "no_transports_fires eh s =
     (if no_transports_timer s
      then eh (E_error (lit ''No transports available'')) (s\<lparr>no_transports_timer := False\<rparr>) else s)"

subsection \<open>Probes\<close>

definition upgrade_packet :: eio_packet where
  "upgrade_packet = \<lparr>etype = P_upgrade, edata = NoData\<rparr>"

definition probe_ping :: eio_packet where
  "probe_ping = \<lparr>etype = P_ping, edata = Text (lit ''probe'')\<rparr>"

definition emit_upgrade :: "browser \<Rightarrow> 'w engine_hook \<Rightarrow> 'w engine_scheme \<Rightarrow> 'w engine_scheme" where
  "emit_upgrade b eh s =
     (let deferred = close_on_upgrade s; s = eh E_upgrade s in
      if deferred then close_now b eh (s\<lparr>close_on_upgrade := False\<rparr>) else s)"

text \<open>The probes of another transport are aborted.\<close>

definition onupgrade :: "browser \<Rightarrow> jsstr \<Rightarrow> nat \<Rightarrow> 'w engine_scheme \<Rightarrow> 'w engine_scheme" where
  "onupgrade b name k s =
     (let s = set_probe k (\<lambda>p. p\<lparr>self_upgrading := False\<rparr>) s in
      case ptransport (get_probe k s) of
        None \<Rightarrow> s
      | Some t \<Rightarrow> if name \<noteq> tname (kind t) then freezeTransport b k s else s)"

definition emit_upgrading :: "browser \<Rightarrow> 'w engine_hook \<Rightarrow> jsstr \<Rightarrow> 'w engine_scheme \<Rightarrow> 'w engine_scheme" where
  "emit_upgrading b eh name s =
     (let ks = filter (\<lambda>k. self_upgrading (probes s ! k)) [0..<length (probes s)]
      in fold (onupgrade b name) ks (eh E_upgrading s))"

text \<open>
  The callback of \<open>pause\<close>: the probe's transport becomes the socket's, and sends the upgrade packet
  before anything that is in the write buffer.
\<close>

definition probe_paused :: "browser \<Rightarrow> 'w engine_hook \<Rightarrow> nat \<Rightarrow> 'w engine_scheme \<Rightarrow> 'w engine_scheme" where
  "probe_paused b eh k s =
     (if failed (get_probe k s) \<or> readyState s = RS_closed then s
      else case ptransport (get_probe k s) of
        None \<Rightarrow> throw TypeError s
      | Some t \<Rightarrow>
          let s = setTransport t (probe_cleanup k s) in
          case t_send b unheard [upgrade_packet] s of
            Inl e \<Rightarrow> throw e s
          | Inr s \<Rightarrow>
              let s = emit_upgrade b eh s;
                  s = set_probe k (\<lambda>p. p\<lparr>ptransport := None\<rparr>) s
              in flush b eh (s\<lparr>upgrading := False\<rparr>))"

definition on_paused :: "browser \<Rightarrow> 'w engine_hook \<Rightarrow> transport_event \<Rightarrow> 'w engine_scheme \<Rightarrow> 'w engine_scheme" where
  "on_paused b eh ev s = (case ev of T_paused k \<Rightarrow> probe_paused b eh k s | _ \<Rightarrow> s)"

definition upgradeError_now :: "browser \<Rightarrow> 'w engine_hook \<Rightarrow> 'w engine_scheme \<Rightarrow> 'w engine_scheme" where
  "upgradeError_now b eh s = emit_upgradeError eh (close_now b eh) s"

definition onTransportOpen :: "browser \<Rightarrow> nat \<Rightarrow> 'w engine_scheme \<Rightarrow> 'w engine_scheme" where
  "onTransportOpen b k s =
     (case ptransport (get_probe k s) of
        None \<Rightarrow> throw TypeError s
      | Some t \<Rightarrow>
          let loses = onlyBinaryUpgrades s \<and> \<not> transport.supportsBinary t \<and> transport.supportsBinary s;
              s = set_probe k (\<lambda>p. p\<lparr>failed := failed p \<or> loses\<rparr>) s
          in if failed (get_probe k s) then s
             else case t_send b unheard [probe_ping] t of
               Inl e \<Rightarrow> throw e s
             | Inr t \<Rightarrow> set_probe k (\<lambda>p. p\<lparr>ptransport := Some t, on_packet := True\<rparr>) s)"

definition is_probe_pong :: "eio_packet \<Rightarrow> bool" where
  "is_probe_pong msg \<longleftrightarrow> etype msg = P_pong \<and> edata msg = Text (lit ''probe'')"

text \<open>
  A pong to the probe pauses the socket's transport; any other packet leaves the probe's listeners
  where they are.
\<close>

definition onTransportPacket :: "browser \<Rightarrow> 'w engine_hook \<Rightarrow> nat \<Rightarrow> eio_packet \<Rightarrow> 'w engine_scheme \<Rightarrow> 'w engine_scheme" where
  "onTransportPacket b eh k msg s =
     (if failed (get_probe k s) then s
      else if is_probe_pong msg then
        (case ptransport (get_probe k s) of
           None \<Rightarrow> throw TypeError s
         | Some t \<Rightarrow>
             let s = emit_upgrading b eh (tname (kind t)) (s\<lparr>upgrading := True\<rparr>) in
             if ptransport (get_probe k s) = None then s
             else
               let s = s\<lparr>priorWebsocketSuccess := (kind t = WS)\<rparr> in
               if kind s = WS then throw TypeError s
               else pause (on_paused b eh) k s)
      else upgradeError_now b eh s)"

text \<open>The events of the probe's transport, for the listeners that are still registered.\<close>

fun probe_event :: "browser \<Rightarrow> 'w engine_hook \<Rightarrow> nat \<Rightarrow> transport_event \<Rightarrow> 'w engine_scheme \<Rightarrow> 'w engine_scheme" where
  "probe_event b eh k T_open s =
     (if on_open (get_probe k s) then onTransportOpen b k (set_probe k (\<lambda>p. p\<lparr>on_open := False\<rparr>) s) else s)"
| "probe_event b eh k (T_error e) s =
     (if on_error (get_probe k s)
      then probe_onerror b eh (close_now b eh) k (set_probe k (\<lambda>p. p\<lparr>on_error := False\<rparr>) s) else s)"
| "probe_event b eh k T_close s =
     (if on_close (get_probe k s)
      then probe_onerror b eh (close_now b eh) k (set_probe k (\<lambda>p. p\<lparr>on_close := False\<rparr>) s) else s)"
| "probe_event b eh k (T_packet msg) s =
     (if on_packet (get_probe k s)
      then onTransportPacket b eh k msg (set_probe k (\<lambda>p. p\<lparr>on_packet := False\<rparr>) s) else s)"
| "probe_event b eh k _ s = s"

text \<open>The browser calls the probe's transport.\<close>

definition probe_input :: "browser \<Rightarrow> 'w engine_hook \<Rightarrow> nat \<Rightarrow>
    (transport_event list transport_scheme \<Rightarrow> transport_event list transport_scheme) \<Rightarrow> 'w engine_scheme \<Rightarrow> 'w engine_scheme" where
  "probe_input b eh k f s =
     (case ptransport (get_probe k s) of
        None \<Rightarrow> s
      | Some t \<Rightarrow> (case logged f t of (t', evs) \<Rightarrow>
          fold (probe_event b eh k) evs (set_probe k (\<lambda>p. p\<lparr>ptransport := Some t'\<rparr>) s)))"

definition probe :: "browser \<Rightarrow> 'w engine_hook \<Rightarrow> jsstr \<Rightarrow> 'w engine_scheme \<Rightarrow> 'w engine_scheme" where
  "probe b eh name s =
     (case createTransport b name s of
        Inl e \<Rightarrow> throw e s
      | Inr t \<Rightarrow>
          let s = s\<lparr>priorWebsocketSuccess := False,
                jsonp_index := (if kind t = JSONP then jsonp_index s + 1 else jsonp_index s),
                probes := probes s @ [\<lparr>ptransport = Some t, failed = False, on_open = True, on_error = True,
                  on_close = True, on_packet = False, self_close = True, self_upgrading = True\<rparr>]\<rparr>
          in probe_input b eh (length (probes s) - 1) (t_open b log_hook) s)"

subsection \<open>Opening\<close>

definition engine_onOpen :: "browser \<Rightarrow> 'w engine_hook \<Rightarrow> 'w engine_scheme \<Rightarrow> 'w engine_scheme" where
  "engine_onOpen b eh s =
     (let s = flush b eh (eh E_open (s\<lparr>readyState := RS_open, priorWebsocketSuccess := (kind s = WS)\<rparr>)) in
      if readyState s = RS_open \<and> upgrade s \<and> kind s \<noteq> WS
      then fold (\<lambda>i s. probe b eh (upgrades s ! i) s) [0..<length (upgrades s)] s
      else s)"

definition filterUpgrades :: "jsstr list \<Rightarrow> jsstr list \<Rightarrow> jsstr list" where
  "filterUpgrades ts us = filter (\<lambda>u. u \<in> set ts) us"

text \<open>
  \<open>parsejson\<close> (module 43) trims and hands over to \<open>JSON.parse\<close>.
\<close>

definition parsejson :: "eio_data \<Rightarrow> jsval result" where
  "parsejson data = (case data of Text s \<Rightarrow> if s = [] then Inr JNull else json_parse (trim s) | _ \<Rightarrow> Inr JNull)"

text \<open>
  The fields of the handshake. The elements of \<open>upgrades\<close> that are no strings are no transport
  names and are filtered out; a delay that is no number counts as 0 for the timers.
\<close>

fun field :: "string \<Rightarrow> jsval \<Rightarrow> jsval" where
  "field k (JObj kvs) = get_field (lit k) kvs"
| "field k _ = JUndef"

fun upgrade_names :: "jsval \<Rightarrow> jsstr list result" where
  "upgrade_names JUndef = Inl TypeError"
| "upgrade_names JNull = Inl TypeError"
| "upgrade_names (JArr vs) = Inr (concat (map (\<lambda>v. case v of JStr s \<Rightarrow> [s] | _ \<Rightarrow> []) vs))"
| "upgrade_names _ = Inr []"

fun to_delay :: "jsval \<Rightarrow> nat" where
  "to_delay (JNum (Decimal m e)) = nat (if 0 \<le> e then m * 10 ^ nat e else m div 10 ^ nat (- e))"
| "to_delay _ = 0"

definition onHandshake :: "browser \<Rightarrow> 'w engine_hook \<Rightarrow> jsval \<Rightarrow> 'w engine_scheme \<Rightarrow> 'w engine_scheme" where
  "onHandshake b eh data s =
     (let s = eh E_handshake s in
      if data = JUndef \<or> data = JNull then throw TypeError s
      else
        let s = s\<lparr>sid := field ''sid'' data, query := set_prop (lit ''sid'') (field ''sid'' data) (query s)\<rparr> in
        case upgrade_names (field ''upgrades'' data) of
          Inl e \<Rightarrow> throw e s
        | Inr us \<Rightarrow>
            let s = engine_onOpen b eh (s\<lparr>upgrades := filterUpgrades (transports s) us,
                      pingInterval := to_delay (field ''pingInterval'' data),
                      pingTimeout := to_delay (field ''pingTimeout'' data)\<rparr>)
            in if readyState s = RS_closed then s
               else (setPing s)\<lparr>heartbeat_listener := True\<rparr>)"

definition emit_heartbeat :: "'w engine_hook \<Rightarrow> 'w engine_scheme \<Rightarrow> 'w engine_scheme" where
  "emit_heartbeat eh s =
     (let listens = heartbeat_listener s; s = eh E_heartbeat s in if listens then onHeartbeat None s else s)"

definition onPacket :: "browser \<Rightarrow> 'w engine_hook \<Rightarrow> eio_packet \<Rightarrow> 'w engine_scheme \<Rightarrow> 'w engine_scheme" where
  "onPacket b eh packet s =
     (if readyState s = RS_opening \<or> readyState s = RS_open \<or> readyState s = RS_closing then
        let s = emit_heartbeat eh (eh (E_packet packet) s) in
        case etype packet of
          P_open \<Rightarrow> (case parsejson (edata packet) of Inl e \<Rightarrow> throw e s | Inr data \<Rightarrow> onHandshake b eh data s)
        | P_pong \<Rightarrow> eh E_pong (setPing s)
        | P_error \<Rightarrow> onError b eh (lit ''server error'') s
        | P_message \<Rightarrow> eh (E_message (edata packet)) (eh (E_data (edata packet)) s)
        | _ \<Rightarrow> s
      else s)"

text \<open>What the socket listens to on its transport; \<open>T_paused\<close> is the callback of a probe.\<close>

fun engine_hook :: "browser \<Rightarrow> 'w engine_hook \<Rightarrow> transport_event \<Rightarrow> 'w engine_scheme \<Rightarrow> 'w engine_scheme" where
  "engine_hook b eh T_drain s = onDrain b eh s"
| "engine_hook b eh (T_packet p) s = onPacket b eh p s"
| "engine_hook b eh (T_error e) s = onError b eh e s"
| "engine_hook b eh T_close s = onClose b eh (lit ''transport close'') s"
| "engine_hook b eh (T_paused k) s = probe_paused b eh k s"
| "engine_hook b eh _ s = s"


subsection \<open>Everything that happens to a socket\<close>

datatype probe_in = Pr_open | Pr_message eio_data | Pr_error jsstr | Pr_close | Pr_tick

fun probe_call :: "browser \<Rightarrow> probe_in \<Rightarrow> transport_event list transport_scheme \<Rightarrow> transport_event list transport_scheme" where
  "probe_call b Pr_open t = (if tstate t = TS_opening then t_onOpen b log_hook t else t)"
| "probe_call b (Pr_message data) t = t_onData b log_hook data t"
| "probe_call b (Pr_error e) t = t_onError log_hook e t"
| "probe_call b Pr_close t = t_onClose log_hook t"
| "probe_call b Pr_tick t = ws_tick log_hook t"

datatype engine_input =
    I_write eio_data            \<comment> \<open>the user\<close>
  | I_close
  | I_poll_data eio_data        \<comment> \<open>the transport's requests and web socket\<close>
  | I_post_done
  | I_ws_open
  | I_ws_message eio_data
  | I_ws_tick
  | I_transport_error jsstr
  | I_transport_close
  | I_probe nat probe_in
  | I_ping_timer                \<comment> \<open>the timers\<close>
  | I_timeout_timer
  | I_no_transports

text \<open>
  A web socket that was closed while it connected never opens, and a transport that is still
  opening has written nothing that could be reported as done.
\<close>

fun engine_step :: "browser \<Rightarrow> 'w engine_hook \<Rightarrow> engine_input \<Rightarrow> 'w engine_scheme \<Rightarrow> 'w engine_scheme" where
  "engine_step b eh (I_write data) s = engine_write b eh data s"
| "engine_step b eh I_close s = engine_close b eh s"
| "engine_step b eh (I_poll_data data) s =
     (case polling_onData b (engine_hook b eh) data s of Inl e \<Rightarrow> throw e s | Inr s \<Rightarrow> s)"
| "engine_step b eh I_post_done s = (if tstate s \<noteq> TS_opening then write_done (engine_hook b eh) s else s)"
| "engine_step b eh I_ws_open s = (if tstate s = TS_opening then t_onOpen b (engine_hook b eh) s else s)"
| "engine_step b eh (I_ws_message data) s = t_onData b (engine_hook b eh) data s"
| "engine_step b eh I_ws_tick s = (if tstate s \<noteq> TS_opening then ws_tick (engine_hook b eh) s else s)"
| "engine_step b eh (I_transport_error e) s = t_onError (engine_hook b eh) e s"
| "engine_step b eh I_transport_close s = t_onClose (engine_hook b eh) s"
| "engine_step b eh (I_probe k i) s = (if k < length (probes s) then probe_input b eh k (probe_call b i) s else s)"
| "engine_step b eh I_ping_timer s = ping_interval_fires b eh s"
| "engine_step b eh I_timeout_timer s = ping_timeout_fires b eh s"
| "engine_step b eh I_no_transports s = no_transports_fires eh s"

subsection \<open>What the transport's operations leave alone\<close>

lemma more_fields:
  assumes "transport.more s = transport.more t"
  shows "readyState s = readyState t" "has_transport s = has_transport t" "transports s = transports t"
    "writeBuffer s = writeBuffer t" "prevBufferLen s = prevBufferLen t" "upgrading s = upgrading t"
    "probes s = probes t" "close_on_drain s = close_on_drain t" "close_on_upgrade s = close_on_upgrade t"
    "thrown s = thrown t" "retired s = retired t" "pingIntervalTimer s = pingIntervalTimer t"
    "pingTimeoutTimer s = pingTimeoutTimer t" "sid s = sid t" "ping_waiters s = ping_waiters t"
  using assms by (cases s, cases t, simp)+

lemma more_act [simp]: "transport.more (act a t) = transport.more t"
  by (simp add: act_def)

lemma more_fold: "(\<And>x t. transport.more (f x t) = transport.more t) \<Longrightarrow> transport.more (fold f xs t) = transport.more t"
  by (induction xs arbitrary: t) simp_all

lemma more_polling_write [simp]: "transport.more (polling_write b ps t) = transport.more t"
  by (simp add: polling_write_def Let_def more_fold split: sum.split)

lemma more_ws_write [simp]: "transport.more (ws_write b unheard ps t) = transport.more t"
  by (simp add: ws_write_def Let_def more_fold t_emit_def unheard_def)

lemma more_t_close [simp]: "transport.more (t_close b unheard t) = transport.more t"
  by (simp add: t_close_def t_onClose_def t_emit_def unheard_def doClose_def polling_doClose_def jsonp_doClose_def
      ws_doClose_def split: transport_kind.split)

lemma more_removeAllListeners [simp]: "transport.more (removeAllListeners t) = transport.more t"
  by (simp add: removeAllListeners_def)

lemma more_t_send: "t_send b unheard ps t = Inr t' \<Longrightarrow> transport.more t' = transport.more t"
  by (auto simp: t_send_def t_write_def split: if_splits)

lemma more_close_transport [simp]: "transport.more (close_transport b t) = transport.more t"
  by (simp add: close_transport_def)

lemmas engine_untouched [simp] =
  more_fields [OF more_close_transport]
  more_fields [OF more_t_close] more_fields [OF more_removeAllListeners] more_fields [OF more_polling_write]

lemma write_fields:
  "tstate (polling_write b ps t) = tstate t" "\<not> writable (polling_write b ps t)"
  "listening (polling_write b ps t) = listening t" "pausers (polling_write b ps t) = pausers t"
proof -
  have "tstate (fold (\<lambda>d t. act (A_post d) (if kind t = JSONP then t\<lparr>form := True\<rparr> else t)) ds t) = tstate t \<and>
    writable (fold (\<lambda>d t. act (A_post d) (if kind t = JSONP then t\<lparr>form := True\<rparr> else t)) ds t) = writable t \<and>
    listening (fold (\<lambda>d t. act (A_post d) (if kind t = JSONP then t\<lparr>form := True\<rparr> else t)) ds t) = listening t \<and>
    pausers (fold (\<lambda>d t. act (A_post d) (if kind t = JSONP then t\<lparr>form := True\<rparr> else t)) ds t) = pausers t"
    for ds and t :: "'a transport_scheme"
    by (induction ds arbitrary: t) simp_all
  then show "tstate (polling_write b ps t) = tstate t" "\<not> writable (polling_write b ps t)"
    "listening (polling_write b ps t) = listening t" "pausers (polling_write b ps t) = pausers t"
    by (simp_all add: polling_write_def Let_def split: sum.split)
qed

lemma ws_write_fields:
  "tstate (ws_write b unheard ps t) = tstate t" "\<not> writable (ws_write b unheard ps t)"
  "listening (ws_write b unheard ps t) = listening t" "pausers (ws_write b unheard ps t) = pausers t"
proof -
  have "tstate (fold (\<lambda>p t. act (A_frame (encodePacket e (supportsBinary t) False p)) t) ps t) = tstate t \<and>
    writable (fold (\<lambda>p t. act (A_frame (encodePacket e (supportsBinary t) False p)) t) ps t) = writable t \<and>
    listening (fold (\<lambda>p t. act (A_frame (encodePacket e (supportsBinary t) False p)) t) ps t) = listening t \<and>
    pausers (fold (\<lambda>p t. act (A_frame (encodePacket e (supportsBinary t) False p)) t) ps t) = pausers t"
    for e ps and t :: "'a transport_scheme"
    by (induction ps arbitrary: t) simp_all
  then show "tstate (ws_write b unheard ps t) = tstate t" "\<not> writable (ws_write b unheard ps t)"
    "listening (ws_write b unheard ps t) = listening t" "pausers (ws_write b unheard ps t) = pausers t"
    by (simp_all add: ws_write_def Let_def t_emit_def unheard_def)
qed

lemma t_send_fields:
  assumes "t_send b unheard ps t = Inr t'"
  shows "tstate t = TS_open" "tstate t' = TS_open" "\<not> writable t'" "listening t' = listening t" "pausers t' = pausers t"
  using assms write_fields [of b ps t] ws_write_fields [of b ps t]
  by (auto simp: t_send_def t_write_def split: if_splits)

subsection \<open>The invariant\<close>

definition live :: "'w engine_scheme \<Rightarrow> bool" where
  "live s \<longleftrightarrow> readyState s = RS_opening \<or> readyState s = RS_open \<or> readyState s = RS_closing"

text \<open>
  No more packets are in flight than buffered. While the socket lives, it listens to its transport;
  packets are in flight only while the transport is not writable; the transport is opening or open
  unless an upgrade is under way, which a pause implies; and while it is opening it is not writable
  and carries nothing.
\<close>

definition engine_core :: "js_error option \<Rightarrow> nat \<Rightarrow> nat \<Rightarrow> ready_state \<Rightarrow> bool \<Rightarrow> bool \<Rightarrow> bool \<Rightarrow> bool \<Rightarrow>
    transport_state \<Rightarrow> bool \<Rightarrow> bool" where
  "engine_core exn in_flight buffered rs attached heard free stalled ts pending \<longleftrightarrow> (exn = None \<longrightarrow>
     in_flight \<le> buffered \<and> (\<not> attached \<longrightarrow> in_flight = 0) \<and>
     (rs \<noteq> RS_none \<and> rs \<noteq> RS_closed \<and> attached \<longrightarrow>
        heard \<and> (in_flight > 0 \<longrightarrow> \<not> free) \<and> (\<not> stalled \<longrightarrow> ts = TS_opening \<or> ts = TS_open) \<and>
        (pending \<longrightarrow> stalled) \<and> (ts = TS_opening \<longrightarrow> \<not> free \<and> in_flight = 0)))"

definition pause_pending :: "'w transport_scheme \<Rightarrow> bool" where
  "pause_pending t \<longleftrightarrow> pausers t \<noteq> []"

definition engine_inv :: "'w engine_scheme \<Rightarrow> bool" where
  "engine_inv s = engine_core (thrown s) (prevBufferLen s) (length (writeBuffer s)) (readyState s) (has_transport s)
     (listening s) (writable s) (upgrading s) (tstate s) (pause_pending s)"

lemma live_iff: "live s \<longleftrightarrow> readyState s \<noteq> RS_none \<and> readyState s \<noteq> RS_closed"
  by (cases "readyState s") (simp_all add: live_def)

lemma core_exn [simp]: "engine_core (Some e) p n r h l w u t q"
  by (simp add: engine_core_def)

lemma core_push: "engine_core e p n r h l w u t q \<Longrightarrow> engine_core e p (Suc n) r h l w u t q"
  unfolding engine_core_def by (metis le_SucI)

lemma core_sent:
  "engine_core e p n r h l w u t q \<Longrightarrow> h \<Longrightarrow> t \<noteq> TS_opening \<Longrightarrow> engine_core e n n r h l False u t q"
  unfolding engine_core_def by (metis order_refl)

lemma core_idle:
  "r = RS_none \<or> r = RS_closed \<Longrightarrow> engine_core e p n r h l w u t q = engine_core e p n r h l' w' u' t' q'"
  unfolding engine_core_def by metis

lemma core_closed: "p \<le> n \<Longrightarrow> h \<Longrightarrow> engine_core e p n RS_closed h l w u t q"
  unfolding engine_core_def by blast

lemma core_empty: "engine_core e p n r h l w u t q \<Longrightarrow> engine_core e 0 0 r h l w u t q"
  unfolding engine_core_def by (metis le_refl less_irrefl)

lemma core_live:
  "engine_core e p n r h l w u t q \<Longrightarrow> r \<noteq> RS_none \<and> r \<noteq> RS_closed \<Longrightarrow> engine_core e p n r' h l w u t q"
  unfolding engine_core_def by metis

lemma core_drained:
  "engine_core e p n r h l w u t q \<Longrightarrow> t \<noteq> TS_opening \<Longrightarrow> engine_core e 0 (n - p) r h l w' u t q"
  unfolding engine_core_def by (metis le0 less_irrefl)

lemma core_opened: "engine_core e p n r h l w u TS_opening q \<Longrightarrow> engine_core e p n r h l w' u TS_open q"
  unfolding engine_core_def by (metis less_irrefl transport_state.distinct)

lemma core_unwritable: "engine_core e p n r h l w u t q \<Longrightarrow> engine_core e p n r h l False u t q"
  unfolding engine_core_def by metis

lemma core_stalled: "engine_core e p n r h l w True t q \<Longrightarrow> t' \<noteq> TS_opening \<Longrightarrow> engine_core e p n r h l w True t' q'"
  unfolding engine_core_def by metis

lemma core_swapped:
  "engine_core e p n r h l w u t q \<Longrightarrow> engine_core e p n r True True False u' TS_open False"
  unfolding engine_core_def by (metis transport_state.distinct)

lemma core_stall: "engine_core e p n r h l w u t q \<Longrightarrow> engine_core e p n r h l w True t q"
  unfolding engine_core_def by metis

lemma core_resume:
  "engine_core e p n r h l w u t q \<Longrightarrow> t = TS_open \<Longrightarrow> \<not> q \<Longrightarrow> engine_core e p n r h l w u' t q"
  unfolding engine_core_def by metis

lemma core_unheard: "engine_core e p n r h False w u t q \<Longrightarrow> engine_core e p n r h False w' u t' q"
  unfolding engine_core_def by metis

lemma core_paused: "engine_core e p n r h l w u t True \<Longrightarrow> t' \<noteq> TS_opening \<Longrightarrow> engine_core e p n r h l w u t' True"
  unfolding engine_core_def by metis

lemma core_off: "engine_core e p n r h l w u t q \<Longrightarrow> r = RS_none \<or> r = RS_closed \<Longrightarrow> engine_core e p n r h l w u' t q"
  unfolding engine_core_def by metis

lemma inv_unaffected [simp]:
  "engine_inv (s\<lparr>ping_waiters := a\<rparr>) = engine_inv s"
  "engine_inv (s\<lparr>pingIntervalTimer := c\<rparr>) = engine_inv s"
  "engine_inv (s\<lparr>pingTimeoutTimer := d\<rparr>) = engine_inv s"
  "engine_inv (s\<lparr>priorWebsocketSuccess := c\<rparr>) = engine_inv s"
  "engine_inv (s\<lparr>sid := v\<rparr>) = engine_inv s"
  "engine_inv (s\<lparr>close_on_drain := c\<rparr>) = engine_inv s"
  "engine_inv (s\<lparr>close_on_upgrade := c\<rparr>) = engine_inv s"
  "engine_inv (s\<lparr>probes := ps\<rparr>) = engine_inv s"
  "engine_inv (s\<lparr>retired := ts\<rparr>) = engine_inv s"
  "engine_inv (s\<lparr>jsonp_index := n\<rparr>) = engine_inv s"
  "engine_inv (s\<lparr>transports := us\<rparr>) = engine_inv s"
  "engine_inv (s\<lparr>upgrades := us\<rparr>) = engine_inv s"
  "engine_inv (s\<lparr>pingInterval := n\<rparr>) = engine_inv s"
  "engine_inv (s\<lparr>pingTimeout := n\<rparr>) = engine_inv s"
  "engine_inv (s\<lparr>heartbeat_listener := c\<rparr>) = engine_inv s"
  "engine_inv (s\<lparr>no_transports_timer := c\<rparr>) = engine_inv s"
  by (simp_all add: engine_inv_def pause_pending_def)

lemma inv_unaffected_transport [simp]:
  "engine_inv (s\<lparr>polling := c\<rparr>) = engine_inv s"
  "engine_inv (s\<lparr>query := q\<rparr>) = engine_inv s"
  "engine_inv (s\<lparr>actions := as\<rparr>) = engine_inv s"
  "engine_inv (s\<lparr>close_on_open := c\<rparr>) = engine_inv s"
  "engine_inv (s\<lparr>script := c\<rparr>) = engine_inv s"
  "engine_inv (s\<lparr>form := c\<rparr>) = engine_inv s"
  "engine_inv (s\<lparr>drain_timers := n\<rparr>) = engine_inv s"
  by (simp_all add: engine_inv_def pause_pending_def)

lemma inv_throw [simp]: "engine_inv (throw e s)"
  by (simp add: throw_def engine_inv_def)

lemma inv_set_probe [simp]: "engine_inv (set_probe k f s) = engine_inv s"
  by (simp add: set_probe_def)

lemma inv_closed: "readyState s = RS_closed \<Longrightarrow> has_transport s \<Longrightarrow> prevBufferLen s \<le> length (writeBuffer s) \<Longrightarrow> engine_inv s"
  by (simp add: engine_inv_def core_closed)

lemma inv_fold: "engine_inv s \<Longrightarrow> (\<And>x s. engine_inv s \<Longrightarrow> engine_inv (f x s)) \<Longrightarrow> engine_inv (fold f xs s)"
  by (induction xs arbitrary: s) simp_all

text \<open>
  What the socket relies on of the listeners of its user: they go through the socket's interface,
  so they keep the invariant, and do not touch the transport or an upgrade that is under way; they
  do not open a closed socket again; and the events the socket uses internally have no listener
  that closes it.
\<close>

locale engine_user =
  fixes b :: browser and eh :: "engine_event \<Rightarrow> 'w engine_scheme \<Rightarrow> 'w engine_scheme"
  assumes preserves: "engine_inv s \<Longrightarrow> engine_inv (eh ev s)"
    and keeps_closed: "readyState s = RS_closed \<Longrightarrow> readyState (eh ev s) = RS_closed"
    and keeps_transport: "upgrading (eh ev s) = upgrading s" "live (eh ev s) \<Longrightarrow> tstate (eh ev s) = tstate s"
      "live (eh ev s) \<Longrightarrow> pausers (eh ev s) = pausers s" "live (eh ev s) \<Longrightarrow> live s"
    and keeps_live: "ev = E_packet p \<or> ev = E_heartbeat \<or> ev = E_handshake \<Longrightarrow> readyState (eh ev s) = readyState s"
begin

lemma inv_emit_flush:
  assumes "engine_inv s"
  shows "engine_inv (emit_flush eh s)"
  unfolding emit_flush_def Let_def
  by (rule inv_fold) (use assms preserves in auto)

lemma inv_flush:
  assumes "engine_inv s"
  shows "engine_inv (flush b eh s)"
proof (cases "has_transport s \<and> readyState s \<noteq> RS_closed \<and> writable s \<and> \<not> upgrading s \<and> writeBuffer s \<noteq> []")
  case True
  show ?thesis
  proof (cases "t_send b unheard (writeBuffer s) s")
    case (Inl e)
    then show ?thesis by (auto simp: flush_def assms)
  next
    case (Inr t)
    note same = more_fields [OF more_t_send [OF Inr]]
    note t = t_send_fields [OF Inr]
    have "engine_core (thrown s) (length (writeBuffer s)) (length (writeBuffer s)) (readyState s) (has_transport s)
        (listening s) False (upgrading s) (tstate s) (pause_pending s)"
      by (rule core_sent) (use assms True t(1) in \<open>simp_all add: engine_inv_def\<close>)
    then have "engine_inv (t\<lparr>prevBufferLen := length (writeBuffer t)\<rparr>)"
      using t by (simp add: engine_inv_def same pause_pending_def)
    then show ?thesis
      using True Inr by (simp add: flush_def inv_emit_flush)
  qed
qed (use assms in \<open>auto simp: flush_def\<close>)

lemma inv_push: "engine_inv s \<Longrightarrow> engine_inv (s\<lparr>writeBuffer := writeBuffer s @ [p]\<rparr>)"
  by (simp add: engine_inv_def core_push pause_pending_def)

lemma inv_sendPacket:
  assumes "engine_inv s"
  shows "engine_inv (sendPacket b eh type data fn s)"
proof -
  let ?p = "\<lparr>etype = type, edata = data\<rparr>"
  let ?s = "eh (E_packetCreate ?p) s"
  have "engine_inv (?s\<lparr>writeBuffer := writeBuffer ?s @ [?p]\<rparr>)"
    by (rule inv_push [OF preserves [OF assms]])
  then show ?thesis
    using assms inv_flush by (simp only: sendPacket_def Let_def inv_unaffected(1) split: if_split) simp
qed

lemma inv_ping_interval_fires: "engine_inv s \<Longrightarrow> engine_inv (ping_interval_fires b eh s)"
  by (simp add: ping_interval_fires_def ping_def onHeartbeat_def Let_def inv_sendPacket)

lemma inv_probe_cleanup: "engine_inv s \<Longrightarrow> engine_inv (probe_cleanup k s)"
  by (simp add: probe_cleanup_def split: option.split)

lemma inv_freezeTransport: "engine_inv s \<Longrightarrow> engine_inv (freezeTransport b k s)"
  by (simp add: freezeTransport_def Let_def inv_probe_cleanup split: option.split)

lemma inv_emit_upgradeError:
  assumes "engine_inv s" "\<And>s. engine_inv s \<Longrightarrow> engine_inv (close s)"
  shows "engine_inv (emit_upgradeError eh close s)"
  using assms preserves by (simp add: emit_upgradeError_def Let_def)

lemma inv_probe_onerror:
  assumes "engine_inv s" "\<And>s. engine_inv s \<Longrightarrow> engine_inv (close s)"
  shows "engine_inv (probe_onerror b eh close k s)"
  using assms by (simp add: probe_onerror_def inv_emit_upgradeError inv_freezeTransport)

lemma inv_emit_close:
  assumes "engine_inv s" "\<And>s. engine_inv s \<Longrightarrow> engine_inv (close s)"
  shows "engine_inv (emit_close b eh close reason s)"
  unfolding emit_close_def Let_def
  by (rule inv_fold) (use assms preserves inv_probe_onerror in auto)

text \<open>A closed socket stays closed, and its buffer may be emptied.\<close>

lemma closed_freezeTransport [simp]: "readyState (freezeTransport b k s) = readyState s"
  by (simp add: freezeTransport_def probe_cleanup_def set_probe_def throw_def Let_def split: option.split)

lemma closed_emit_upgradeError:
  assumes "readyState s = RS_closed" "\<And>s. readyState s = RS_closed \<Longrightarrow> readyState (close s) = RS_closed"
  shows "readyState (emit_upgradeError eh close s) = RS_closed"
  using assms keeps_closed by (simp add: emit_upgradeError_def Let_def)

lemma closed_emit_close:
  assumes "readyState s = RS_closed" "\<And>s. readyState s = RS_closed \<Longrightarrow> readyState (close s) = RS_closed"
  shows "readyState (emit_close b eh close reason s) = RS_closed"
proof -
  have "readyState (fold (\<lambda>k s. probe_onerror b eh close k (set_probe k (\<lambda>p. p\<lparr>self_close := False\<rparr>) s)) ks s) = RS_closed"
    if "readyState s = RS_closed" for ks s
    using that
  proof (induction ks arbitrary: s)
    case (Cons k ks)
    have "readyState (probe_onerror b eh close k (set_probe k (\<lambda>p. p\<lparr>self_close := False\<rparr>) s)) = RS_closed"
      using Cons.prems assms(2) closed_emit_upgradeError
      by (simp add: probe_onerror_def throw_def set_probe_def)
    then show ?case using Cons.IH by simp
  qed simp
  then show ?thesis using assms(1) keeps_closed by (simp add: emit_close_def Let_def)
qed

lemma closed_onClose_body:
  assumes "\<And>s. readyState s = RS_closed \<Longrightarrow> readyState (close s) = RS_closed"
  shows "live s \<Longrightarrow> has_transport s \<Longrightarrow> readyState (onClose_body b eh close reason s) = RS_closed"
    "readyState s = RS_closed \<Longrightarrow> onClose_body b eh close reason s = s"
  using assms by (auto simp: onClose_body_def Let_def live_def closed_emit_close)

end

lemma inv_idle:
  assumes "engine_inv s" "\<not> live s" "transport.more s' = transport.more s"
  shows "engine_inv s'"
proof -
  note same = more_fields [OF assms(3)]
  have "readyState s = RS_none \<or> readyState s = RS_closed" using assms(2) by (simp add: live_iff)
  from core_idle [THEN iffD1, OF this] assms(1) show ?thesis
    unfolding engine_inv_def same by blast
qed

lemma inv_thrown: "thrown s \<noteq> None \<Longrightarrow> engine_inv s"
  by (auto simp: engine_inv_def)

lemma inv_t_close: "engine_inv s \<Longrightarrow> \<not> live s \<or> thrown s \<noteq> None \<Longrightarrow> engine_inv (close_transport b s)"
  using inv_idle [OF _ _ more_close_transport] inv_thrown [of "close_transport b s"] by auto

text \<open>What closing needs of the state: the transport may have closed already.\<close>

definition closable :: "'w engine_scheme \<Rightarrow> bool" where
  "closable s \<longleftrightarrow> (thrown s = None \<longrightarrow> prevBufferLen s \<le> length (writeBuffer s)) \<and> (\<not> live s \<longrightarrow> engine_inv s)"

lemma closable_inv: "engine_inv s \<Longrightarrow> closable s"
  by (simp add: closable_def engine_inv_def engine_core_def)

context engine_user
begin

lemma inv_onClose_body:
  assumes "closable s" "\<And>s. engine_inv s \<Longrightarrow> engine_inv (close s)"
  shows "engine_inv (onClose_body b eh close reason s)"
proof (cases "live s \<and> has_transport s")
  case True
  define s' where "s' = removeAllListeners (t_close b unheard (s\<lparr>pingIntervalTimer := False, pingTimeoutTimer := None\<rparr>))
    \<lparr>readyState := RS_closed, sid := JNull\<rparr>"
  have "engine_inv s'"
  proof (cases "thrown s = None")
    case t: True
    show ?thesis by (rule inv_closed) (use assms(1) True t in \<open>simp_all add: s'_def closable_def\<close>)
  qed (simp add: s'_def inv_thrown)
  then have "engine_inv (emit_close b eh close reason s')" by (rule inv_emit_close [OF _ assms(2)])
  then have "engine_inv (s''\<lparr>writeBuffer := [], prevBufferLen := 0\<rparr>)" if "s'' = emit_close b eh close reason s'" for s''
    using that core_empty by (simp add: engine_inv_def pause_pending_def)
  then show ?thesis using True by (simp add: onClose_body_def live_def s'_def Let_def)
next
  case False
  then show ?thesis
    using assms(1) by (auto simp: onClose_body_def live_def closable_def Let_def)
qed

text \<open>A closing handler leaves the socket closed, unless it was never opened or threw.\<close>

definition settled :: "'w engine_scheme \<Rightarrow> bool" where
  "settled s \<longleftrightarrow> \<not> live s \<or> thrown s \<noteq> None"

lemma onClose_nested_facts:
  shows "closable s \<Longrightarrow> engine_inv (onClose_nested n b eh reason s)"
    and "settled (onClose_nested n b eh reason s)"
    and "readyState s = RS_closed \<Longrightarrow> readyState (onClose_nested n b eh reason s) = RS_closed"
proof (induction n arbitrary: s reason)
  case 0
  {
    case 1 then show ?case by (simp add: inv_onClose_body)
  next
    case 2
    show ?case
      using closed_onClose_body(1) [of "\<lambda>s. s" s reason]
      by (cases "live s \<and> has_transport s") (auto simp: settled_def live_def onClose_body_def throw_def Let_def)
  next
    case 3 then show ?case using closed_onClose_body(2) [of "\<lambda>s. s" s reason] by simp
  }
next
  case (Suc n)
  let ?close = "\<lambda>s. close_transport b (onClose_nested n b eh (lit ''forced close'') s)"
  have inv: "engine_inv (?close s)" if "engine_inv s" for s
    by (rule inv_t_close) (use Suc.IH(1) [OF closable_inv [OF that]] Suc.IH(2) in \<open>auto simp: settled_def\<close>)
  have closed: "readyState (?close s) = RS_closed" if "readyState s = RS_closed" for s
    using Suc.IH(3) [OF that] by simp
  {
    case 1 then show ?case using inv by (simp add: inv_onClose_body)
  next
    case 2
    show ?case
      using closed_onClose_body(1) [of ?close s reason] closed
      by (cases "live s \<and> has_transport s") (auto simp: settled_def live_def onClose_body_def throw_def Let_def)
  next
    case 3 then show ?case using closed_onClose_body(2) [of ?close s reason] closed by simp
  }
qed

lemma inv_onClose: "closable s \<Longrightarrow> engine_inv (onClose b eh reason s)"
  and settled_onClose: "settled (onClose b eh reason s)"
  by (simp_all only: onClose_def onClose_nested_facts)

lemma inv_close_now: "engine_inv s \<Longrightarrow> engine_inv (close_now b eh s)"
  unfolding close_now_def
  by (rule inv_t_close) (use inv_onClose [OF closable_inv] settled_onClose in \<open>auto simp: settled_def\<close>)

lemma settled_close_now: "settled (close_now b eh s)"
  using settled_onClose more_fields [OF more_close_transport]
  by (metis close_now_def live_iff settled_def)

lemma inv_engine_close:
  assumes "engine_inv s"
  shows "engine_inv (engine_close b eh s)"
proof -
  have "engine_inv (s\<lparr>readyState := RS_closing\<rparr>)" if "live s"
    using assms that core_live by (simp add: engine_inv_def live_iff pause_pending_def)
  then show ?thesis
    using assms by (auto simp: engine_close_def live_def waitForUpgrade_def inv_close_now Let_def)
qed

lemma inv_onError: "engine_inv s \<Longrightarrow> engine_inv (onError b eh e s)"
  unfolding onError_def by (intro inv_onClose closable_inv preserves) simp

lemma inv_ping_timeout_fires: "engine_inv s \<Longrightarrow> engine_inv (ping_timeout_fires b eh s)"
  by (auto simp: ping_timeout_fires_def Let_def intro!: inv_onClose closable_inv)

lemma inv_emit_engine_drain: "engine_inv s \<Longrightarrow> engine_inv (emit_engine_drain b eh s)"
  using preserves by (auto simp: emit_engine_drain_def waitForUpgrade_def Let_def inv_close_now)

text \<open>The drain is reported when the transport has just become writable.\<close>

lemma inv_onDrain:
  assumes "engine_inv (s\<lparr>writable := w\<rparr>)" "tstate s \<noteq> TS_opening"
  shows "engine_inv (onDrain b eh s)"
proof -
  define s' where "s' = s\<lparr>writeBuffer := drop (prevBufferLen s) (writeBuffer s), prevBufferLen := 0\<rparr>"
  have "engine_inv s'"
    using assms core_drained by (simp add: s'_def engine_inv_def pause_pending_def)
  moreover have "onDrain b eh s = (if writeBuffer s' = [] then emit_engine_drain b eh s' else flush b eh s')"
    by (simp only: onDrain_def Let_def s'_def)
  ultimately show ?thesis by (simp add: inv_emit_engine_drain inv_flush)
qed

end

lemma upgrading_set_probe [simp]: "upgrading (set_probe k f s) = upgrading s" "readyState (set_probe k f s) = readyState s"
    "thrown (set_probe k f s) = thrown s"
  by (simp_all add: set_probe_def)

lemma upgrading_freeze [simp]: "upgrading (freezeTransport b k s) = upgrading s"
  by (simp add: freezeTransport_def probe_cleanup_def throw_def Let_def split: option.split)

lemma upgrading_onupgrade [simp]: "upgrading (onupgrade b name k s) = upgrading s"
  by (simp add: onupgrade_def Let_def split: option.split)

lemma more_swap [simp]: "transport.more (swap_transport t s) = transport.more s"
  by (simp add: swap_transport_def transport.defs)

lemmas swap_engine [simp] = more_fields [OF more_swap]

lemma swap_fields [simp]:
  "tstate (swap_transport t s) = tstate t" "listening (swap_transport t s)" "pausers (swap_transport t s) = []"
  "kind (swap_transport t s) = kind t" "writable (swap_transport t s) = writable t"
  by (simp_all add: swap_transport_def transport.defs)

lemma setTransport_fields [simp]:
  "tstate (setTransport t s) = tstate t" "listening (setTransport t s)" "pausers (setTransport t s) = []"
  "has_transport (setTransport t s)" "readyState (setTransport t s) = readyState s" "thrown (setTransport t s) = thrown s"
  "prevBufferLen (setTransport t s) = prevBufferLen s" "writeBuffer (setTransport t s) = writeBuffer s"
  "upgrading (setTransport t s) = upgrading s" "writable (setTransport t s) = writable t"
  by (simp_all add: setTransport_def Let_def)

lemma pause_pending_Nil [simp]: "pausers s = [] \<Longrightarrow> \<not> pause_pending s"
  by (simp add: pause_pending_def)

lemma inv_upgrade_sent:
  assumes "engine_inv s" "t_send b unheard ps (setTransport t s) = Inr s'"
  shows "engine_inv s'" "tstate s' = TS_open" "pausers s' = []"
proof -
  note same = more_fields [OF more_t_send [OF assms(2)]] and sent = t_send_fields [OF assms(2)]
  from assms(1) have "engine_core (thrown s) (prevBufferLen s) (length (writeBuffer s)) (readyState s) True True False
      (upgrading s) TS_open False"
    unfolding engine_inv_def by (rule core_swapped)
  then show "engine_inv s'" using sent by (simp add: engine_inv_def same pause_pending_def)
  show "tstate s' = TS_open" "pausers s' = []" using sent by simp_all
qed

context engine_user
begin

lemma inv_resume:
  assumes "engine_inv s" "settled s \<or> (tstate s = TS_open \<and> pausers s = [])"
  shows "engine_inv (s\<lparr>upgrading := u\<rparr>)"
proof (cases "thrown s = None")
  case True
  show ?thesis
  proof (cases "live s")
    case live: True
    with assms(2) True have "tstate s = TS_open" "\<not> pause_pending s" by (auto simp: settled_def)
    from assms(1) this have "engine_core (thrown s) (prevBufferLen s) (length (writeBuffer s)) (readyState s)
        (has_transport s) (listening s) (writable s) u (tstate s) (pause_pending s)"
      unfolding engine_inv_def by (rule core_resume)
    then show ?thesis by (simp add: engine_inv_def pause_pending_def)
  next
    case False
    then have "readyState s = RS_none \<or> readyState s = RS_closed" by (simp add: live_iff)
    from assms(1) this have "engine_core (thrown s) (prevBufferLen s) (length (writeBuffer s)) (readyState s)
        (has_transport s) (listening s) (writable s) u (tstate s) (pause_pending s)"
      unfolding engine_inv_def by (rule core_off)
    then show ?thesis by (simp add: engine_inv_def pause_pending_def)
  qed
qed (simp add: inv_thrown)

lemma emit_upgrade_facts:
  assumes "engine_inv s" "tstate s = TS_open" "pausers s = []"
  shows "engine_inv (emit_upgrade b eh s)"
    "settled (emit_upgrade b eh s) \<or> (tstate (emit_upgrade b eh s) = TS_open \<and> pausers (emit_upgrade b eh s) = [])"
proof -
  have hook: "engine_inv (eh E_upgrade s)" by (rule preserves [OF assms(1)])
  then show "engine_inv (emit_upgrade b eh s)"
    by (simp add: emit_upgrade_def Let_def inv_close_now)
  have "settled (eh E_upgrade s) \<or> (tstate (eh E_upgrade s) = TS_open \<and> pausers (eh E_upgrade s) = [])"
    using assms(2,3) keeps_transport(2,3) [of E_upgrade s] by (auto simp: settled_def)
  then show "settled (emit_upgrade b eh s) \<or> (tstate (emit_upgrade b eh s) = TS_open \<and> pausers (emit_upgrade b eh s) = [])"
    by (simp add: emit_upgrade_def Let_def settled_close_now)
qed

lemma inv_probe_paused:
  assumes "engine_inv s"
  shows "engine_inv (probe_paused b eh k s)"
proof (cases "failed (get_probe k s) \<or> readyState s = RS_closed \<or> ptransport (get_probe k s) = None")
  case True
  then show ?thesis using assms by (auto simp: probe_paused_def split: option.split)
next
  case False
  then obtain t where t: "ptransport (get_probe k s) = Some t" by auto
  let ?s = "setTransport t (probe_cleanup k s)"
  show ?thesis
  proof (cases "t_send b unheard [upgrade_packet] ?s")
    case (Inl e)
    then show ?thesis using False t by (simp add: probe_paused_def Let_def)
  next
    case (Inr s')
    note sent = inv_upgrade_sent [OF inv_probe_cleanup [OF assms] Inr]
    have "engine_inv ((set_probe k (\<lambda>p. p\<lparr>ptransport := None\<rparr>) (emit_upgrade b eh s'))\<lparr>upgrading := False\<rparr>)"
      by (rule inv_resume)
        (use emit_upgrade_facts [OF sent] in \<open>auto simp: settled_def live_def set_probe_def\<close>)
    then show ?thesis using False t Inr by (simp add: probe_paused_def Let_def inv_flush)
  qed
qed

lemma inv_pause:
  assumes "engine_inv s" "upgrading s"
  shows "engine_inv (pause (on_paused b eh) k s)"
proof -
  have "engine_inv (s\<lparr>tstate := ts\<rparr>)" "engine_inv (s\<lparr>tstate := ts, pausers := ps\<rparr>)" if "ts \<noteq> TS_opening" for ts ps
    using assms that core_stalled by (simp_all add: engine_inv_def pause_pending_def)
  then show ?thesis
    by (simp add: pause_def pause_now_def on_paused_def Let_def inv_probe_paused)
qed

lemma inv_emit_upgrading:
  assumes "engine_inv s"
  shows "engine_inv (emit_upgrading b eh name s)" "upgrading (emit_upgrading b eh name s) = upgrading s"
proof -
  have "engine_inv (onupgrade b name k s)" if "engine_inv s" for k s
    using that by (simp add: onupgrade_def Let_def inv_freezeTransport split: option.split)
  then show "engine_inv (emit_upgrading b eh name s)"
    unfolding emit_upgrading_def Let_def by (intro inv_fold preserves assms)
  have "upgrading (fold (onupgrade b name) ks s) = upgrading s" for ks and s :: "'w engine_scheme"
    by (induction ks arbitrary: s) simp_all
  then show "upgrading (emit_upgrading b eh name s) = upgrading s"
    by (simp add: emit_upgrading_def Let_def keeps_transport)
qed

lemma inv_onTransportPacket:
  assumes "engine_inv s"
  shows "engine_inv (onTransportPacket b eh k msg s)"
proof -
  have "engine_inv (s\<lparr>upgrading := True\<rparr>)"
    using assms core_stall by (simp add: engine_inv_def pause_pending_def)
  note up = inv_emit_upgrading [OF this]
  then have "engine_inv (pause (on_paused b eh) k (emit_upgrading b eh name (s\<lparr>upgrading := True\<rparr>)\<lparr>priorWebsocketSuccess := w\<rparr>))" for name w
    by (intro inv_pause) simp_all
  with up show ?thesis
    using assms
    by (simp add: onTransportPacket_def Let_def upgradeError_now_def inv_emit_upgradeError inv_close_now split: option.split)
qed

lemma inv_probe_event: "engine_inv s \<Longrightarrow> engine_inv (probe_event b eh k ev s)"
proof (cases ev)
  case T_open
  then show "engine_inv s \<Longrightarrow> ?thesis"
    by (simp add: onTransportOpen_def Let_def split: option.split sum.split)
qed (simp_all add: inv_probe_onerror inv_close_now inv_onTransportPacket)

lemma inv_probe_input: "engine_inv s \<Longrightarrow> engine_inv (probe_input b eh k f s)"
  by (auto simp: probe_input_def split: option.split prod.split intro!: inv_fold inv_probe_event)

lemma inv_probe: "engine_inv s \<Longrightarrow> engine_inv (probe b eh name s)"
  by (auto simp: probe_def Let_def split: sum.split intro!: inv_probe_input)

end

lemma inv_alive:
  assumes "engine_inv s" "live s" "thrown s' = thrown s" "prevBufferLen s' = prevBufferLen s" "writeBuffer s' = writeBuffer s"
    "has_transport s' = has_transport s" "listening s' = listening s" "writable s' = writable s"
    "upgrading s' = upgrading s" "tstate s' = tstate s" "pausers s' = pausers s"
  shows "engine_inv s'"
proof -
  have "readyState s \<noteq> RS_none \<and> readyState s \<noteq> RS_closed" using assms(2) by (simp add: live_iff)
  with assms(1) show ?thesis
    unfolding engine_inv_def assms(3-) pause_pending_def by (rule core_live)
qed

context engine_user
begin

lemma inv_engine_onOpen:
  assumes "engine_inv s" "live s"
  shows "engine_inv (engine_onOpen b eh s)"
proof -
  have "engine_inv (s\<lparr>readyState := RS_open, priorWebsocketSuccess := (kind s = WS)\<rparr>)"
    by (rule inv_alive [OF assms]) simp_all
  then have "engine_inv (flush b eh (eh E_open (s\<lparr>readyState := RS_open, priorWebsocketSuccess := (kind s = WS)\<rparr>)))"
    by (intro inv_flush preserves)
  then show ?thesis
    unfolding engine_onOpen_def Let_def by (auto intro!: inv_fold inv_probe)
qed

lemma inv_onHandshake:
  assumes "engine_inv s" "live s"
  shows "engine_inv (onHandshake b eh data s)"
proof -
  let ?s = "eh E_handshake s"
  have s: "engine_inv ?s" "live ?s"
    using assms preserves keeps_live [of E_handshake undefined s] by (auto simp: live_def)
  have "engine_inv (engine_onOpen b eh (?s\<lparr>sid := i, query := q, upgrades := us, pingInterval := pi, pingTimeout := pt\<rparr>))" for i q us pi pt
    by (rule inv_engine_onOpen) (use s in \<open>simp_all add: live_def\<close>)
  then show ?thesis
    by (auto simp: onHandshake_def Let_def setPing_def split: sum.split)
qed

lemma inv_onPacket:
  assumes "engine_inv s"
  shows "engine_inv (onPacket b eh p s)"
proof (cases "live s")
  case True
  let ?s = "emit_heartbeat eh (eh (E_packet p) s)"
  have "engine_inv ?s" "live ?s"
    using assms True preserves keeps_live [of "E_packet p" p s] keeps_live [of E_heartbeat p "eh (E_packet p) s"]
    by (auto simp: emit_heartbeat_def onHeartbeat_def Let_def live_def)
  then have "engine_inv (case etype p of
          P_open \<Rightarrow> (case parsejson (edata p) of Inl e \<Rightarrow> throw e ?s | Inr data \<Rightarrow> onHandshake b eh data ?s)
        | P_pong \<Rightarrow> eh E_pong (setPing ?s)
        | P_error \<Rightarrow> onError b eh (lit ''server error'') ?s
        | P_message \<Rightarrow> eh (E_message (edata p)) (eh (E_data (edata p)) ?s)
        | _ \<Rightarrow> ?s)"
    using preserves inv_onError inv_onHandshake
    by (simp add: setPing_def split: eio_type.split sum.split)
  then show ?thesis using True by (simp add: onPacket_def live_def Let_def)
next
  case False
  then show ?thesis using assms by (auto simp: onPacket_def live_def)
qed

text \<open>The events of the transport: each in the state in which the transport emits it.\<close>

lemma inv_emit:
  assumes "engine_inv s" "\<And>k. ev \<noteq> T_drain"
  shows "engine_inv (t_emit (engine_hook b eh) ev s)"
  using assms inv_onPacket inv_onError inv_onClose [OF closable_inv] inv_probe_paused
  by (cases ev) (simp_all add: t_emit_def)

lemma inv_unheard_transport:
  assumes "engine_inv s" "\<not> listening s"
  shows "engine_inv (s\<lparr>writable := w, tstate := t\<rparr>)" "engine_inv (s\<lparr>writable := w\<rparr>)" "engine_inv (s\<lparr>tstate := t\<rparr>)"
  using assms core_unheard by (simp_all add: engine_inv_def pause_pending_def)

lemma inv_t_onClose:
  assumes "engine_inv s"
  shows "engine_inv (t_onClose (engine_hook b eh) s)"
proof (cases "listening s")
  case True
  have "closable (s\<lparr>tstate := TS_closed\<rparr>)"
  proof -
    have "engine_inv (s\<lparr>tstate := TS_closed\<rparr>)" if "\<not> live s"
      by (rule inv_idle [OF assms that]) simp
    then show ?thesis
      using closable_inv [OF assms] by (simp add: closable_def live_def)
  qed
  then show ?thesis using True by (simp add: t_onClose_def t_emit_def inv_onClose)
next
  case False
  then show ?thesis using inv_unheard_transport(3) [OF assms] by (simp add: t_onClose_def t_emit_def)
qed

lemma inv_t_onOpen:
  assumes "engine_inv s" "tstate s = TS_opening"
  shows "engine_inv (t_onOpen b (engine_hook b eh) s)"
proof -
  have "engine_inv (s\<lparr>tstate := TS_open, writable := True\<rparr>)"
    using assms core_opened by (simp add: engine_inv_def pause_pending_def)
  moreover have "engine_inv (polling_write b ps s)" if "engine_inv s" for ps and s :: "'w engine_scheme"
    using core_unwritable [of _ _ _ _ _ _ "writable s"] that write_fields [of b ps s]
    by (simp add: engine_inv_def pause_pending_def)
  ultimately show ?thesis
    by (simp add: t_onOpen_def t_emit_def Let_def)
qed

lemma inv_count_down:
  assumes "engine_inv s"
  shows "engine_inv (count_down (engine_hook b eh) i (s\<lparr>pausers := (pausers s)[i := q]\<rparr>))"
proof (cases "i < length (pausers s)")
  case True
  then have "pause_pending s" by (auto simp: pause_pending_def)
  with True have "engine_inv (s\<lparr>pausers := ((pausers s)[i := q])[i := q']\<rparr>)"
      "engine_inv (s\<lparr>pausers := ((pausers s)[i := q])[i := q'], tstate := TS_paused\<rparr>)" for q'
    using assms core_paused by (auto simp: engine_inv_def pause_pending_def)
  then show ?thesis using True by (simp add: count_down_def pause_now_def Let_def inv_probe_paused)
next
  case False
  then show ?thesis using assms by (simp add: count_down_def engine_inv_def pause_pending_def)
qed

lemma inv_emit_pollComplete:
  assumes "engine_inv s"
  shows "engine_inv (emit_pollComplete (engine_hook b eh) s)"
  unfolding emit_pollComplete_def Let_def
  by (rule inv_fold) (use assms inv_emit inv_count_down in auto)

lemma inv_emit_drain:
  assumes "engine_inv s" "tstate s \<noteq> TS_opening"
  shows "engine_inv (emit_drain (engine_hook b eh) (s\<lparr>writable := True\<rparr>))"
proof -
  have "engine_inv (t_emit (engine_hook b eh) T_drain (s\<lparr>writable := True\<rparr>))"
  proof (cases "listening s")
    case True
    have "engine_inv (onDrain b eh (s\<lparr>writable := True\<rparr>))"
      by (rule inv_onDrain [where w = "writable s"]) (use assms in simp_all)
    then show ?thesis using True by (simp add: t_emit_def)
  next
    case False
    then show ?thesis using inv_unheard_transport(2) [OF assms(1)] by (simp add: t_emit_def)
  qed
  then show ?thesis
    unfolding emit_drain_def Let_def by (rule inv_fold) (rule inv_count_down)
qed

lemma inv_poll_callback:
  assumes "engine_inv s"
  shows "engine_inv (fst (poll_callback b (engine_hook b eh) p i l s))"
  using assms inv_t_onOpen inv_t_onClose inv_emit
  by (simp add: poll_callback_def t_onPacket_def Let_def)

lemma inv_poll: "engine_inv s \<Longrightarrow> engine_inv (poll (engine_hook b eh) s)"
  by (auto simp: poll_def doPoll_def act_def intro!: inv_emit)

lemma inv_polling_onData:
  assumes "engine_inv s" "polling_onData b (engine_hook b eh) data s = Inr s'"
  shows "engine_inv s'"
proof -
  obtain t where t: "decodePayload (eio_env.truncate b) (blob_wanted b) (poll_callback b (engine_hook b eh)) data s = Inr t"
    and s': "s' = (if tstate t \<noteq> TS_closed then
              let t = emit_pollComplete (engine_hook b eh) (t\<lparr>polling := False\<rparr>) in
              if tstate t = TS_open then poll (engine_hook b eh) t else t
            else t)"
    using assms(2) by (auto simp: polling_onData_def bindE_Inr_iff)
  have "engine_inv t"
    by (rule decodePayload_preserves [where I = engine_inv, OF _ assms(1) t]) (rule inv_poll_callback)
  then show ?thesis
    unfolding s' Let_def using inv_emit_pollComplete inv_poll by simp
qed

lemma inv_engine_step:
  assumes "engine_inv s"
  shows "engine_inv (engine_step b eh i s)"
proof (cases i)
  case (I_poll_data data)
  then show ?thesis using inv_polling_onData [OF assms] by (simp split: sum.split)
next
  case I_ws_tick
  then show ?thesis
    using assms inv_emit_drain [of "s\<lparr>drain_timers := drain_timers s - 1\<rparr>"] by (simp add: ws_tick_def)
qed (use assms in \<open>simp_all add: engine_write_def inv_sendPacket inv_engine_close write_done_def inv_emit_drain
    inv_t_onOpen t_onData_def t_onPacket_def t_onError_def inv_emit inv_t_onClose inv_probe_input
    inv_ping_interval_fires inv_ping_timeout_fires no_transports_fires_def preserves\<close>)

end

subsection \<open>Construction\<close>

text \<open>What \<open>parseuri\<close> makes of the URI, and the options; an empty string is a missing one.\<close>

record parsed_uri =
  uri_host :: jsstr
  uri_protocol :: jsstr
  uri_port :: jsstr
  uri_query :: jsstr

record socket_opts =
  so_hostname :: jsstr
  so_secure :: "bool option"
  so_port :: jsstr
  so_query :: "jsstr + (jsstr \<times> jsval) list"
  so_path :: jsstr
  so_transports :: "jsstr list option"
  so_upgrade :: "bool option"
  so_forceJSONP :: bool
  so_jsonp :: "bool option"
  so_forceBase64 :: bool
  so_enablesXDR :: bool
  so_timestampParam :: jsstr
  so_timestampRequests :: "bool option"
  so_rememberUpgrade :: bool
  so_onlyBinaryUpgrades :: bool

definition uri_opts :: "parsed_uri option \<Rightarrow> socket_opts \<Rightarrow> socket_opts" where
  "uri_opts uri opts = (case uri of
     None \<Rightarrow> opts
   | Some u \<Rightarrow> opts\<lparr>so_hostname := uri_host u,
       so_secure := Some (uri_protocol u = lit ''https'' \<or> uri_protocol u = lit ''wss''),
       so_port := uri_port u,
       so_query := (if uri_query u \<noteq> [] then Inl (uri_query u) else so_query opts)\<rparr>)"

definition strip_slash :: "jsstr \<Rightarrow> jsstr" where
  "strip_slash p = (if p \<noteq> [] \<and> last p = of_char (CHR ''/'') then butlast p else p)"

definition socket_transport_opts :: "browser \<Rightarrow> socket_opts \<Rightarrow> transport_opts" where
  "socket_transport_opts b opts =
     (let https = (case location b of Some (_, _, ssl) \<Rightarrow> ssl | None \<Rightarrow> False);
          sec = (case so_secure opts of Some c \<Rightarrow> c | None \<Rightarrow> https);
          p = (if so_hostname opts \<noteq> [] \<and> so_port opts = [] then (if sec then lit ''443'' else lit ''80'')
               else so_port opts);
          host = (if so_hostname opts \<noteq> [] then so_hostname opts
                  else case location b of Some (h, _, _) \<Rightarrow> h | None \<Rightarrow> lit ''localhost'');
          p = (if p \<noteq> [] then JStr p
               else case location b of
                 Some (_, lp, _) \<Rightarrow> if lp \<noteq> [] then JStr lp else JNum (js_nat (if sec then 443 else 80))
               | None \<Rightarrow> JNum (js_nat (if sec then 443 else 80)))
      in \<lparr>hostname = host, port = p, secure = sec,
          path = strip_slash (if so_path opts = [] then lit ''/engine.io'' else so_path opts) @ lit ''/'',
          forceJSONP = so_forceJSONP opts, jsonp = (so_jsonp opts \<noteq> Some False),
          forceBase64 = so_forceBase64 opts, enablesXDR = so_enablesXDR opts,
          timestampParam = (if so_timestampParam opts = [] then lit ''t'' else so_timestampParam opts),
          timestampRequests = so_timestampRequests opts\<rparr>)"

text \<open>
  The constructor; \<open>prior\<close> and \<open>index\<close> are \<open>Socket.priorWebsocketSuccess\<close> and the length of the
  page's list of JSONP callbacks. The options for certificates and compression are only handed on
  and left out.
\<close>

definition new_engine :: "browser \<Rightarrow> parsed_uri option \<Rightarrow> socket_opts \<Rightarrow> bool \<Rightarrow> nat \<Rightarrow> 'w \<Rightarrow> 'w engine_scheme result" where
  "new_engine b uri opts prior index w =
     (let opts = uri_opts uri opts; topts = socket_transport_opts b opts in
      bindE (case so_query opts of Inl q \<Rightarrow> (if q = [] then Inr [] else qs_decode q) | Inr kvs \<Rightarrow> Inr kvs) (\<lambda>q.
        Inr (engine_open b (engine.extend (transport.extend (Transport XHR False topts [])
          (engine.fields RS_none False
            (case so_transports opts of Some ts \<Rightarrow> ts | None \<Rightarrow> [lit ''polling'', lit ''websocket''])
            topts q index (so_upgrade opts \<noteq> Some False) (so_rememberUpgrade opts) (so_onlyBinaryUpgrades opts)
            prior [] 0 JNull [] 0 0 False None False False [] False False 0 False [] None)) w))))"


subsection \<open>The invariant holds of every socket\<close>

lemma t_open_fields:
  assumes "tstate t = TS_none" "\<not> writable t"
  shows "tstate (t_open b unheard t) = TS_opening" "\<not> writable (t_open b unheard t)"
  using assms
  by (auto simp: t_open_def doOpen_def ws_doOpen_def poll_def doPoll_def t_emit_def unheard_def act_def Let_def)

lemma createTransport_fresh:
  assumes "createTransport b name s = Inr t"
  shows "tstate t = TS_none" "\<not> writable t" "actions t = []" "pausers t = []"
proof -
  have "tstate t = TS_none \<and> \<not> writable t \<and> actions t = [] \<and> pausers t = []"
    using assms
    by (auto simp: createTransport_def new_transport_def polling_transport_def new_XHR_def new_JSONP_def new_WS_def
        Transport_def Let_def bindE_Inr_iff split: prod.splits if_splits)
  then show "tstate t = TS_none" "\<not> writable t" "actions t = []" "pausers t = []" by blast+
qed

lemma inv_engine_open:
  assumes "\<not> has_transport s" "prevBufferLen s = 0" "writeBuffer s = []"
  shows "engine_inv (engine_open b s)"
  using assms
proof (induction b s rule: engine_open.induct)
  case (1 b s)
  let ?ws = "rememberUpgrade s \<and> priorWebsocketSuccess s \<and> lit ''websocket'' \<in> set (transports s)"
  let ?name = "if ?ws then lit ''websocket'' else hd (transports s)"
  show ?case
  proof (cases "\<not> ?ws \<and> transports s = []")
    case True
    then show ?thesis using 1(2-4) by (simp add: engine_open.simps engine_inv_def engine_core_def)
  next
    case False
    show ?thesis
    proof (cases "createTransport b ?name (s\<lparr>readyState := RS_opening\<rparr>)")
      case (Inl e)
      have "engine_inv (engine_open b (s\<lparr>readyState := RS_opening, transports := tl (transports s)\<rparr>))"
        using 1(1) [OF refl False refl refl Inl] 1(2-4) by simp
      then show ?thesis unfolding engine_open.simps [of b s] Let_def if_not_P [OF False] Inl by simp
    next
      case (Inr t)
      note t = t_open_fields [OF createTransport_fresh(1,2) [OF Inr], of b]
      have "engine_inv (setTransport (t_open b unheard t) s')" if "\<not> has_transport s'" "prevBufferLen s' = 0" for s' :: "'a engine_scheme"
        using that t by (simp add: engine_inv_def engine_core_def)
      then show ?thesis
        using 1(2-4) unfolding engine_open.simps [of b s] Let_def if_not_P [OF False] Inr by simp
    qed
  qed
qed

lemma inv_new_engine:
  assumes "new_engine b uri opts prior index w = Inr s"
  shows "engine_inv s"
  using assms by (auto simp: new_engine_def Let_def bindE_Inr_iff engine.defs transport.defs intro!: inv_engine_open)

text \<open>The states a socket goes through from its construction on.\<close>

inductive engine_reachable :: "browser \<Rightarrow> 'w engine_hook \<Rightarrow> 'w engine_scheme \<Rightarrow> bool" for b eh where
  constructed: "new_engine b uri opts prior index w = Inr s \<Longrightarrow> engine_reachable b eh s"
| stepped: "engine_reachable b eh s \<Longrightarrow> engine_reachable b eh (engine_step b eh i s)"

context engine_user
begin

lemma inv_reachable: "engine_reachable b eh s \<Longrightarrow> engine_inv s"
  by (induction rule: engine_reachable.induct) (auto intro: inv_new_engine inv_engine_step)

text \<open>So what the socket flushes is never refused by the transport.\<close>

lemma flush_never_throws:
  assumes "engine_reachable b eh s" "thrown s = None" "has_transport s" "live s"
  shows "\<not> (writable s \<and> \<not> upgrading s \<and> (\<exists>e. t_send b unheard (writeBuffer s) s = Inl e))"
  using inv_reachable [OF assms(1)] assms(2-4)
  by (auto simp: engine_inv_def engine_core_def live_iff t_send_def)

end

subsection \<open>Closed is final\<close>

context engine_user
begin

lemma closed_fold:
  assumes "\<And>x s. readyState s = RS_closed \<Longrightarrow> readyState (f x s) = RS_closed" "readyState s = RS_closed"
  shows "readyState (fold f xs (s :: 'w engine_scheme)) = RS_closed"
  using assms(2) by (induction xs arbitrary: s) (simp_all add: assms(1))

lemma closed_flush: "readyState s = RS_closed \<Longrightarrow> flush b eh s = s"
  by (simp add: flush_def)

lemma closed_onClose: "readyState s = RS_closed \<Longrightarrow> readyState (onClose b eh reason s) = RS_closed"
  by (simp only: onClose_def onClose_nested_facts(3))

lemma closed_close_now: "readyState s = RS_closed \<Longrightarrow> readyState (close_now b eh s) = RS_closed"
  by (simp add: close_now_def closed_onClose)

lemma closed_sendPacket: "readyState s = RS_closed \<Longrightarrow> sendPacket b eh type data fn s = s"
  by (simp add: sendPacket_def)

lemma closed_onDrain: "readyState s = RS_closed \<Longrightarrow> readyState (onDrain b eh s) = RS_closed"
  using keeps_closed
  by (simp add: onDrain_def emit_engine_drain_def waitForUpgrade_def Let_def closed_flush closed_close_now)

lemma closed_onError: "readyState s = RS_closed \<Longrightarrow> readyState (onError b eh e s) = RS_closed"
  using keeps_closed by (simp add: onError_def closed_onClose)

lemma closed_hook:
  assumes "readyState s = RS_closed"
  shows "readyState (engine_hook b eh ev s) = RS_closed"
  using assms
  by (cases ev) (simp_all add: closed_onDrain closed_onError closed_onClose onPacket_def probe_paused_def)

lemma closed_emit: "readyState s = RS_closed \<Longrightarrow> readyState (t_emit (engine_hook b eh) ev s) = RS_closed"
  by (simp add: t_emit_def closed_hook)

lemma closed_count_down:
  "readyState s = RS_closed \<Longrightarrow> readyState (count_down (engine_hook b eh) i (s\<lparr>pausers := ps\<rparr>)) = RS_closed"
  by (simp add: count_down_def pause_now_def Let_def closed_hook del: engine_hook.simps)

lemma closed_emit_drain: "readyState s = RS_closed \<Longrightarrow> readyState (emit_drain (engine_hook b eh) s) = RS_closed"
  unfolding emit_drain_def Let_def by (intro closed_fold closed_count_down closed_emit)

lemma closed_emit_pollComplete: "readyState s = RS_closed \<Longrightarrow> readyState (emit_pollComplete (engine_hook b eh) s) = RS_closed"
  unfolding emit_pollComplete_def Let_def by (intro closed_fold closed_count_down closed_emit)

lemma closed_t_onOpen: "readyState s = RS_closed \<Longrightarrow> readyState (t_onOpen b (engine_hook b eh) s) = RS_closed"
  using closed_emit [of "s\<lparr>tstate := TS_open, writable := True\<rparr>" T_open] by (simp add: t_onOpen_def Let_def)

lemma closed_t_onClose: "readyState s = RS_closed \<Longrightarrow> readyState (t_onClose (engine_hook b eh) s) = RS_closed"
  by (simp add: t_onClose_def closed_emit)

lemma closed_polling_onData:
  assumes "readyState s = RS_closed" "polling_onData b (engine_hook b eh) data s = Inr s'"
  shows "readyState s' = RS_closed"
proof -
  obtain t where t: "decodePayload (eio_env.truncate b) (blob_wanted b) (poll_callback b (engine_hook b eh)) data s = Inr t"
    and s': "s' = (if tstate t \<noteq> TS_closed then
              let t = emit_pollComplete (engine_hook b eh) (t\<lparr>polling := False\<rparr>) in
              if tstate t = TS_open then poll (engine_hook b eh) t else t
            else t)"
    using assms(2) by (auto simp: polling_onData_def bindE_Inr_iff)
  have "readyState t = RS_closed"
    by (rule decodePayload_preserves [where I = "\<lambda>s. readyState s = RS_closed", OF _ assms(1) t])
      (simp add: poll_callback_def t_onPacket_def Let_def closed_t_onOpen closed_t_onClose closed_emit)
  then show ?thesis
    unfolding s' Let_def using closed_emit_pollComplete [of "t\<lparr>polling := False\<rparr>"]
    by (auto simp: poll_def doPoll_def act_def intro!: closed_emit)
qed

lemma closed_upgradeError: "readyState s = RS_closed \<Longrightarrow> readyState (emit_upgradeError eh (close_now b eh) s) = RS_closed"
  by (rule closed_emit_upgradeError) (auto intro: closed_close_now)

lemma closed_onTransportPacket:
  assumes "readyState s = RS_closed"
  shows "readyState (onTransportPacket b eh k msg s) = RS_closed"
proof -
  have "readyState (emit_upgrading b eh name s) = RS_closed" if "readyState s = RS_closed" for name s
    unfolding emit_upgrading_def Let_def
    by (rule closed_fold) (use that keeps_closed in \<open>auto simp: onupgrade_def Let_def split: option.split\<close>)
  then show ?thesis
    using assms
    by (simp add: onTransportPacket_def throw_def upgradeError_now_def closed_upgradeError pause_def pause_now_def
        on_paused_def probe_paused_def Let_def split: option.split)
qed

lemma closed_probe_event: "readyState s = RS_closed \<Longrightarrow> readyState (probe_event b eh k ev s) = RS_closed"
  by (cases ev)
    (simp_all add: onTransportOpen_def throw_def Let_def probe_onerror_def closed_upgradeError closed_onTransportPacket
      split: option.split sum.split)

lemma closed_engine_step:
  assumes "readyState s = RS_closed"
  shows "readyState (engine_step b eh i s) = RS_closed"
proof (cases i)
  case (I_poll_data data)
  then show ?thesis using closed_polling_onData [OF assms] assms by (simp add: throw_def split: sum.split)
next
  case (I_probe k pi)
  then show ?thesis
    using assms
    by (auto simp: probe_input_def split: option.split prod.split intro!: closed_fold closed_probe_event)
next
  case I_ping_timer
  then show ?thesis
    using assms by (simp add: ping_interval_fires_def ping_def onHeartbeat_def closed_sendPacket Let_def)
next
  case I_timeout_timer
  then show ?thesis using assms by (simp add: ping_timeout_fires_def Let_def)
qed (use assms keeps_closed in \<open>simp_all add: engine_write_def closed_sendPacket engine_close_def write_done_def ws_tick_def
    closed_emit_drain closed_t_onOpen t_onData_def t_onPacket_def t_onError_def closed_emit closed_t_onClose
    no_transports_fires_def\<close>)

end

subsection \<open>Users of the socket\<close>

text \<open>What a call of the socket's interface leaves as it is, unless it closes the socket.\<close>

definition keeps :: "'w engine_scheme \<Rightarrow> 'w engine_scheme \<Rightarrow> bool" where
  "keeps s s' \<longleftrightarrow> upgrading s' = upgrading s \<and> (readyState s = RS_closed \<longrightarrow> readyState s' = RS_closed) \<and>
     (live s' \<longrightarrow> live s \<and> tstate s' = tstate s \<and> pausers s' = pausers s)"

lemma keeps_refl [simp]: "keeps s s"
  by (simp add: keeps_def)

lemma keeps_trans: "keeps s t \<Longrightarrow> keeps t u \<Longrightarrow> keeps s u"
  by (auto simp: keeps_def)

lemma keeps_same:
  assumes "upgrading s' = upgrading s" "readyState s' = readyState s" "tstate s' = tstate s" "pausers s' = pausers s"
  shows "keeps s s'"
  using assms by (auto simp: keeps_def live_def)

lemma keeps_fold: "(\<And>x s. keeps s (f x s)) \<Longrightarrow> keeps s (fold f xs s)"
  by (induction xs arbitrary: s) (auto intro: keeps_trans)

context engine_user
begin

lemma keeps_eh: "keeps s (eh ev s)"
  using keeps_transport keeps_closed by (simp add: keeps_def)

lemma keeps_push: "keeps s (s\<lparr>writeBuffer := ps\<rparr>)" "keeps s (s\<lparr>ping_waiters := n\<rparr>)"
  by (simp_all add: keeps_same)

lemma keeps_emit_flush: "keeps s (emit_flush eh s)"
  unfolding emit_flush_def Let_def
  by (rule keeps_trans [OF keeps_eh]) (rule keeps_fold, rule keeps_trans [OF keeps_push(2) keeps_eh])

lemma keeps_flush: "keeps s (flush b eh s)"
proof (cases "t_send b unheard (writeBuffer s) s")
  case (Inr t)
  have "keeps s (t\<lparr>prevBufferLen := length (writeBuffer t)\<rparr>)"
    using t_send_fields [OF Inr] more_fields [OF more_t_send [OF Inr]] by (intro keeps_same) simp_all
  then have "keeps s (emit_flush eh (t\<lparr>prevBufferLen := length (writeBuffer t)\<rparr>))"
    by (rule keeps_trans [OF _ keeps_emit_flush])
  then show ?thesis using Inr by (simp add: flush_def throw_def keeps_same)
qed (simp add: flush_def throw_def keeps_same)

lemma keeps_sendPacket: "keeps s (sendPacket b eh type data fn s)"
proof -
  let ?p = "\<lparr>etype = type, edata = data\<rparr>"
  define t where "t = eh (E_packetCreate ?p) s"
  define u where "u = t\<lparr>writeBuffer := writeBuffer t @ [?p]\<rparr>"
  define v where "v = (if fn then u\<lparr>ping_waiters := ping_waiters u + 1\<rparr> else u)"
  have "keeps s u" unfolding t_def u_def by (rule keeps_trans [OF keeps_eh keeps_push(1)])
  then have "keeps s v" using keeps_push(2) by (auto simp: v_def intro: keeps_trans)
  then have "keeps s (flush b eh v)" by (rule keeps_trans [OF _ keeps_flush])
  then show ?thesis by (simp only: sendPacket_def Let_def t_def u_def v_def keeps_refl if_split) simp
qed

lemma upgrading_onClose_body:
  assumes "\<And>s. upgrading (close s) = upgrading s"
  shows "upgrading (onClose_body b eh close reason s) = upgrading s"
proof -
  have "upgrading (fold (\<lambda>k s. probe_onerror b eh close k (set_probe k (\<lambda>p. p\<lparr>self_close := False\<rparr>) s)) ks s) = upgrading s"
    for ks and s :: "'w engine_scheme"
    by (induction ks arbitrary: s)
      (simp_all add: probe_onerror_def emit_upgradeError_def throw_def keeps_transport(1) assms Let_def)
  then show ?thesis
    by (simp add: onClose_body_def emit_close_def throw_def keeps_transport(1) Let_def)
qed

lemma upgrading_onClose_nested: "upgrading (onClose_nested n b eh reason s) = upgrading s"
  by (induction n arbitrary: reason s) (simp_all add: upgrading_onClose_body)

lemma upgrading_onClose: "upgrading (onClose b eh reason s) = upgrading s"
  by (simp only: onClose_def upgrading_onClose_nested)

lemma onClose_detached:
  "\<not> has_transport s \<Longrightarrow> live s \<Longrightarrow>
    onClose b eh reason s = throw TypeError (s\<lparr>pingIntervalTimer := False, pingTimeoutTimer := None\<rparr>)"
  by (auto simp: onClose_def onClose_body_def live_def Let_def)

lemma onClose_closes:
  assumes "live s" "has_transport s"
  shows "readyState (onClose b eh reason s) = RS_closed"
proof -
  have "readyState (onClose_nested (Suc 0) b eh reason s) = RS_closed"
    unfolding onClose_nested.simps(2)
    by (rule closed_onClose_body(1) [OF _ assms])
      (simp only: more_fields(1) [OF more_close_transport] onClose_nested_facts(3))
  then show ?thesis by (simp add: onClose_def)
qed

text \<open>Closing a living socket ends its life; without a transport it only throws.\<close>

lemma keeps_close_now:
  assumes "live s"
  shows "keeps s (close_now b eh s)"
proof (cases "has_transport s")
  case True
  have "readyState (close_now b eh s) = RS_closed" "upgrading (close_now b eh s) = upgrading s"
    using onClose_closes [OF assms True] upgrading_onClose by (simp_all add: close_now_def)
  then show ?thesis using assms by (simp add: keeps_def live_def)
next
  case False
  then show ?thesis using onClose_detached [OF False assms]
    by (simp add: close_now_def close_transport_def throw_def keeps_same)
qed

lemma keeps_engine_close: "keeps s (engine_close b eh s)"
proof (cases "readyState s = RS_opening \<or> readyState s = RS_open")
  case True
  have "keeps s (s\<lparr>readyState := RS_closing\<rparr>)" using True by (auto simp: keeps_def live_def)
  moreover have "keeps (s\<lparr>readyState := RS_closing\<rparr>) (close_now b eh (s\<lparr>readyState := RS_closing\<rparr>))"
    by (rule keeps_close_now) (simp add: live_def)
  moreover have "keeps s (s\<lparr>readyState := RS_closing, close_on_drain := True\<rparr>)"
    "keeps s (s\<lparr>readyState := RS_closing, close_on_upgrade := True\<rparr>)" using True by (auto simp: keeps_def live_def)
  ultimately show ?thesis
    using True by (auto simp: engine_close_def waitForUpgrade_def Let_def intro: keeps_trans)
qed (simp add: engine_close_def)

end

text \<open>
  A user whose listeners write to the socket and close it. What these calls emit is heard by the
  listeners in turn, \<open>n\<close> levels deep.
\<close>

datatype user_call = U_write eio_data | U_close

fun run_call :: "browser \<Rightarrow> 'w engine_hook \<Rightarrow> user_call \<Rightarrow> 'w engine_scheme \<Rightarrow> 'w engine_scheme" where
  "run_call b eh (U_write data) s = engine_write b eh data s"
| "run_call b eh U_close s = engine_close b eh s"

fun internal_event :: "engine_event \<Rightarrow> bool" where
  "internal_event (E_packet _) \<longleftrightarrow> True"
| "internal_event E_heartbeat \<longleftrightarrow> True"
| "internal_event E_handshake \<longleftrightarrow> True"
| "internal_event _ \<longleftrightarrow> False"

primrec scripted :: "nat \<Rightarrow> browser \<Rightarrow> (engine_event \<Rightarrow> user_call list) \<Rightarrow> 'w engine_hook" where
  "scripted 0 b user ev s = s"
| "scripted (Suc n) b user ev s =
     (if internal_event ev then s else fold (run_call b (scripted n b user)) (user ev) s)"

lemma engine_userI:
  assumes "\<And>s ev. engine_inv s \<Longrightarrow> engine_inv (eh ev s)" "\<And>s ev. keeps s (eh ev s)"
    "\<And>s ev. internal_event ev \<Longrightarrow> eh ev s = s"
  shows "engine_user eh"
proof (unfold_locales, goal_cases)
  case (1 s ev) then show ?case by (rule assms(1))
qed (use assms(2,3) in \<open>auto simp: keeps_def\<close>)

lemma engine_user_scripted: "engine_user (scripted n b user :: 'w engine_hook)"
proof (induction n)
  case 0
  show ?case by (rule engine_userI) simp_all
next
  case (Suc n)
  note facts = engine_user.inv_sendPacket [OF Suc, of _ b] engine_user.inv_engine_close [OF Suc, of _ b]
    engine_user.keeps_sendPacket [OF Suc, of _ b] engine_user.keeps_engine_close [OF Suc, of _ b]
  have inv: "engine_inv (run_call b (scripted n b user) c s)" if "engine_inv s" for c and s :: "'w engine_scheme"
    using that facts by (cases c) (simp_all add: engine_write_def)
  have keep: "keeps s (run_call b (scripted n b user) c s)" for c and s :: "'w engine_scheme"
    using facts by (cases c) (simp_all add: engine_write_def)
  show ?case
  proof (rule engine_userI)
    show "engine_inv (scripted (Suc n) b user ev s)" if "engine_inv s" for s :: "'w engine_scheme" and ev
      using that inv by (auto intro: inv_fold)
    show "keeps s (scripted (Suc n) b user ev s)" for s :: "'w engine_scheme" and ev
      using keep by (auto intro: keeps_fold)
  qed simp
qed

interpretation scripted_user: engine_user b "scripted n b user" for b n user
  by (rule engine_user_scripted)

end
