(* ===== verification/EngineFlow.thy ===== *)
theory EngineFlow
  imports EngineSocket
begin

text \<open>
  How packets flow through the engine.io socket of \<open>EngineSocket\<close>: the order in which they are handed
  to the transport, closing, upgrades and the heartbeat, and a socket that runs as the example of them.
\<close>

subsection \<open>The flow of packets\<close>

text \<open>What the transport does to send one batch, and the packets that wait for their turn.\<close>

definition batch_actions :: "browser \<Rightarrow> 'w transport_scheme \<Rightarrow> eio_packet list \<Rightarrow> transport_action list" where
  "batch_actions b t ps =
     (if kind t = WS then map (\<lambda>p. A_frame (encodePacket (eio_env.truncate b) (supportsBinary t) False p)) ps
      else case encodePayload (eio_env.truncate b) [0..<length ps] (supportsBinary t) ps of
        Inl _ \<Rightarrow> [] | Inr datas \<Rightarrow> map A_post datas)"

definition unsent :: "'w engine_scheme \<Rightarrow> eio_packet list" where
  "unsent s = drop (prevBufferLen s) (writeBuffer s)"

text \<open>The socket and its transport are open, and what can be sent has been sent.\<close>

definition flowing :: "'w engine_scheme \<Rightarrow> bool" where
  "flowing s \<longleftrightarrow> readyState s \<noteq> RS_closed \<and> live s \<and> has_transport s \<and> listening s \<and> tstate s = TS_open \<and> \<not> upgrading s \<and>
     pausers s = [] \<and> thrown s = None \<and> prevBufferLen s \<le> length (writeBuffer s) \<and>
     (writable s \<longrightarrow> writeBuffer s = [])"

lemma batch_actions_cong: "kind t = kind t' \<Longrightarrow> supportsBinary t = supportsBinary t' \<Longrightarrow> batch_actions b t = batch_actions b t'"
  by (rule ext) (simp add: batch_actions_def)

lemma fold_posts:
  "actions (fold (\<lambda>d t. act (A_post d) (if kind t = JSONP then t\<lparr>form := True\<rparr> else t)) ds t) = actions t @ map A_post ds"
  "kind (fold (\<lambda>d t. act (A_post d) (if kind t = JSONP then t\<lparr>form := True\<rparr> else t)) ds t) = kind t"
  "supportsBinary (fold (\<lambda>d t. act (A_post d) (if kind t = JSONP then t\<lparr>form := True\<rparr> else t)) ds t) = supportsBinary t"
  by (induction ds arbitrary: t) (simp_all add: act_def)

lemma fold_frames:
  "actions (fold (\<lambda>p t. act (A_frame (encodePacket e (supportsBinary t) False p)) t) ps t) =
     actions t @ map (\<lambda>p. A_frame (encodePacket e (supportsBinary t) False p)) ps"
  "kind (fold (\<lambda>p t. act (A_frame (encodePacket e (supportsBinary t) False p)) t) ps t) = kind t"
  "supportsBinary (fold (\<lambda>p t. act (A_frame (encodePacket e (supportsBinary t) False p)) t) ps t) = supportsBinary t"
  by (induction ps arbitrary: t) (simp_all add: act_def)

lemma t_send_batch:
  assumes "t_send b unheard ps t = Inr t'"
  shows "actions t' = actions t @ batch_actions b t ps" "kind t' = kind t" "supportsBinary t' = supportsBinary t"
proof -
  have "actions t' = actions t @ batch_actions b t ps \<and> kind t' = kind t \<and> supportsBinary t' = supportsBinary t"
  proof (cases "kind t = WS")
    case True
    then show ?thesis
      using assms
      by (auto simp: t_send_def t_write_def ws_write_def batch_actions_def fold_frames t_emit_def unheard_def Let_def
          split: if_splits)
  next
    case False
    then show ?thesis
      using assms
      by (auto simp: t_send_def t_write_def polling_write_def batch_actions_def fold_posts Let_def split: if_splits sum.splits)
  qed
  then show "actions t' = actions t @ batch_actions b t ps" "kind t' = kind t" "supportsBinary t' = supportsBinary t"
    by blast+
qed

text \<open>A user who does not react to what sending emits.\<close>

locale passive_user = engine_user +
  assumes unmoved: "eh E_flush s = s" "eh E_drain s = s" "eh E_ping s = s" "eh (E_packetCreate p) s = s"
begin

lemma passive_flush_event [simp]:
  "actions (emit_flush eh s) = actions s" "kind (emit_flush eh s) = kind s" "supportsBinary (emit_flush eh s) = supportsBinary s"
  "readyState (emit_flush eh s) = readyState s" "has_transport (emit_flush eh s) = has_transport s"
  "listening (emit_flush eh s) = listening s" "tstate (emit_flush eh s) = tstate s" "upgrading (emit_flush eh s) = upgrading s"
  "pausers (emit_flush eh s) = pausers s" "thrown (emit_flush eh s) = thrown s" "prevBufferLen (emit_flush eh s) = prevBufferLen s"
  "writeBuffer (emit_flush eh s) = writeBuffer s" "writable (emit_flush eh s) = writable s"
  "close_on_drain (emit_flush eh s) = close_on_drain s"
proof -
  have *: "\<exists>n. fold (\<lambda>_ s. s\<lparr>ping_waiters := ping_waiters s - 1\<rparr>) xs s = s\<lparr>ping_waiters := n\<rparr>"
    for xs :: "nat list" and s :: "'w engine_scheme"
  proof (induction xs arbitrary: s)
    case Nil
    have "s = s\<lparr>ping_waiters := ping_waiters s\<rparr>" by simp
    then show ?case by (metis fold_simps(1))
  next
    case (Cons x xs)
    from Cons [of "s\<lparr>ping_waiters := ping_waiters s - 1\<rparr>"] show ?case by auto
  qed
  obtain n where "emit_flush eh s = s\<lparr>ping_waiters := n\<rparr>"
    using * [of "[0..<ping_waiters s]" s] by (auto simp: emit_flush_def unmoved Let_def)
  then show "actions (emit_flush eh s) = actions s" "kind (emit_flush eh s) = kind s" "supportsBinary (emit_flush eh s) = supportsBinary s"
  "readyState (emit_flush eh s) = readyState s" "has_transport (emit_flush eh s) = has_transport s"
  "listening (emit_flush eh s) = listening s" "tstate (emit_flush eh s) = tstate s" "upgrading (emit_flush eh s) = upgrading s"
  "pausers (emit_flush eh s) = pausers s" "thrown (emit_flush eh s) = thrown s" "prevBufferLen (emit_flush eh s) = prevBufferLen s"
  "writeBuffer (emit_flush eh s) = writeBuffer s" "writable (emit_flush eh s) = writable s"
  "close_on_drain (emit_flush eh s) = close_on_drain s"
    by simp_all
qed

text \<open>A flush of a writable transport hands the whole buffer over, as one batch.\<close>

lemma flush_writable:
  assumes "readyState s \<noteq> RS_closed" "has_transport s" "tstate s = TS_open" "\<not> upgrading s" "writable s" "writeBuffer s \<noteq> []"
  shows "actions (flush b eh s) = actions s @ batch_actions b s (writeBuffer s)"
    "kind (flush b eh s) = kind s" "supportsBinary (flush b eh s) = supportsBinary s"
    "readyState (flush b eh s) = readyState s" "has_transport (flush b eh s) = has_transport s"
    "listening (flush b eh s) = listening s" "tstate (flush b eh s) = TS_open" "upgrading (flush b eh s) = upgrading s"
    "pausers (flush b eh s) = pausers s" "thrown (flush b eh s) = thrown s"
    "prevBufferLen (flush b eh s) = length (writeBuffer s)" "writeBuffer (flush b eh s) = writeBuffer s"
    "\<not> writable (flush b eh s)" "close_on_drain (flush b eh s) = close_on_drain s"
proof -
  obtain t where t: "t_send b unheard (writeBuffer s) s = Inr t"
    using assms(3) by (auto simp: t_send_def)
  note same = more_fields [OF more_t_send [OF t]] t_send_fields [OF t] t_send_batch [OF t]
  have f: "flush b eh s = emit_flush eh (t\<lparr>prevBufferLen := length (writeBuffer t)\<rparr>)"
    using assms t by (simp add: flush_def)
  show "actions (flush b eh s) = actions s @ batch_actions b s (writeBuffer s)"
    "kind (flush b eh s) = kind s" "supportsBinary (flush b eh s) = supportsBinary s"
    "readyState (flush b eh s) = readyState s" "has_transport (flush b eh s) = has_transport s"
    "listening (flush b eh s) = listening s" "tstate (flush b eh s) = TS_open" "upgrading (flush b eh s) = upgrading s"
    "pausers (flush b eh s) = pausers s" "thrown (flush b eh s) = thrown s"
    "prevBufferLen (flush b eh s) = length (writeBuffer s)" "writeBuffer (flush b eh s) = writeBuffer s"
    "\<not> writable (flush b eh s)" "close_on_drain (flush b eh s) = close_on_drain s"
    using same by (simp_all add: f)
qed

end

text \<open>
  \<open>moved b s ms s'\<close>: from \<open>s\<close> to \<open>s'\<close> the packets \<open>ms\<close> came in and some batches went out, in order.
\<close>

definition could_flow :: "'w engine_scheme \<Rightarrow> bool" where
  "could_flow s \<longleftrightarrow> live s \<and> has_transport s \<and> listening s \<and> tstate s = TS_open \<and> \<not> upgrading s \<and>
     pausers s = [] \<and> thrown s = None \<and> prevBufferLen s \<le> length (writeBuffer s) \<and>
     (writable s \<longrightarrow> prevBufferLen s = 0)"

definition moved :: "browser \<Rightarrow> 'w engine_scheme \<Rightarrow> eio_packet list \<Rightarrow> 'w engine_scheme \<Rightarrow> bool" where
  "moved b s ms s' \<longleftrightarrow> flowing s' \<and> readyState s' = readyState s \<and> close_on_drain s' = close_on_drain s \<and>
     kind s' = kind s \<and> supportsBinary s' = supportsBinary s \<and>
     (\<exists>batches. actions s' = actions s @ concat (map (batch_actions b s) batches) \<and>
        concat batches @ unsent s' = unsent s @ ms)"

lemma could_flow: "flowing s \<Longrightarrow> could_flow s"
  by (auto simp: flowing_def could_flow_def)

lemma moved_refl: "flowing s \<Longrightarrow> moved b s [] s"
  unfolding moved_def by (auto intro: exI [of _ "[]"])

lemma moved_trans:
  assumes "moved b s ms t" "moved b t ms' u"
  shows "moved b s (ms @ ms') u"
proof -
  obtain bs bs' where bs: "actions t = actions s @ concat (map (batch_actions b s) bs)" "concat bs @ unsent t = unsent s @ ms"
    "actions u = actions t @ concat (map (batch_actions b t) bs')" "concat bs' @ unsent u = unsent t @ ms'"
    using assms by (auto simp: moved_def)
  have "batch_actions b t = batch_actions b s"
    using assms(1) by (intro batch_actions_cong) (auto simp: moved_def)
  then have "actions u = actions s @ concat (map (batch_actions b s) (bs @ bs'))"
    using bs by simp
  moreover have "concat (bs @ bs') @ unsent u = unsent s @ ms @ ms'"
    using bs by (metis append_assoc concat_append)
  ultimately show ?thesis using assms unfolding moved_def by (metis append_assoc)
qed

lemma moved_change:
  assumes "moved b t [] s'" "unsent t = unsent s @ ms" "readyState t = readyState s" "close_on_drain t = close_on_drain s"
    "kind t = kind s" "supportsBinary t = supportsBinary s" "actions t = actions s"
  shows "moved b s ms s'"
  using assms batch_actions_cong [OF assms(5,6), of b] by (simp add: moved_def)

fun carries :: "engine_input \<Rightarrow> bool" where
  "carries (I_write _) \<longleftrightarrow> True"
| "carries I_post_done \<longleftrightarrow> True"
| "carries I_ws_tick \<longleftrightarrow> True"
| "carries _ \<longleftrightarrow> False"

fun written :: "engine_input \<Rightarrow> eio_packet list" where
  "written (I_write data) = [\<lparr>etype = P_message, edata = data\<rparr>]"
| "written _ = []"

context passive_user
begin

lemma flush_moves:
  assumes "could_flow s"
  shows "moved b s [] (flush b eh s)"
proof (cases "writable s \<and> writeBuffer s \<noteq> []")
  case True
  have live: "readyState s \<noteq> RS_closed" using assms by (simp add: could_flow_def live_iff)
  note facts = flush_writable [OF live]
  have "flowing (flush b eh s)"
    using assms True live by (simp add: facts flowing_def could_flow_def live_iff)
  moreover have "unsent s = writeBuffer s" "unsent (flush b eh s) = []"
    using assms True live by (simp_all add: unsent_def facts could_flow_def)
  ultimately show ?thesis
    using assms True live unfolding moved_def
    by (intro conjI exI [of _ "[writeBuffer s]"]) (simp_all add: facts could_flow_def)
next
  case False
  then have "flush b eh s = s" using assms by (auto simp: flush_def could_flow_def)
  moreover have "flowing s" using False assms by (auto simp: flowing_def could_flow_def live_iff)
  ultimately show ?thesis by (simp add: moved_refl)
qed

lemma write_moves:
  assumes "flowing s" "readyState s = RS_open"
  shows "moved b s [\<lparr>etype = P_message, edata = data\<rparr>] (engine_write b eh data s)"
proof -
  let ?t = "s\<lparr>writeBuffer := writeBuffer s @ [\<lparr>etype = P_message, edata = data\<rparr>]\<rparr>"
  have "could_flow ?t" using assms by (auto simp: flowing_def could_flow_def live_def)
  moreover have "unsent ?t = unsent s @ [\<lparr>etype = P_message, edata = data\<rparr>]"
    using assms by (simp add: unsent_def flowing_def)
  ultimately have "moved b s [\<lparr>etype = P_message, edata = data\<rparr>] (flush b eh ?t)"
    by (intro moved_change [OF flush_moves]) simp_all
  then show ?thesis using assms(2) by (simp add: engine_write_def sendPacket_def unmoved Let_def)
qed

lemma emit_drain_unpaused: "pausers s = [] \<Longrightarrow> listening s \<Longrightarrow> emit_drain (engine_hook b eh) s = onDrain b eh s"
  by (simp add: emit_drain_def t_emit_def)

lemma drain_moves:
  assumes "flowing s" "\<not> close_on_drain s \<or> unsent s \<noteq> []"
  shows "moved b s [] (emit_drain (engine_hook b eh) (s\<lparr>writable := True\<rparr>))"
    "unsent (emit_drain (engine_hook b eh) (s\<lparr>writable := True\<rparr>)) = []"
proof -
  let ?t = "s\<lparr>writable := True, writeBuffer := unsent s, prevBufferLen := 0\<rparr>"
  have t: "could_flow ?t" "unsent ?t = unsent s"
    using assms by (simp_all add: flowing_def could_flow_def live_def unsent_def)
  have drain: "emit_drain (engine_hook b eh) (s\<lparr>writable := True\<rparr>) = (if unsent s = [] then ?t else flush b eh ?t)"
    using assms emit_drain_unpaused [of "s\<lparr>writable := True\<rparr>"]
    by (auto simp: flowing_def onDrain_def emit_engine_drain_def unmoved unsent_def Let_def)
  have "moved b ?t [] (emit_drain (engine_hook b eh) (s\<lparr>writable := True\<rparr>))"
  proof (cases "unsent s = []")
    case True
    then have "flowing ?t" using t(1) by (simp add: flowing_def could_flow_def live_iff)
    then show ?thesis using True drain by (simp add: moved_refl)
  next
    case False
    then show ?thesis using flush_moves [OF t(1)] drain by simp
  qed
  then show "moved b s [] (emit_drain (engine_hook b eh) (s\<lparr>writable := True\<rparr>))"
    by (rule moved_change) (simp_all add: t(2))
  show "unsent (emit_drain (engine_hook b eh) (s\<lparr>writable := True\<rparr>)) = []"
  proof (cases "unsent s = []")
    case True
    then show ?thesis by (simp add: drain unsent_def)
  next
    case False
    then have "unsent (flush b eh ?t) = []"
      using t(1) flush_writable(11,12) [of ?t] by (simp add: unsent_def could_flow_def live_iff)
    then show ?thesis using False drain by simp
  qed
qed

lemma step_moves:
  assumes "flowing s" "readyState s = RS_open" "\<not> close_on_drain s" "carries i"
  shows "moved b s (written i) (engine_step b eh i s)"
  using assms(4)
proof (cases i rule: carries.cases)
  case (1 data)
  then show ?thesis using write_moves [OF assms(1,2)] by simp
next
  case 2
  have "tstate s \<noteq> TS_opening" using assms(1) by (simp add: flowing_def)
  then show ?thesis using 2 drain_moves(1) [OF assms(1)] assms(3) by (simp add: write_done_def)
next
  case 3
  have up: "tstate s \<noteq> TS_opening" using assms(1) by (simp add: flowing_def)
  show ?thesis
  proof (cases "drain_timers s = 0")
    case True
    then show ?thesis using 3 up moved_refl [OF assms(1)] by (simp add: ws_tick_def)
  next
    case False
    let ?t = "s\<lparr>drain_timers := drain_timers s - 1\<rparr>"
    have "flowing ?t" "unsent ?t = unsent s" using assms(1) by (simp_all add: flowing_def live_def unsent_def)
    then have "moved b s [] (emit_drain (engine_hook b eh) (?t\<lparr>writable := True\<rparr>))"
      using assms(3) by (intro moved_change [OF drain_moves(1)]) simp_all
    then show ?thesis using 3 up False by (simp add: ws_tick_def)
  qed
qed simp_all

lemma steps_move:
  assumes "flowing s" "readyState s = RS_open" "\<not> close_on_drain s" "list_all carries ins"
  shows "moved b s (concat (map written ins)) (fold (engine_step b eh) ins s)"
  using assms
proof (induction ins arbitrary: s)
  case Nil
  then show ?case by (simp add: moved_refl)
next
  case (Cons i ins)
  then have "moved b s (written i) (engine_step b eh i s)" by (simp add: step_moves)
  moreover from this have "moved b (engine_step b eh i s) (concat (map written ins)) (fold (engine_step b eh) ins (engine_step b eh i s))"
    using Cons.prems by (intro Cons.IH) (auto simp: moved_def)
  ultimately show ?case using moved_trans by fastforce
qed

text \<open>Closing waits for the buffer, at most two drains long.\<close>

lemma close_idle:
  assumes "flowing s" "readyState s = RS_open" "writeBuffer s = []"
  shows "readyState (engine_close b eh s) = RS_closed"
proof -
  have "readyState (close_now b eh (s\<lparr>readyState := RS_closing\<rparr>)) = RS_closed"
    unfolding close_now_def using assms(1)
    by (simp add: onClose_closes live_def flowing_def)
  then show ?thesis using assms by (simp add: engine_close_def flowing_def Let_def)
qed

lemma last_drain_closes:
  assumes "flowing s" "close_on_drain s" "unsent s = []"
  shows "readyState (engine_step b eh I_post_done s) = RS_closed"
proof -
  let ?t = "s\<lparr>writable := True, writeBuffer := [], prevBufferLen := 0, close_on_drain := False\<rparr>"
  have "engine_step b eh I_post_done s = close_now b eh ?t"
    using assms emit_drain_unpaused [of "s\<lparr>writable := True\<rparr>"]
    by (simp add: write_done_def flowing_def onDrain_def emit_engine_drain_def unmoved unsent_def Let_def)
  moreover have "readyState (close_now b eh ?t) = RS_closed"
    unfolding close_now_def using assms(1) by (simp add: onClose_closes live_def flowing_def)
  ultimately show ?thesis by simp
qed

lemma close_waits:
  assumes "flowing s" "readyState s = RS_open" "writeBuffer s \<noteq> []"
  shows "flowing (engine_close b eh s)" "close_on_drain (engine_close b eh s)" "unsent (engine_close b eh s) = unsent s"
    "actions (engine_close b eh s) = actions s" "kind (engine_close b eh s) = kind s"
    "supportsBinary (engine_close b eh s) = supportsBinary s"
  using assms by (simp_all add: engine_close_def flowing_def live_def unsent_def Let_def)

lemma close_drains:
  assumes "flowing s" "readyState s = RS_open" "writeBuffer s \<noteq> []" "unsent s \<noteq> []"
  shows "readyState (engine_step b eh I_post_done (engine_step b eh I_post_done (engine_close b eh s))) = RS_closed"
    "actions (engine_step b eh I_post_done (engine_close b eh s)) = actions s @ batch_actions b s (unsent s)"
proof -
  let ?t = "engine_close b eh s"
  note t = close_waits [OF assms(1-3)]
  have step: "engine_step b eh I_post_done ?t = emit_drain (engine_hook b eh) (?t\<lparr>writable := True\<rparr>)"
    using t(1) by (simp add: write_done_def flowing_def)
  have "moved b ?t [] (engine_step b eh I_post_done ?t)" "unsent (engine_step b eh I_post_done ?t) = []"
    unfolding step using drain_moves [OF t(1)] t(3) assms(4) by simp_all
  then show "readyState (engine_step b eh I_post_done (engine_step b eh I_post_done ?t)) = RS_closed"
    by (intro last_drain_closes) (simp_all add: moved_def t(2))
  let ?u = "?t\<lparr>writable := True, writeBuffer := unsent s, prevBufferLen := 0\<rparr>"
  have "emit_drain (engine_hook b eh) (?t\<lparr>writable := True\<rparr>) = flush b eh ?u"
    using t(1,3) assms(4) emit_drain_unpaused [of "?t\<lparr>writable := True\<rparr>"]
    by (simp add: flowing_def onDrain_def unsent_def Let_def)
  moreover have "actions (flush b eh ?u) = actions ?u @ batch_actions b ?u (writeBuffer ?u)"
    by (rule flush_writable(1)) (use t(1) assms(4) in \<open>simp_all add: flowing_def\<close>)
  moreover have "batch_actions b ?u = batch_actions b s"
    by (rule batch_actions_cong) (simp_all add: t)
  ultimately show "actions (engine_step b eh I_post_done ?t) = actions s @ batch_actions b s (unsent s)"
    unfolding step by (simp add: t(4))
qed

end

lemma cleanup_probe:
  assumes "ptransport (get_probe k s) = Some t"
  shows "probe_cleanup k s = s\<lparr>probes := (probes s)[k := (get_probe k s)\<lparr>on_open := False, on_error := False,
      on_close := False, self_close := False, self_upgrading := False\<rparr>]\<rparr>"
  using assms by (simp add: probe_cleanup_def set_probe_def get_probe_def)

lemma swap_more_fields [simp]: "actions (swap_transport t s) = actions t" "supportsBinary (swap_transport t s) = supportsBinary t"
  by (simp_all add: swap_transport_def transport.defs)

lemma setTransport_more [simp]:
  "actions (setTransport t s) = actions t" "kind (setTransport t s) = kind t" "supportsBinary (setTransport t s) = supportsBinary t"
  "close_on_upgrade (setTransport t s) = close_on_upgrade s" "close_on_drain (setTransport t s) = close_on_drain s"
  "has_transport s \<Longrightarrow> retired (setTransport t s) = transport.truncate (removeAllListeners s) # retired s"
  by (simp_all add: setTransport_def Let_def)

context passive_user
begin

text \<open>The upgrade packet is the first thing the new transport sends, and the buffer waits for its drain.\<close>

lemma upgraded:
  assumes "ptransport (get_probe k s) = Some t" "\<not> failed (get_probe k s)" "tstate t = TS_open" "live s" "has_transport s"
    "thrown s = None" "prevBufferLen s \<le> length (writeBuffer s)" "\<not> close_on_upgrade s" "\<And>s. eh E_upgrade s = s"
  defines "s' \<equiv> probe_paused b eh k s"
  shows "flowing s'" "unsent s' = unsent s" "actions s' = actions t @ batch_actions b t [upgrade_packet]"
    "kind s' = kind t" "supportsBinary s' = supportsBinary t" "readyState s' = readyState s" "close_on_drain s' = close_on_drain s"
    "retired s' = transport.truncate (removeAllListeners s) # retired s"
proof -
  define c where "c = probe_cleanup k s"
  define u where "u = setTransport t c"
  have c: "readyState c = readyState s" "has_transport c" "thrown c = None" "prevBufferLen c = prevBufferLen s"
    "writeBuffer c = writeBuffer s" "close_on_upgrade c = close_on_upgrade s" "close_on_drain c = close_on_drain s"
    "retired c = retired s" "transport.truncate (removeAllListeners c) = transport.truncate (removeAllListeners s)"
    using assms(5,6) by (simp_all add: c_def cleanup_probe [OF assms(1)] removeAllListeners_def transport.defs)
  obtain v where v: "t_send b unheard [upgrade_packet] u = Inr v"
    using assms(3) by (auto simp: t_send_def u_def)
  note same = more_fields [OF more_t_send [OF v]] t_send_fields [OF v] t_send_batch [OF v]
  have "batch_actions b u = batch_actions b t" by (rule batch_actions_cong) (simp_all add: u_def)
  note facts = this same assms(4-8) c
  define w where "w = (set_probe k (\<lambda>p. p\<lparr>ptransport := None\<rparr>) v)\<lparr>upgrading := False\<rparr>"
  have "emit_upgrade b eh v = v"
    using facts by (simp add: emit_upgrade_def assms(9) u_def Let_def)
  then have "s' = flush b eh w"
    using assms(1,2,4) v by (simp add: s'_def probe_paused_def live_iff u_def c_def w_def Let_def)
  moreover have "flush b eh w = w"
    using facts by (simp add: flush_def w_def set_probe_def u_def)
  ultimately have s': "s' = w" by simp
  show "flowing s'" "unsent s' = unsent s" "actions s' = actions t @ batch_actions b t [upgrade_packet]"
    "kind s' = kind t" "supportsBinary s' = supportsBinary t" "readyState s' = readyState s" "close_on_drain s' = close_on_drain s"
    "retired s' = transport.truncate (removeAllListeners s) # retired s"
    unfolding s' w_def using facts
    by (simp_all add: set_probe_def flowing_def live_iff u_def unsent_def)
qed

lemma upgraded_drain:
  assumes "flowing s" "unsent s \<noteq> []"
  shows "actions (emit_drain (engine_hook b eh) (s\<lparr>writable := True\<rparr>)) = actions s @ batch_actions b s (unsent s)"
proof -
  let ?u = "s\<lparr>writable := True, writeBuffer := unsent s, prevBufferLen := 0\<rparr>"
  have "emit_drain (engine_hook b eh) (s\<lparr>writable := True\<rparr>) = flush b eh ?u"
    using assms emit_drain_unpaused [of "s\<lparr>writable := True\<rparr>"]
    by (simp add: flowing_def onDrain_def unsent_def Let_def)
  moreover have "actions (flush b eh ?u) = actions ?u @ batch_actions b ?u (writeBuffer ?u)"
    by (rule flush_writable(1)) (use assms in \<open>simp_all add: flowing_def\<close>)
  moreover have "batch_actions b ?u = batch_actions b s"
    by (rule batch_actions_cong) simp_all
  ultimately show ?thesis by simp
qed

text \<open>While an upgrade is under way nothing is written to the transport.\<close>

lemma stalled_write:
  assumes "upgrading s" "has_transport s"
  shows "actions (engine_write b eh d s) = actions s" "upgrading (engine_write b eh d s)" "has_transport (engine_write b eh d s)"
  using assms by (simp_all add: engine_write_def sendPacket_def flush_def unmoved Let_def)

lemma stalled_writes:
  assumes "upgrading s" "has_transport s"
  shows "actions (fold (engine_write b eh) ds s) = actions s"
  using assms by (induction ds arbitrary: s) (simp_all add: stalled_write)

lemma heartbeat_fails:
  assumes "flowing s" "pingIntervalTimer s" "readyState s = RS_open"
  shows "readyState (ping_timeout_fires b eh (ping_interval_fires b eh s)) = RS_closed"
proof -
  let ?s = "s\<lparr>pingIntervalTimer := False\<rparr>"
  let ?t = "?s\<lparr>writeBuffer := writeBuffer s @ [\<lparr>etype = P_ping, edata = NoData\<rparr>], ping_waiters := ping_waiters s + 1\<rparr>"
  have "could_flow ?t" using assms by (auto simp: flowing_def could_flow_def live_def)
  then have "moved b ?t [] (flush b eh ?t)" by (rule flush_moves)
  moreover have "ping b eh ?s = flush b eh ?t"
    using assms by (simp add: ping_def sendPacket_def unmoved Let_def)
  ultimately have "flowing (ping b eh ?s)" by (simp add: moved_def)
  then have "readyState (onClose b eh r (ping b eh ?s\<lparr>pingTimeoutTimer := None\<rparr>)) = RS_closed" for r
    by (intro onClose_closes) (simp_all add: flowing_def live_def)
  then show ?thesis
    using assms(2) by (simp add: ping_timeout_fires_def ping_interval_fires_def onHeartbeat_def Let_def)
qed

end

definition hushed :: "(engine_event \<Rightarrow> user_call list) \<Rightarrow> engine_event \<Rightarrow> user_call list" where
  "hushed user ev = (case ev of E_flush \<Rightarrow> [] | E_drain \<Rightarrow> [] | E_ping \<Rightarrow> [] | E_packetCreate _ \<Rightarrow> [] | _ \<Rightarrow> user ev)"

lemma scripted_none: "user ev = [] \<Longrightarrow> scripted n b user ev s = s"
  by (cases n) simp_all

interpretation hushed_user: passive_user b "scripted n b (hushed user)" for b n user
  by unfold_locales (simp_all add: scripted_none hushed_def)

subsection \<open>Correctness of the socket\<close>


text \<open>
  C4. The socket hands the packets over in the order in which they were written, none twice and none left out: any
  writes, completed requests and ticks refine the queue of packets that are not handed over. After a completed
  request that queue is empty.
\<close>

theorem engine_fifo:
  assumes "flowing s" "readyState s = RS_open" "\<not> close_on_drain s" "list_all carries ins"
  assumes s': "s' = fold (engine_step b (scripted n b (hushed user))) ins s"
  shows "flowing s' \<and> readyState s' = RS_open \<and> (\<exists>batches.
      actions s' = actions s @ concat (map (batch_actions b s) batches) \<and>
      concat batches @ unsent s' = unsent s @ concat (map written ins)) \<and>
    unsent (engine_step b (scripted n b (hushed user)) I_post_done s') = []"
proof -
  have m: "moved b s (concat (map written ins)) s'"
    unfolding s' by (rule hushed_user.steps_move [OF assms(1-4)])
  then have up: "flowing s'" "\<not> close_on_drain s' \<or> unsent s' \<noteq> []" using assms(3) by (simp_all add: moved_def)
  then have "tstate s' \<noteq> TS_opening" by (simp add: flowing_def)
  then have "unsent (engine_step b (scripted n b (hushed user)) I_post_done s') = []"
    by (simp add: write_done_def hushed_user.drain_moves(2) [OF up])
  then show ?thesis using m assms(2) by (simp add: moved_def)
qed

text \<open>
  C15. A closed socket stays closed: no call, message, timer, transport or probe brings it back.
\<close>

theorem engine_closed_final:
  assumes "readyState s = RS_closed"
  shows "readyState (fold (engine_step b (scripted n b user)) ins s) = RS_closed"
  using assms by (induction ins arbitrary: s) (simp_all add: scripted_user.closed_engine_step del: engine_step.simps)

text \<open>
  C14. \<open>close\<close> waits for the buffer: the packets that were not handed over go out as one batch when the request
  that is under way completes, and the socket is closed when theirs does.
\<close>

theorem engine_close_drains:
  assumes "flowing s" "readyState s = RS_open" "unsent s \<noteq> []"
  assumes step: "step = engine_step b (scripted n b (hushed user)) I_post_done"
  assumes s': "s' = engine_close b (scripted n b (hushed user)) s"
  shows "readyState s' = RS_closing \<and> actions s' = actions s \<and>
    actions (step s') = actions s @ batch_actions b s (unsent s) \<and> readyState (step (step s')) = RS_closed"
proof -
  have buffered: "writeBuffer s \<noteq> []" using assms(3) by (auto simp: unsent_def)
  show ?thesis
    unfolding s' step using hushed_user.close_drains [OF assms(1,2) buffered assms(3)] assms(2) buffered
    by (simp add: engine_close_def Let_def del: engine_step.simps)
qed

text \<open>
  C13. An upgrade loses nothing: when the old transport has paused, the new one sends the upgrade packet first, the
  packets that were waiting go out next and in order, and the old transport is let go of without listeners.
\<close>

theorem engine_upgrade_keeps_packets:
  assumes "engine_reachable b (scripted n b (hushed user)) s" "live s" "has_transport s" "thrown s = None"
    "ptransport (get_probe k s) = Some t" "\<not> failed (get_probe k s)" "tstate t = TS_open" "\<not> close_on_upgrade s"
    "user E_upgrade = []"
  assumes s': "s' = probe_paused b (scripted n b (hushed user)) k s"
  shows "flowing s' \<and> kind s' = kind t \<and> actions s' = actions t @ batch_actions b t [upgrade_packet] \<and>
    unsent s' = unsent s \<and> \<not> listening (hd (retired s')) \<and>
    (unsent s \<noteq> [] \<longrightarrow> actions (engine_step b (scripted n b (hushed user)) I_post_done s') =
       actions t @ batch_actions b t [upgrade_packet] @ batch_actions b t (unsent s))"
proof -
  have le: "prevBufferLen s \<le> length (writeBuffer s)"
    using scripted_user.inv_reachable [OF assms(1)] assms(4) by (simp add: engine_inv_def engine_core_def)
  have quiet: "scripted n b (hushed user) E_upgrade s = s" for s :: "'a engine_scheme"
    by (simp add: scripted_none hushed_def assms(9))
  note up = hushed_user.upgraded [OF assms(5-7,2,3,4) le assms(8) quiet, folded s']
  have same: "batch_actions b s' = batch_actions b t" by (rule batch_actions_cong) (simp_all add: up)
  have "tstate s' \<noteq> TS_opening" using up(1) by (simp add: flowing_def)
  then have step: "engine_step b (scripted n b (hushed user)) I_post_done s' =
      emit_drain (engine_hook b (scripted n b (hushed user))) (s'\<lparr>writable := True\<rparr>)"
    by (simp only: engine_step.simps write_done_def if_True not_False_eq_True)
  have "actions (engine_step b (scripted n b (hushed user)) I_post_done s') =
      actions t @ batch_actions b t [upgrade_packet] @ batch_actions b t (unsent s)" if "unsent s \<noteq> []"
  proof -
    from that have "unsent s' \<noteq> []" by (simp only: up(2) not_False_eq_True)
    from hushed_user.upgraded_drain [OF up(1) this, of b n user] show ?thesis
      by (simp only: step up(2,3) same append_assoc)
  qed
  moreover have "\<not> listening (hd (retired s'))"
    by (simp add: up(8) removeAllListeners_def transport.defs)
  ultimately show ?thesis using up(1-4) by blast
qed

text \<open>
  C16. Heartbeat: when a ping is due, its answer is awaited; if no packet arrives before the timeout, the socket
  closes.
\<close>

theorem engine_heartbeat:
  assumes "flowing s" "readyState s = RS_open" "pingIntervalTimer s"
  assumes s': "s' = engine_step b (scripted n b (hushed user)) I_ping_timer s"
  shows "pingTimeoutTimer s' \<noteq> None \<and>
    readyState (engine_step b (scripted n b (hushed user)) I_timeout_timer s') = RS_closed"
  unfolding s' using hushed_user.heartbeat_fails [OF assms(1,3,2)] assms(3)
  by (simp add: ping_interval_fires_def onHeartbeat_def Let_def)

subsection \<open>Behaviour worth knowing\<close>

text \<open>
  A probe that fails once the pong has arrived aborts the upgrade and leaves \<open>upgrading\<close> set: nothing that is
  written from then on is sent, until the ping timeout closes the socket.
\<close>

lemma upgrade_abort_stalls:
  assumes "upgrading s" "has_transport s" "on_error (get_probe k s)" "ptransport (get_probe k s) = Some t"
    "\<not> failed (get_probe k s)" "\<not> close_on_upgrade s" "user E_upgradeError = []" "k < length (probes s)"
  assumes s': "s' = probe_event b (scripted n b (hushed user)) k (T_error e) s"
  shows "upgrading s'" "readyState s' = readyState s"
    "actions (fold (engine_write b (scripted n b (hushed user))) ds s') = actions s'"
proof -
  have "scripted n b (hushed user) E_upgradeError s = s" for s :: "'a engine_scheme"
    by (simp add: scripted_none hushed_def assms(7))
  then have up: "upgrading s' \<and> readyState s' = readyState s \<and> has_transport s'"
    using assms(1-6,8)
    by (simp add: s' probe_onerror_def emit_upgradeError_def freezeTransport_def probe_cleanup_def get_probe_def
        set_probe_def Let_def)
  then show "upgrading s'" "readyState s' = readyState s" by simp_all
  show "actions (fold (engine_write b (scripted n b (hushed user))) ds s') = actions s'"
    using up by (intro hushed_user.stalled_writes) simp_all
qed

text \<open>
  A probe whose transport would lose binary support is marked as failed before it is frozen, so that freezing it
  does nothing and its open transport is never closed.
\<close>

lemma binary_probe_leaks:
  assumes "ptransport (get_probe k s) = Some t" "onlyBinaryUpgrades s" "\<not> transport.supportsBinary t"
    "transport.supportsBinary s" "k < length (probes s)"
  shows "freezeTransport b k (onTransportOpen b k s) = onTransportOpen b k s"
    "ptransport (get_probe k (onTransportOpen b k s)) = Some t"
  using assms by (simp_all add: onTransportOpen_def freezeTransport_def get_probe_def set_probe_def Let_def)

subsection \<open>A socket that runs\<close>

definition sample_socket_opts :: socket_opts where
  "sample_socket_opts = \<lparr>so_hostname = lit ''h'', so_secure = None, so_port = [], so_query = Inr [], so_path = [],
     so_transports = None, so_upgrade = None, so_forceJSONP = False, so_jsonp = None, so_forceBase64 = False,
     so_enablesXDR = False, so_timestampParam = [], so_timestampRequests = None, so_rememberUpgrade = False,
     so_onlyBinaryUpgrades = False\<rparr>"

definition sample_socket :: engine where
  "sample_socket = (case new_engine full_browser None sample_socket_opts False 0 () of Inr s \<Rightarrow> s)"

definition sample_user :: "engine_event \<Rightarrow> user_call list" where
  "sample_user ev = []"

definition handshake :: eio_data where
  "handshake = Text (lit ''27:0{\"upgrades\":[\"websocket\"]}'')"

definition sample_run :: "engine_input list \<Rightarrow> engine" where
  "sample_run ins = fold (engine_step full_browser (scripted 1 full_browser (hushed sample_user))) ins sample_socket"

lemma reachable_fold: "engine_reachable b eh s \<Longrightarrow> engine_reachable b eh (fold (engine_step b eh) ins s)"
  by (induction ins arbitrary: s) (auto intro: stepped)

lemma sample_reachable: "engine_reachable full_browser (scripted 1 full_browser (hushed sample_user)) (sample_run ins)"
proof -
  have "case new_engine full_browser None sample_socket_opts False 0 () of Inl _ \<Rightarrow> False | Inr _ \<Rightarrow> True"
    by code_simp
  then have "new_engine full_browser None sample_socket_opts False 0 () = Inr sample_socket"
    by (simp add: sample_socket_def split: sum.splits)
  then show ?thesis unfolding sample_run_def by (intro reachable_fold constructed)
qed

text \<open>The handshake has arrived, two packets are written and the first one is in flight.\<close>

definition is_busy :: "engine \<Rightarrow> bool" where
  "is_busy s \<longleftrightarrow> flowing s \<and> readyState s = RS_open \<and> \<not> close_on_drain s \<and> pingIntervalTimer s \<and>
     unsent s = [\<lparr>etype = P_message, edata = Text (lit ''b'')\<rparr>] \<and> prevBufferLen s = 1 \<and>
     length (actions s) = 3"

lemma sample_busy:
  "is_busy (sample_run [I_poll_data (Text (lit ''16:0{\"upgrades\":[]}'')), I_write (Text (lit ''a'')), I_write (Text (lit ''b''))])"
  by code_simp

text \<open>The pong to the probe has arrived and a packet is written while the transport pauses.\<close>

definition is_upgrading :: "engine \<Rightarrow> bool" where
  "is_upgrading s \<longleftrightarrow> live s \<and> has_transport s \<and> thrown s = None \<and> upgrading s \<and>
   \<not> failed (get_probe 0 s) \<and> \<not> close_on_upgrade s \<and>
   (case ptransport (get_probe 0 s) of Some t \<Rightarrow> tstate t = TS_open \<and> kind t = WS | None \<Rightarrow> False) \<and>
   unsent s = [\<lparr>etype = P_message, edata = Text (lit ''a'')\<rparr>]"

lemma sample_upgrading:
  "is_upgrading (sample_run [I_poll_data handshake, I_probe 0 Pr_open, I_probe 0 (Pr_message (Text (lit ''3probe''))),
     I_write (Text (lit ''a''))])"
  by code_simp

definition is_closed :: "engine \<Rightarrow> bool" where
  "is_closed s \<longleftrightarrow> readyState s = RS_closed"

lemma sample_closed: "is_closed (sample_run [I_close])"
  by code_simp


theorem engine_fifo_witness:
  "\<exists>s :: engine. unsent (engine_step full_browser (scripted 1 full_browser (hushed sample_user)) I_post_done
     (fold (engine_step full_browser (scripted 1 full_browser (hushed sample_user))) [I_write (Text (lit ''c''))] s)) = [] \<and>
     unsent s \<noteq> []"
proof -
  obtain ins where busy: "is_busy (sample_run ins)" using sample_busy by blast
  then have s: "flowing (sample_run ins)" "readyState (sample_run ins) = RS_open" "\<not> close_on_drain (sample_run ins)"
    "unsent (sample_run ins) \<noteq> []"
    by (simp_all add: is_busy_def)
  have "list_all carries [I_write (Text (lit ''c''))]" by simp
  from engine_fifo [OF s(1-3) this refl] s(4) show ?thesis by blast
qed

theorem engine_closed_final_witness:
  "\<exists>s :: engine. readyState (fold (engine_step full_browser (scripted 1 full_browser (hushed sample_user)))
     [I_write (Text (lit ''c'')), I_ws_open] s) = RS_closed"
proof -
  have "readyState (sample_run [I_close]) = RS_closed" using sample_closed by (simp add: is_closed_def)
  from engine_closed_final [OF this] show ?thesis by blast
qed

theorem engine_close_drains_witness:
  "\<exists>s :: engine. readyState (engine_step full_browser (scripted 1 full_browser (hushed sample_user)) I_post_done
     (engine_step full_browser (scripted 1 full_browser (hushed sample_user)) I_post_done
        (engine_close full_browser (scripted 1 full_browser (hushed sample_user)) s))) = RS_closed \<and> unsent s \<noteq> []"
proof -
  obtain ins where busy: "is_busy (sample_run ins)" using sample_busy by blast
  then have s: "flowing (sample_run ins)" "readyState (sample_run ins) = RS_open" "unsent (sample_run ins) \<noteq> []"
    by (simp_all add: is_busy_def)
  from engine_close_drains [OF s refl refl] s(3) show ?thesis by blast
qed

theorem engine_upgrade_keeps_packets_witness:
  "\<exists>s :: engine. kind (probe_paused full_browser (scripted 1 full_browser (hushed sample_user)) 0 s) = WS \<and>
     unsent (probe_paused full_browser (scripted 1 full_browser (hushed sample_user)) 0 s) =
       [\<lparr>etype = P_message, edata = Text (lit ''a'')\<rparr>]"
proof -
  obtain ins where up: "is_upgrading (sample_run ins)" using sample_upgrading by blast
  then obtain t where s: "live (sample_run ins)" "has_transport (sample_run ins)" "thrown (sample_run ins) = None"
    "ptransport (get_probe 0 (sample_run ins)) = Some t" "\<not> failed (get_probe 0 (sample_run ins))" "tstate t = TS_open"
    "\<not> close_on_upgrade (sample_run ins)" and more: "kind t = WS"
      "unsent (sample_run ins) = [\<lparr>etype = P_message, edata = Text (lit ''a'')\<rparr>]"
    by (auto simp: is_upgrading_def split: option.splits)
  have "sample_user E_upgrade = []" by (simp add: sample_user_def)
  from engine_upgrade_keeps_packets [OF sample_reachable s this refl] more show ?thesis by metis
qed

theorem engine_heartbeat_witness:
  "\<exists>s :: engine. readyState (engine_step full_browser (scripted 1 full_browser (hushed sample_user)) I_timeout_timer
     (engine_step full_browser (scripted 1 full_browser (hushed sample_user)) I_ping_timer s)) = RS_closed \<and> readyState s = RS_open"
proof -
  obtain ins where busy: "is_busy (sample_run ins)" using sample_busy by blast
  then have s: "flowing (sample_run ins)" "readyState (sample_run ins) = RS_open" "pingIntervalTimer (sample_run ins)"
    by (simp_all add: is_busy_def)
  from engine_heartbeat [OF s refl] s(2) show ?thesis by blast
qed

end
