(* ===== verification/Manager.thy ===== *)
theory Manager
  imports EngineFlow IoParser Backoff
begin

text \<open>
  The socket.io \<open>Manager\<close> (module 17) and its \<open>Socket\<close>s (module 44, with \<open>toArray\<close>, \<open>on\<close> and \<open>bind\<close>
  of modules 45, 46 and 47): one engine.io connection, the namespaces that share it, the queue of
  packets that wait for the encoder, and reconnection.

  A manager is an extension of its current engine. Opening again replaces the engine; the
  subscriptions carry the number of the engine they listen to, and what an engine that was replaced
  before it had closed still does is not modelled. The listeners of the application are a function
  \<open>ah\<close> on the manager's whole state. The bundle registers no listener for what writing to an engine
  emits, so writing is silent; a call that may close the engine takes the listeners \<open>eh\<close> of its events.
\<close>

subsection \<open>State\<close>

record io_socket =
  io_nsp :: jsstr
  io_query :: "jsstr option"      \<comment> \<open>a non-empty string\<close>
  ids :: nat
  acks :: "(nat \<times> nat) list"      \<comment> \<open>the application's callbacks, by the id of the packet\<close>
  receiveBuffer :: "(jsval \<times> nat option) list"
  sendBuffer :: "io_packet list"
  connected :: bool
  disconnected :: bool
  subscribed :: bool               \<comment> \<open>\<open>this.subs\<close>\<close>
  flags :: "bool option"
  io_id :: jsval
  ack_calls :: "(jsnum \<times> bool) list"   \<comment> \<open>the functions \<open>ack\<close> has made: the id and \<open>sent\<close>\<close>

datatype open_callback = No_fn | Reconnect_fn | App_fn nat    \<comment> \<open>a callback of the application\<close>

datatype manager_sub =
    is_Sub_open: Sub_open open_callback | Sub_connect_error open_callback
  | Sub_data | Sub_ping | Sub_pong | Sub_error | Sub_close | Sub_decoded

record manager_opts =
  mo_engine :: socket_opts
  mo_reconnection :: "bool option"
  mo_attempts :: "nat option"
  mo_delay :: "jsfloat option"
  mo_delayMax :: "jsfloat option"
  mo_factor :: "jsfloat option"
  mo_timeout :: "nat option option"    \<comment> \<open>\<open>Some None\<close> is \<open>false\<close>\<close>
  mo_autoConnect :: "bool option"

record manager = engine +
  m_uri :: "parsed_uri option"
  m_opts :: socket_opts
  reconnection :: bool
  reconnectionAttempts :: "nat option"   \<comment> \<open>\<open>None\<close> is \<open>Infinity\<close>\<close>
  reconnectionDelay :: jsfloat
  reconnectionDelayMax :: jsfloat
  randomizationFactor :: jsfloat
  m_timeout :: "nat option"              \<comment> \<open>\<open>None\<close> is \<open>false\<close>\<close>
  m_backoff :: backoff
  m_random :: "nat \<Rightarrow> rat"               \<comment> \<open>what \<open>Math.random()\<close> will return\<close>
  m_draws :: nat
  m_readyState :: ready_state
  skipReconnect :: bool
  reconnecting :: bool
  lastPing :: bool
  encoding :: bool
  packetBuffer :: "(io_packet \<times> jsstr option) list"   \<comment> \<open>with \<open>packet.query\<close>\<close>
  encoders :: "(io_packet \<times> blob_state) list"        \<comment> \<open>encodings that wait for file readers\<close>
  m_decoder :: decoder
  autoConnect :: bool
  sockets :: "io_socket list"
  nsps :: "(jsstr \<times> nat) list"
  connecting :: "nat list"
  listeners :: "nat list"                \<comment> \<open>the sockets that listen to the manager, in order\<close>
  subs :: "(nat \<times> manager_sub) list"
  engine_no :: nat                       \<comment> \<open>0 before the first engine\<close>
  connect_timer :: bool
  reconnect_timer :: "int option"        \<comment> \<open>the delay\<close>

datatype app_event =
    M_event jsstr "jsval list"                      \<comment> \<open>on the manager\<close>
  | S_event nat "jsval list" "nat option"           \<comment> \<open>on a socket, with the function \<open>ack\<close> made\<close>
  | A_call nat nat "jsval list"                      \<comment> \<open>a callback of the application\<close>
  | M_open_fn nat "jsstr option"                     \<comment> \<open>the callback of \<open>open\<close>, with the data of an error\<close>

type_synonym 'w app = "app_event \<Rightarrow> 'w manager_scheme \<Rightarrow> 'w manager_scheme"
type_synonym 'w manager_hook = "engine_event \<Rightarrow> 'w manager_scheme \<Rightarrow> 'w manager_scheme"

definition silent :: "'w engine_hook" where
  "silent ev s = s"

definition sock :: "nat \<Rightarrow> 'w manager_scheme \<Rightarrow> io_socket" where
  "sock k s = sockets s ! k"

definition upd :: "nat \<Rightarrow> (io_socket \<Rightarrow> io_socket) \<Rightarrow> 'w manager_scheme \<Rightarrow> 'w manager_scheme" where
  "upd k f s = s\<lparr>sockets := (sockets s)[k := f (sockets s ! k)]\<rparr>"

subsection \<open>Emitting to the application\<close>

definition events :: "string list" where
  "events = [''connect'', ''connect_error'', ''connect_timeout'', ''connecting'', ''disconnect'', ''error'',
     ''reconnect'', ''reconnect_attempt'', ''reconnect_failed'', ''reconnect_error'', ''reconnecting'', ''ping'', ''pong'']"

definition is_event :: "jsval \<Rightarrow> bool" where
  "is_event v \<longleftrightarrow> v \<in> set (map (JStr \<circ> lit) events)"

text \<open>The manager listens to \<open>connecting\<close> and \<open>connect\<close> of its sockets before anyone else.\<close>

definition onConnecting :: "nat \<Rightarrow> 'w manager_scheme \<Rightarrow> 'w manager_scheme" where
  "onConnecting k s = (if k \<in> set (connecting s) then s else s\<lparr>connecting := connecting s @ [k]\<rparr>)"

definition local_emit :: "'w app \<Rightarrow> nat \<Rightarrow> jsval list \<Rightarrow> nat option \<Rightarrow> 'w manager_scheme \<Rightarrow> 'w manager_scheme" where
  "local_emit ah k args ack s =
     (let s = (if take 1 args = [JStr (lit ''connecting'')] then onConnecting k s
               else if take 1 args = [JStr (lit ''connect'')] then upd k (\<lambda>x. x\<lparr>io_id := sid s\<rparr>) s
               else s)
      in ah (S_event k args ack) s)"

definition emitAll :: "'w app \<Rightarrow> string \<Rightarrow> jsval list \<Rightarrow> 'w manager_scheme \<Rightarrow> 'w manager_scheme" where
  "emitAll ah name args s =
     fold (\<lambda>(_, k). local_emit ah k (JStr (lit name) # args) None) (nsps s) (ah (M_event (lit name) args) s)"

definition updateSocketIds :: "'w manager_scheme \<Rightarrow> 'w manager_scheme" where
  "updateSocketIds s = fold (\<lambda>(_, k). upd k (\<lambda>x. x\<lparr>io_id := sid s\<rparr>)) (nsps s) s"

subsection \<open>Settings\<close>

definition set_reconnectionDelay :: "jsfloat \<Rightarrow> 'w manager_scheme \<Rightarrow> 'w manager_scheme" where
  "set_reconnectionDelay v s = s\<lparr>reconnectionDelay := v, m_backoff := setMin v (m_backoff s)\<rparr>"

definition set_randomizationFactor :: "jsfloat \<Rightarrow> 'w manager_scheme \<Rightarrow> 'w manager_scheme" where
  "set_randomizationFactor v s = s\<lparr>randomizationFactor := v, m_backoff := setJitter v (m_backoff s)\<rparr>"

definition set_reconnectionDelayMax :: "jsfloat \<Rightarrow> 'w manager_scheme \<Rightarrow> 'w manager_scheme" where
  "set_reconnectionDelayMax v s = s\<lparr>reconnectionDelayMax := v, m_backoff := setMax v (m_backoff s)\<rparr>"

subsection \<open>Opening and reconnecting\<close>

definition cleanup :: "'w manager_scheme \<Rightarrow> 'w manager_scheme" where
  "cleanup s = s\<lparr>subs := [], connect_timer := False, reconnect_timer := None, packetBuffer := [], encoding := False,
     lastPing := False, m_decoder := Decoder_destroy (m_decoder s)\<rparr>"

definition gave_up :: "'w manager_scheme \<Rightarrow> bool" where
  "gave_up s = (case reconnectionAttempts s of Some n \<Rightarrow> attempts (m_backoff s) \<ge> n | None \<Rightarrow> False)"

definition reconnect :: "'w app \<Rightarrow> 'w manager_scheme \<Rightarrow> 'w manager_scheme" where
  "reconnect ah s =
     (if reconnecting s \<or> skipReconnect s then s
      else if gave_up s then
        let s = emitAll ah ''reconnect_failed'' [] (s\<lparr>m_backoff := reset (m_backoff s)\<rparr>)
        in s\<lparr>reconnecting := False\<rparr>
      else case duration (m_random s (m_draws s)) (m_backoff s) of (delay, bo) \<Rightarrow>
        s\<lparr>m_backoff := bo, m_draws := m_draws s + 1, reconnecting := True, reconnect_timer := Some delay\<rparr>)"

definition maybeReconnectOnOpen :: "'w app \<Rightarrow> 'w manager_scheme \<Rightarrow> 'w manager_scheme" where
  "maybeReconnectOnOpen ah s =
     (if \<not> reconnecting s \<and> reconnection s \<and> attempts (m_backoff s) = 0 then reconnect ah s else s)"

definition manager_open :: "browser \<Rightarrow> open_callback \<Rightarrow> 'w manager_scheme \<Rightarrow> 'w manager_scheme" where
  "manager_open b fn s =
     (if m_readyState s \<noteq> RS_closed then s
      else case new_engine b (m_uri s) (m_opts s) (priorWebsocketSuccess s) (jsonp_index s) (engine.more s) of
        Inl e \<Rightarrow> throw e s
      | Inr t \<Rightarrow>
          let n = engine_no s + 1 in
          t\<lparr>thrown := thrown s, engine_no := n, m_readyState := RS_opening, skipReconnect := False,
            connect_timer := (m_timeout s \<noteq> None),
            subs := subs s @ [(n, Sub_open fn), (n, Sub_connect_error fn)]\<rparr>)"

definition reconnect_timer_fires :: "browser \<Rightarrow> 'w app \<Rightarrow> 'w manager_scheme \<Rightarrow> 'w manager_scheme" where
  "reconnect_timer_fires b ah s =
     (if reconnect_timer s = None then s
      else
        let s = s\<lparr>reconnect_timer := None\<rparr> in
        if skipReconnect s then s
        else
          let s = emitAll ah ''reconnect_attempt'' [JNum (js_nat (attempts (m_backoff s)))] s;
              s = emitAll ah ''reconnecting'' [JNum (js_nat (attempts (m_backoff s)))] s
          in if skipReconnect s then s else manager_open b Reconnect_fn s)"

definition onreconnect :: "'w app \<Rightarrow> 'w manager_scheme \<Rightarrow> 'w manager_scheme" where
  "onreconnect ah s =
     (let attempt = attempts (m_backoff s);
          s = updateSocketIds (s\<lparr>reconnecting := False, m_backoff := reset (m_backoff s)\<rparr>)
      in emitAll ah ''reconnect'' [JNum (js_nat attempt)] s)"

subsection \<open>Writing packets\<close>

text \<open>What the encoder yields, as the engine takes it.\<close>

fun to_engine :: "jsval \<Rightarrow> eio_data" where
  "to_engine (JStr s) = Text s"
| "to_engine (JBuf bs) = Buffer bs"
| "to_engine (JBlob bs) = BlobOf bs"
| "to_engine _ = NoData"

definition write_all :: "browser \<Rightarrow> jsval list \<Rightarrow> 'w manager_scheme \<Rightarrow> 'w manager_scheme" where
  "write_all b frames s =
     (if engine_no s = 0 \<and> frames \<noteq> [] then throw TypeError s
      else fold (\<lambda>f. engine_write b silent (to_engine f)) frames s)"

definition with_query :: "io_packet \<times> jsstr option \<Rightarrow> io_packet \<times> jsstr option" where
  "with_query x = (case x of
     (p, Some q) \<Rightarrow> (if q \<noteq> [] \<and> ptype p = CONNECT
       then (p\<lparr>nsp := map_option (\<lambda>n. n @ lit ''?'' @ q) (nsp p)\<rparr>, Some q) else x)
   | (p, None) \<Rightarrow> x)"

definition waits_for_readers :: "io_packet \<Rightarrow> bool" where
  "waits_for_readers p \<longleftrightarrow> is_binary_type (ptype p) \<and> blob_paths (pdata p) \<noteq> []"

lemma more_transport_engine: "transport.more s = transport.more t \<Longrightarrow> engine.more s = engine.more t"
  by (cases s, cases t) simp

lemma silent_apply [simp]: "silent ev s = s"
  by (simp add: silent_def)

lemma more_waiters [simp]:
  "engine.more (fold (\<lambda>_ s. s\<lparr>ping_waiters := ping_waiters s - Suc 0\<rparr>) xs s) = engine.more s"
  by (induction xs arbitrary: s) simp_all

lemma more_flush_silent [simp]: "engine.more (flush b silent s) = engine.more s"
  using more_transport_engine [OF more_t_send]
  by (auto simp: flush_def throw_def emit_flush_def Let_def split: sum.split)

lemma more_engine_write [simp]: "engine.more (engine_write b silent d s) = engine.more s"
  by (simp add: engine_write_def sendPacket_def Let_def)

lemma more_write_all [simp]: "engine.more (write_all b frames s) = engine.more s"
proof -
  have "engine.more (fold (\<lambda>f. engine_write b silent (to_engine f)) frames s) = engine.more s"
    by (induction frames arbitrary: s) simp_all
  then show ?thesis by (simp add: write_all_def throw_def)
qed

lemma packetBuffer_more: "engine.more s = engine.more t \<Longrightarrow> packetBuffer s = packetBuffer t"
  by (cases s, cases t) simp

text \<open>
  \<open>packet\<close> with the encoder's callback: a packet whose encoding waits for file readers blocks the
  queue until they have finished.
\<close>

function m_packet :: "browser \<Rightarrow> io_packet \<times> jsstr option \<Rightarrow> 'w manager_scheme \<Rightarrow> 'w manager_scheme" where
  "m_packet b x s =
     (let (p, q) = with_query x in
      if encoding s then s\<lparr>packetBuffer := packetBuffer s @ [(p, q)]\<rparr>
      else if waits_for_readers p
      then s\<lparr>encoding := True, encoders := encoders s @ [(p, removeBlobs (pdata p))]\<rparr>
      else
        let s = (write_all b (concat (Encoder_encode json3_stringify [] p)) (s\<lparr>encoding := True\<rparr>))\<lparr>encoding := False\<rparr> in
        case packetBuffer s of [] \<Rightarrow> s | y # ys \<Rightarrow> m_packet b y (s\<lparr>packetBuffer := ys\<rparr>))"
  by pat_completeness auto
termination
  by (relation "measure (\<lambda>(b, x, s). length (packetBuffer s))")
    (auto dest: arg_cong [where f = length] simp: packetBuffer_more [OF more_write_all])

declare m_packet.simps [simp del]

definition processPacketQueue :: "browser \<Rightarrow> 'w manager_scheme \<Rightarrow> 'w manager_scheme" where
  "processPacketQueue b s = (case packetBuffer s of
     [] \<Rightarrow> s
   | y # ys \<Rightarrow> if encoding s then s else m_packet b y (s\<lparr>packetBuffer := ys\<rparr>))"

text \<open>A file reader of the encoding \<open>i\<close> has finished; after the last one the packet is written.\<close>

definition reader_finishes :: "browser \<Rightarrow> nat \<Rightarrow> path \<Rightarrow> 'w manager_scheme \<Rightarrow> 'w manager_scheme" where
  "reader_finishes b i place s =
     (case encoders s ! i of (p, st) \<Rightarrow>
        let st' = reader_onload place st; s = s\<lparr>encoders := (encoders s)[i := (p, st')]\<rparr> in
        if length (delivered st') = length (delivered st) then s
        else
          let frames = writeEncoding json3_stringify (p\<lparr>pdata := last (delivered st')\<rparr>)
          in processPacketQueue b ((write_all b frames s)\<lparr>encoding := False\<rparr>))"

subsection \<open>Closing\<close>

definition manager_close :: "browser \<Rightarrow> 'w manager_hook \<Rightarrow> 'w manager_scheme \<Rightarrow> 'w manager_scheme" where
  "manager_close b eh s =
     (let s = s\<lparr>skipReconnect := True, reconnecting := False\<rparr>;
          s = (if m_readyState s = RS_opening then cleanup s else s);
          s = s\<lparr>m_backoff := reset (m_backoff s), m_readyState := RS_closed\<rparr>
      in if engine_no s > 0 then engine_close b eh s else s)"

text \<open>A socket leaves the pool; the last one closes the connection.\<close>

definition manager_destroy :: "browser \<Rightarrow> 'w manager_hook \<Rightarrow> nat \<Rightarrow> 'w manager_scheme \<Rightarrow> 'w manager_scheme" where
  "manager_destroy b eh k s =
     (let s = s\<lparr>connecting := remove1 k (connecting s)\<rparr>
      in if connecting s \<noteq> [] then s else manager_close b eh s)"

subsection \<open>Sockets\<close>

definition plain_packet :: "nat \<Rightarrow> jsval \<Rightarrow> io_packet" where
  "plain_packet t d = \<lparr>ptype = t, nsp = None, pid = None, pdata = d, attachments = None\<rparr>"

definition socket_packet :: "browser \<Rightarrow> nat \<Rightarrow> io_packet \<Rightarrow> jsstr option \<Rightarrow> 'w manager_scheme \<Rightarrow> 'w manager_scheme" where
  "socket_packet b k p q s = m_packet b (p\<lparr>nsp := Some (io_nsp (sock k s))\<rparr>, q) s"

definition socket_onopen :: "browser \<Rightarrow> nat \<Rightarrow> 'w manager_scheme \<Rightarrow> 'w manager_scheme" where
  "socket_onopen b k s =
     (if io_nsp (sock k s) \<noteq> lit ''/'' then socket_packet b k (plain_packet CONNECT JUndef) (io_query (sock k s)) s
      else s)"

definition socket_onclose :: "'w app \<Rightarrow> jsstr \<Rightarrow> nat \<Rightarrow> 'w manager_scheme \<Rightarrow> 'w manager_scheme" where
  "socket_onclose ah reason k s =
     local_emit ah k [JStr (lit ''disconnect''), JStr reason] None
       (upd k (\<lambda>x. x\<lparr>connected := False, disconnected := True, io_id := JUndef\<rparr>) s)"

text \<open>
  \<open>emit(ev, ...args)\<close>, with a callback of the application if its last argument is a function.
\<close>

definition event_packet :: "jsval list \<Rightarrow> io_packet" where
  "event_packet args = plain_packet (if hasBinary (JArr args) then BINARY_EVENT else EVENT) (JArr args)"

definition socket_emit :: "browser \<Rightarrow> 'w app \<Rightarrow> nat \<Rightarrow> jsval list \<Rightarrow> nat option \<Rightarrow> 'w manager_scheme \<Rightarrow> 'w manager_scheme" where
  "socket_emit b ah k args cb s =
     (if is_event (hd args) then local_emit ah k args None s
      else
        let packet = event_packet args;
            i = ids (sock k s);
            packet = (case cb of None \<Rightarrow> packet | Some _ \<Rightarrow> packet\<lparr>pid := Some (js_nat i)\<rparr>);
            s = (case cb of None \<Rightarrow> s | Some c \<Rightarrow> upd k (\<lambda>x. x\<lparr>acks := acks x @ [(i, c)], ids := i + 1\<rparr>) s);
            s = (if connected (sock k s) then socket_packet b k packet None s
                 else upd k (\<lambda>x. x\<lparr>sendBuffer := sendBuffer x @ [packet]\<rparr>) s)
        in upd k (\<lambda>x. x\<lparr>flags := None\<rparr>) s)"

definition socket_send :: "browser \<Rightarrow> 'w app \<Rightarrow> nat \<Rightarrow> jsval list \<Rightarrow> nat option \<Rightarrow> 'w manager_scheme \<Rightarrow> 'w manager_scheme" where
  "socket_send b ah k args cb s = socket_emit b ah k (JStr (lit ''message'') # args) cb s"

definition compress :: "bool \<Rightarrow> nat \<Rightarrow> 'w manager_scheme \<Rightarrow> 'w manager_scheme" where
  "compress c k s = upd k (\<lambda>x. x\<lparr>flags := Some c\<rparr>) s"

text \<open>
  The list of arguments \<open>apply\<close> makes of a value: an object is read like an array.
\<close>

fun apply_args :: "jsval \<Rightarrow> jsval list result" where
  "apply_args (JArr vs) = Inr vs"
| "apply_args (JObj kvs) =
     Inr (map (\<lambda>i. get_field (js_String (js_nat i)) kvs) [0..<to_delay (get_field (lit ''length'') kvs)])"
| "apply_args (JBuf _) = Inr []"
| "apply_args (JBlob _) = Inr []"
| "apply_args JUndef = Inr []"
| "apply_args JNull = Inr []"
| "apply_args _ = Inl TypeError"

definition emit_received :: "'w app \<Rightarrow> nat \<Rightarrow> jsval \<times> nat option \<Rightarrow> 'w manager_scheme \<Rightarrow> 'w manager_scheme" where
  "emit_received ah k r s =
     (case apply_args (fst r) of Inl e \<Rightarrow> throw e s | Inr vs \<Rightarrow> local_emit ah k vs (snd r) s)"

definition deliver :: "'w app \<Rightarrow> nat \<Rightarrow> jsval \<times> nat option \<Rightarrow> 'w manager_scheme \<Rightarrow> 'w manager_scheme" where
  "deliver ah k r s =
     (if connected (sock k s) then emit_received ah k r s
      else upd k (\<lambda>x. x\<lparr>receiveBuffer := receiveBuffer x @ [r]\<rparr>) s)"

definition onevent :: "'w app \<Rightarrow> nat \<Rightarrow> io_packet \<Rightarrow> 'w manager_scheme \<Rightarrow> 'w manager_scheme" where
  "onevent ah k p s =
     (let args = (if truthy (pdata p) then pdata p else JArr []) in
      case pid p of
        None \<Rightarrow> deliver ah k (args, None) s
      | Some i \<Rightarrow>
          if isArray args
          then deliver ah k (args, Some (length (ack_calls (sock k s)))) (upd k (\<lambda>x. x\<lparr>ack_calls := ack_calls x @ [(i, False)]\<rparr>) s)
          else throw TypeError s)"

text \<open>The application calls the function that \<open>ack\<close> made as number \<open>h\<close>.\<close>

definition call_ack :: "browser \<Rightarrow> nat \<Rightarrow> nat \<Rightarrow> jsval list \<Rightarrow> 'w manager_scheme \<Rightarrow> 'w manager_scheme" where
  "call_ack b k h args s =
     (case ack_calls (sock k s) ! h of (i, sent) \<Rightarrow>
        if sent then s
        else
          socket_packet b k ((plain_packet (if hasBinary (JArr args) then BINARY_ACK else ACK) (JArr args))\<lparr>pid := Some i\<rparr>) None
            (upd k (\<lambda>x. x\<lparr>ack_calls := (ack_calls x)[h := (i, True)]\<rparr>) s))"

definition onack :: "'w app \<Rightarrow> nat \<Rightarrow> io_packet \<Rightarrow> 'w manager_scheme \<Rightarrow> 'w manager_scheme" where
  "onack ah k p s =
     (case find (\<lambda>(i, c). pid p = Some (js_nat i)) (acks (sock k s)) of
        None \<Rightarrow> s
      | Some (i, c) \<Rightarrow>
          (case apply_args (pdata p) of
             Inl e \<Rightarrow> throw e s
           | Inr vs \<Rightarrow> upd k (\<lambda>x. x\<lparr>acks := filter (\<lambda>(j, _). j \<noteq> i) (acks x)\<rparr>) (ah (A_call k c vs) s)))"

text \<open>
  The events that arrived before the connection are emitted, then the packets that were not sent.
\<close>

definition emitBuffered :: "browser \<Rightarrow> 'w app \<Rightarrow> nat \<Rightarrow> 'w manager_scheme \<Rightarrow> 'w manager_scheme" where
  "emitBuffered b ah k s =
     (let s = upd k (\<lambda>x. x\<lparr>receiveBuffer := []\<rparr>) (fold (emit_received ah k) (receiveBuffer (sock k s)) s)
      in upd k (\<lambda>x. x\<lparr>sendBuffer := []\<rparr>) (fold (\<lambda>p. socket_packet b k p None) (sendBuffer (sock k s)) s))"

definition onconnect :: "browser \<Rightarrow> 'w app \<Rightarrow> nat \<Rightarrow> 'w manager_scheme \<Rightarrow> 'w manager_scheme" where
  "onconnect b ah k s =
     emitBuffered b ah k (local_emit ah k [JStr (lit ''connect'')] None
       (upd k (\<lambda>x. x\<lparr>connected := True, disconnected := False\<rparr>) s))"

definition socket_destroy :: "browser \<Rightarrow> 'w manager_hook \<Rightarrow> nat \<Rightarrow> 'w manager_scheme \<Rightarrow> 'w manager_scheme" where
  "socket_destroy b eh k s =
     manager_destroy b eh k
       (if subscribed (sock k s)
        then upd k (\<lambda>x. x\<lparr>subscribed := False\<rparr>) (s\<lparr>listeners := remove1 k (listeners s)\<rparr>) else s)"

definition ondisconnect :: "browser \<Rightarrow> 'w app \<Rightarrow> 'w manager_hook \<Rightarrow> nat \<Rightarrow> 'w manager_scheme \<Rightarrow> 'w manager_scheme" where
  "ondisconnect b ah eh k s = socket_onclose ah (lit ''io server disconnect'') k (socket_destroy b eh k s)"

definition socket_close :: "browser \<Rightarrow> 'w app \<Rightarrow> 'w manager_hook \<Rightarrow> nat \<Rightarrow> 'w manager_scheme \<Rightarrow> 'w manager_scheme" where
  "socket_close b ah eh k s =
     (let s = (if connected (sock k s) then socket_packet b k (plain_packet DISCONNECT JUndef) None s else s);
          s = socket_destroy b eh k s
      in if connected (sock k s) then socket_onclose ah (lit ''io client disconnect'') k s else s)"

definition onpacket :: "browser \<Rightarrow> 'w app \<Rightarrow> 'w manager_hook \<Rightarrow> io_packet \<Rightarrow> nat \<Rightarrow> 'w manager_scheme \<Rightarrow> 'w manager_scheme" where
  "onpacket b ah eh p k s =
     (if nsp p \<noteq> Some (io_nsp (sock k s)) then s
      else if ptype p = CONNECT then onconnect b ah k s
      else if ptype p = EVENT \<or> ptype p = BINARY_EVENT then onevent ah k p s
      else if ptype p = ACK \<or> ptype p = BINARY_ACK then onack ah k p s
      else if ptype p = DISCONNECT then ondisconnect b ah eh k s
      else if ptype p = ERROR then local_emit ah k [JStr (lit ''error''), pdata p] None s
      else s)"

definition subEvents :: "nat \<Rightarrow> 'w manager_scheme \<Rightarrow> 'w manager_scheme" where
  "subEvents k s =
     (if subscribed (sock k s) then s
      else upd k (\<lambda>x. x\<lparr>subscribed := True\<rparr>) (s\<lparr>listeners := listeners s @ [k]\<rparr>))"

text \<open>\<open>open\<close> up to its last event.\<close>

definition ensure_open :: "browser \<Rightarrow> nat \<Rightarrow> 'w manager_scheme \<Rightarrow> 'w manager_scheme" where
  "ensure_open b k s =
     (let s = manager_open b No_fn (subEvents k s)
      in if m_readyState s = RS_open then socket_onopen b k s else s)"

definition socket_open :: "browser \<Rightarrow> 'w app \<Rightarrow> nat \<Rightarrow> 'w manager_scheme \<Rightarrow> 'w manager_scheme" where
  "socket_open b ah k s =
     (if connected (sock k s) then s
      else local_emit ah k [JStr (lit ''connecting'')] None (ensure_open b k s))"

text \<open>
  \<open>socket(nsp, opts)\<close>: nothing can listen yet to the \<open>connecting\<close> of the constructor.
\<close>

definition new_socket :: "jsstr \<Rightarrow> jsstr option \<Rightarrow> io_socket" where
  "new_socket n q = \<lparr>io_nsp = n, io_query = (if q = Some [] then None else q), ids = 0, acks = [], receiveBuffer = [],
     sendBuffer = [], connected = False, disconnected = True, subscribed = False, flags = None, io_id = JUndef,
     ack_calls = []\<rparr>"

definition manager_socket :: "browser \<Rightarrow> jsstr \<Rightarrow> jsstr option \<Rightarrow> 'w manager_scheme \<Rightarrow> nat \<times> 'w manager_scheme" where
  "manager_socket b n q s =
     (case map_of (nsps s) n of
        Some k \<Rightarrow> (k, s)
      | None \<Rightarrow>
          let k = length (sockets s); s = s\<lparr>sockets := sockets s @ [new_socket n q]\<rparr>;
              s = (if autoConnect s then ensure_open b k s else s);
              s = s\<lparr>nsps := nsps s @ [(n, k)]\<rparr>
          in (k, if autoConnect s then onConnecting k s else s))"

subsection \<open>The engine's events\<close>

definition m_onopen :: "browser \<Rightarrow> 'w app \<Rightarrow> 'w manager_scheme \<Rightarrow> 'w manager_scheme" where
  "m_onopen b ah s =
     (let s = (cleanup s)\<lparr>m_readyState := RS_open\<rparr>;
          s = ah (M_event (lit ''open'') []) (fold (socket_onopen b) (listeners s) s)
      in s\<lparr>subs := subs s @ map (Pair (engine_no s)) [Sub_data, Sub_ping, Sub_pong, Sub_error, Sub_close, Sub_decoded]\<rparr>)"

definition connect_error :: "'w app \<Rightarrow> open_callback \<Rightarrow> jsstr \<Rightarrow> 'w manager_scheme \<Rightarrow> 'w manager_scheme" where
  "connect_error ah fn data s =
     (let s = emitAll ah ''connect_error'' [JStr data] ((cleanup s)\<lparr>m_readyState := RS_closed\<rparr>) in
      case fn of
        Reconnect_fn \<Rightarrow> emitAll ah ''reconnect_error'' [JStr data] (reconnect ah (s\<lparr>reconnecting := False\<rparr>))
      | App_fn c \<Rightarrow> ah (M_open_fn c (Some data)) s
      | No_fn \<Rightarrow> maybeReconnectOnOpen ah s)"

definition m_onclose :: "'w app \<Rightarrow> jsstr \<Rightarrow> 'w manager_scheme \<Rightarrow> 'w manager_scheme" where
  "m_onclose ah reason s =
     (let s = cleanup s;
          s = s\<lparr>m_backoff := reset (m_backoff s), m_readyState := RS_closed\<rparr>;
          s = ah (M_event (lit ''close'') [JStr reason]) (fold (socket_onclose ah reason) (listeners s) s)
      in if reconnection s \<and> \<not> skipReconnect s then reconnect ah s else s)"

definition ondecoded :: "browser \<Rightarrow> 'w app \<Rightarrow> 'w manager_hook \<Rightarrow> io_packet \<Rightarrow> 'w manager_scheme \<Rightarrow> 'w manager_scheme" where
  "ondecoded b ah eh p s = fold (onpacket b ah eh p) (listeners s) s"

fun from_engine :: "eio_data \<Rightarrow> jsval" where
  "from_engine NoData = JUndef"
| "from_engine (Text s) = JStr s"
| "from_engine (Buffer bs) = JBuf bs"
| "from_engine (BlobOf bs) = JBlob bs"
| "from_engine (Base64Obj s) = JObj [(lit ''base64'', JBool True), (lit ''data'', JStr s)]"

definition ondata :: "browser \<Rightarrow> 'w app \<Rightarrow> 'w manager_hook \<Rightarrow> eio_data \<Rightarrow> 'w manager_scheme \<Rightarrow> 'w manager_scheme" where
  "ondata b ah eh data s =
     (case add json_parse (from_engine data) (m_decoder s) of (d, ps, exn) \<Rightarrow>
        let s = s\<lparr>m_decoder := d\<rparr>;
            s = fold (\<lambda>p s. fold (\<lambda>_. ondecoded b ah eh p) (filter (\<lambda>x. snd x = Sub_decoded) (subs s)) s) ps s
        in case exn of None \<Rightarrow> s | Some e \<Rightarrow> throw e s)"

definition onping :: "'w app \<Rightarrow> 'w manager_scheme \<Rightarrow> 'w manager_scheme" where
  "onping ah s = emitAll ah ''ping'' [] (s\<lparr>lastPing := True\<rparr>)"

definition onpong :: "'w app \<Rightarrow> 'w manager_scheme \<Rightarrow> 'w manager_scheme" where
  "onpong ah s = emitAll ah ''pong'' [] s"

definition onerror :: "'w app \<Rightarrow> jsstr \<Rightarrow> 'w manager_scheme \<Rightarrow> 'w manager_scheme" where
  "onerror ah e s = emitAll ah ''error'' [JStr e] s"

definition run_sub :: "browser \<Rightarrow> 'w app \<Rightarrow> 'w manager_hook \<Rightarrow> engine_event \<Rightarrow> manager_sub \<Rightarrow> 'w manager_scheme \<Rightarrow> 'w manager_scheme" where
  "run_sub b ah eh ev u s = (case u of
     Sub_open fn \<Rightarrow> (case ev of
         E_open \<Rightarrow> (let s = m_onopen b ah s in case fn of Reconnect_fn \<Rightarrow> onreconnect ah s
           | App_fn c \<Rightarrow> ah (M_open_fn c None) s | No_fn \<Rightarrow> s) | _ \<Rightarrow> s)
   | Sub_connect_error fn \<Rightarrow> (case ev of E_error e \<Rightarrow> connect_error ah fn e s | _ \<Rightarrow> s)
   | Sub_data \<Rightarrow> (case ev of E_data d \<Rightarrow> ondata b ah eh d s | _ \<Rightarrow> s)
   | Sub_ping \<Rightarrow> (case ev of E_ping \<Rightarrow> onping ah s | _ \<Rightarrow> s)
   | Sub_pong \<Rightarrow> (case ev of E_pong \<Rightarrow> onpong ah s | _ \<Rightarrow> s)
   | Sub_error \<Rightarrow> (case ev of E_error e \<Rightarrow> onerror ah e s | _ \<Rightarrow> s)
   | Sub_close \<Rightarrow> (case ev of E_close reason \<Rightarrow> m_onclose ah reason s | _ \<Rightarrow> s)
   | Sub_decoded \<Rightarrow> s)"

definition manager_hears :: "browser \<Rightarrow> 'w app \<Rightarrow> 'w manager_hook \<Rightarrow> engine_event \<Rightarrow> 'w manager_scheme \<Rightarrow> 'w manager_scheme" where
  "manager_hears b ah eh ev s =
     fold (run_sub b ah eh ev) (map snd (filter (\<lambda>x. fst x = engine_no s) (subs s))) s"

text \<open>
  A handler may close the engine, whose \<open>close\<close> the manager hears in turn, \<open>n\<close> levels deep.
\<close>

primrec manager_hook :: "nat \<Rightarrow> browser \<Rightarrow> 'w app \<Rightarrow> 'w manager_hook" where
  "manager_hook 0 b ah ev s = s"
| "manager_hook (Suc n) b ah ev s = manager_hears b ah (manager_hook n b ah) ev s"

definition connect_timeout_fires :: "browser \<Rightarrow> 'w app \<Rightarrow> 'w manager_hook \<Rightarrow> 'w manager_scheme \<Rightarrow> 'w manager_scheme" where
  "connect_timeout_fires b ah eh s =
     (if \<not> connect_timer s then s
      else
        let s = s\<lparr>connect_timer := False, subs := filter (\<lambda>(i, u). \<not> (i = engine_no s \<and> is_Sub_open u)) (subs s)\<rparr>;
            timeout = JNum (js_nat (case m_timeout s of Some t \<Rightarrow> t | None \<Rightarrow> 0));
            s = eh (E_error (lit ''timeout'')) (engine_close b eh s)
        in emitAll ah ''connect_timeout'' [timeout] s)"

subsection \<open>Construction\<close>

definition blank_engine :: "browser \<Rightarrow> socket_opts \<Rightarrow> 'w \<Rightarrow> 'w engine_scheme" where
  "blank_engine b opts w =
     (let topts = socket_transport_opts b opts in
      engine.extend (transport.extend (Transport XHR False topts [])
        (engine.fields RS_none False [] topts [] 0 False False False False [] 0 JNull [] 0 0 False None False False []
          False False 0 False [] None)) w)"

definition new_manager :: "browser \<Rightarrow> parsed_uri option \<Rightarrow> manager_opts \<Rightarrow> (nat \<Rightarrow> rat) \<Rightarrow> 'w \<Rightarrow> 'w manager_scheme" where
  "new_manager b uri mo random w =
     (let opts = mo_engine mo;
          opts = (if so_path opts = [] then opts\<lparr>so_path := lit ''/socket.io''\<rparr> else opts);
          delay = or_default (mo_delay mo) (Fl 1000);
          delayMax = or_default (mo_delayMax mo) (Fl 5000);
          jit = or_default (mo_factor mo) (Fl (1/2));
          auto = (mo_autoConnect mo \<noteq> Some False);
          m = manager.extend (blank_engine b opts
            (manager.fields uri opts (mo_reconnection mo \<noteq> Some False)
              (if mo_attempts mo = Some 0 then None else mo_attempts mo) delay delayMax jit
              (case mo_timeout mo of None \<Rightarrow> Some 20000 | Some t \<Rightarrow> t)
              (Backoff \<lparr>opt_min = Some delay, opt_max = Some delayMax, opt_factor = None, opt_jitter = Some jit\<rparr>)
              random 0 RS_closed False False False False [] [] Decoder auto [] [] [] [] [] 0 False None)) w
      in if auto then manager_open b No_fn m else m)"

subsection \<open>Everything that happens to a manager\<close>

datatype manager_input =
    G_engine engine_input         \<comment> \<open>the connection\<close>
  | G_connect_timer               \<comment> \<open>the timers\<close>
  | G_reconnect_timer
  | G_reader nat path             \<comment> \<open>a file reader of a packet that is being encoded\<close>
  | G_open "nat option"           \<comment> \<open>the application\<close>
  | G_close
  | G_socket jsstr "jsstr option"
  | G_socket_open nat
  | G_socket_close nat
  | G_emit nat "jsval list" "nat option"
  | G_ack nat nat "jsval list"
  | G_compress nat bool

fun manager_step :: "browser \<Rightarrow> 'w app \<Rightarrow> nat \<Rightarrow> manager_input \<Rightarrow> 'w manager_scheme \<Rightarrow> 'w manager_scheme" where
  "manager_step b ah n (G_engine i) s = (if engine_no s = 0 then s else engine_step b (manager_hook n b ah) i s)"
| "manager_step b ah n G_connect_timer s = connect_timeout_fires b ah (manager_hook n b ah) s"
| "manager_step b ah n G_reconnect_timer s = reconnect_timer_fires b ah s"
| "manager_step b ah n (G_reader i place) s = (if i < length (encoders s) then reader_finishes b i place s else s)"
| "manager_step b ah n (G_open fn) s = manager_open b (case fn of None \<Rightarrow> No_fn | Some c \<Rightarrow> App_fn c) s"
| "manager_step b ah n G_close s = manager_close b (manager_hook n b ah) s"
| "manager_step b ah n (G_socket name q) s = snd (manager_socket b name q s)"
| "manager_step b ah n (G_socket_open k) s = (if k < length (sockets s) then socket_open b ah k s else s)"
| "manager_step b ah n (G_socket_close k) s =
     (if k < length (sockets s) then socket_close b ah (manager_hook n b ah) k s else s)"
| "manager_step b ah n (G_emit k args cb) s =
     (if k < length (sockets s) \<and> args \<noteq> [] then socket_emit b ah k args cb s else s)"
| "manager_step b ah n (G_ack k h args) s =
     (if k < length (sockets s) \<and> h < length (ack_calls (sock k s)) then call_ack b k h args s else s)"
| "manager_step b ah n (G_compress k c) s = compress c k s"

end
