(* ===== verification/EngineFrame.thy ===== *)
theory EngineFrame
  imports EngineFlow
begin

text \<open>
  What an engine.io socket's owner keeps beside the socket changes only in the listeners of the socket's events:
  a property of the owner's part that every listener preserves is preserved by everything that happens
  to the socket.
\<close>

lemma owner_cong: "transport.more s = transport.more t \<Longrightarrow> engine.more s = engine.more t"
  by (cases s, cases t) simp

lemmas owner_untouched [simp] =
  owner_cong [OF more_close_transport] owner_cong [OF more_t_close] owner_cong [OF more_removeAllListeners]
  owner_cong [OF more_polling_write] owner_cong [OF more_swap] owner_cong [OF more_act]

lemma owner_t_send: "t_send b unheard ps t = Inr t' \<Longrightarrow> engine.more t' = engine.more t"
  by (rule owner_cong [OF more_t_send])

lemma owner_throw [simp]: "engine.more (throw e s) = engine.more s"
  by (simp add: throw_def)

lemma owner_set_probe [simp]: "engine.more (set_probe k f s) = engine.more s"
  by (simp add: set_probe_def)

lemma owner_probe_cleanup [simp]: "engine.more (probe_cleanup k s) = engine.more s"
  by (simp add: probe_cleanup_def split: option.split)

lemma owner_freezeTransport [simp]: "engine.more (freezeTransport b k s) = engine.more s"
  by (simp add: freezeTransport_def Let_def split: option.split)

lemma owner_setTransport [simp]: "engine.more (setTransport t s) = engine.more s"
  by (simp add: setTransport_def Let_def)

lemma owner_onupgrade [simp]: "engine.more (onupgrade b name k s) = engine.more s"
  by (simp add: onupgrade_def Let_def split: option.split)

lemma owner_onTransportOpen [simp]: "engine.more (onTransportOpen b k s) = engine.more s"
  by (simp add: onTransportOpen_def Let_def split: option.split sum.split)

lemma engine_open_keeps:
  assumes "\<And>s r. f (s\<lparr>readyState := r\<rparr>) = f s" "\<And>s us. f (s\<lparr>transports := us\<rparr>) = f s" "\<And>s n. f (s\<lparr>jsonp_index := n\<rparr>) = f s"
    "\<And>s c. f (s\<lparr>no_transports_timer := c\<rparr>) = f s" "\<And>t s. f (setTransport t s) = f s"
  shows "f (engine_open b s) = f s"
proof (induction b s rule: engine_open.induct)
  case (1 b s)
  let ?ws = "rememberUpgrade s \<and> priorWebsocketSuccess s \<and> lit ''websocket'' \<in> set (transports s)"
  let ?name = "if ?ws then lit ''websocket'' else hd (transports s)"
  show ?case
  proof (cases "\<not> ?ws \<and> transports s = []")
    case True
    then show ?thesis by (simp add: engine_open.simps assms)
  next
    case False
    show ?thesis
    proof (cases "createTransport b ?name (s\<lparr>readyState := RS_opening\<rparr>)")
      case (Inl e)
      then show ?thesis
        using 1 [OF refl False refl refl Inl] unfolding engine_open.simps [of b s] Let_def if_not_P [OF False] Inl
        by (simp add: assms)
    next
      case (Inr t)
      show ?thesis unfolding engine_open.simps [of b s] Let_def if_not_P [OF False] Inr by (simp add: assms)
    qed
  qed
qed

lemma owner_engine_open [simp]: "engine.more (engine_open b s) = engine.more s"
  by (rule engine_open_keeps) simp_all

lemma owner_new_engine: "new_engine b uri opts prior index w = Inr s \<Longrightarrow> engine.more s = w"
  by (auto simp: new_engine_def Let_def bindE_Inr_iff engine.defs transport.defs)

locale engine_owner =
  fixes b :: browser and eh :: "engine_event \<Rightarrow> 'w engine_scheme \<Rightarrow> 'w engine_scheme" and I :: "'w \<Rightarrow> bool"
  assumes hook: "I (engine.more s) \<Longrightarrow> I (engine.more (eh ev s))"
begin

lemma owner_fold:
  "(\<And>x s. I (engine.more s) \<Longrightarrow> I (engine.more (f x s))) \<Longrightarrow> I (engine.more s) \<Longrightarrow>
    I (engine.more (fold f xs (s :: 'w engine_scheme)))"
  by (induction xs arbitrary: s) simp_all

lemma owner_emit_flush: "I (engine.more s) \<Longrightarrow> I (engine.more (emit_flush eh s))"
  unfolding emit_flush_def Let_def by (rule owner_fold) (simp_all add: hook)

lemma owner_flush: "I (engine.more s) \<Longrightarrow> I (engine.more (flush b eh s))"
  by (auto simp: flush_def owner_t_send owner_emit_flush split: sum.split)

lemma owner_sendPacket: "I (engine.more s) \<Longrightarrow> I (engine.more (sendPacket b eh type data fn s))"
  unfolding sendPacket_def Let_def by (auto simp: hook owner_flush)

lemma owner_emit_upgradeError:
  assumes "\<And>s. I (engine.more s) \<Longrightarrow> I (engine.more (close s))" "I (engine.more s)"
  shows "I (engine.more (emit_upgradeError eh close s))"
  using assms by (simp add: emit_upgradeError_def hook Let_def)

lemma owner_probe_onerror:
  assumes "\<And>s. I (engine.more s) \<Longrightarrow> I (engine.more (close s))" "I (engine.more s)"
  shows "I (engine.more (probe_onerror b eh close k s))"
  using assms by (simp add: probe_onerror_def owner_emit_upgradeError)

lemma owner_onClose_body:
  assumes "\<And>s. I (engine.more s) \<Longrightarrow> I (engine.more (close s))" "I (engine.more s)"
  shows "I (engine.more (onClose_body b eh close reason s))"
proof -
  have "I (engine.more (emit_close b eh close reason s))" if "I (engine.more s)" for s
    unfolding emit_close_def Let_def
    by (rule owner_fold) (simp_all add: that hook owner_probe_onerror assms(1))
  then show ?thesis using assms(2) by (simp add: onClose_body_def Let_def)
qed

lemma owner_onClose_nested: "I (engine.more s) \<Longrightarrow> I (engine.more (onClose_nested n b eh reason s))"
  by (induction n arbitrary: s reason) (simp_all add: owner_onClose_body)

lemma owner_onClose: "I (engine.more s) \<Longrightarrow> I (engine.more (onClose b eh reason s))"
  by (simp only: onClose_def owner_onClose_nested)

lemma owner_close_now: "I (engine.more s) \<Longrightarrow> I (engine.more (close_now b eh s))"
  by (simp add: close_now_def owner_onClose)

lemma owner_engine_close: "I (engine.more s) \<Longrightarrow> I (engine.more (engine_close b eh s))"
  by (simp add: engine_close_def waitForUpgrade_def owner_close_now Let_def)

lemma owner_onError: "I (engine.more s) \<Longrightarrow> I (engine.more (onError b eh e s))"
  by (simp add: onError_def owner_onClose hook)

lemma owner_onDrain: "I (engine.more s) \<Longrightarrow> I (engine.more (onDrain b eh s))"
  by (simp add: onDrain_def emit_engine_drain_def waitForUpgrade_def hook owner_close_now owner_flush Let_def)

lemma owner_probe_paused: "I (engine.more s) \<Longrightarrow> I (engine.more (probe_paused b eh k s))"
  by (auto simp: probe_paused_def emit_upgrade_def hook owner_close_now owner_flush owner_t_send Let_def
      split: option.split sum.split)

lemma owner_pause: "I (engine.more s) \<Longrightarrow> I (engine.more (pause (on_paused b eh) k s))"
  by (simp add: pause_def pause_now_def on_paused_def owner_probe_paused Let_def)

lemma owner_upgradeError: "I (engine.more s) \<Longrightarrow> I (engine.more (emit_upgradeError eh (close_now b eh) s))"
  by (rule owner_emit_upgradeError) (rule owner_close_now)

lemma owner_emit_upgrading: "I (engine.more s) \<Longrightarrow> I (engine.more (emit_upgrading b eh name s))"
  unfolding emit_upgrading_def Let_def by (rule owner_fold) (simp_all add: hook)

lemma owner_onTransportPacket: "I (engine.more s) \<Longrightarrow> I (engine.more (onTransportPacket b eh k msg s))"
  by (simp add: onTransportPacket_def upgradeError_now_def owner_upgradeError owner_emit_upgrading owner_pause Let_def
      split: option.split)

lemma owner_probe_event: "I (engine.more s) \<Longrightarrow> I (engine.more (probe_event b eh k ev s))"
  by (cases ev) (simp_all add: owner_probe_onerror owner_close_now owner_onTransportPacket)

lemma owner_probe_input: "I (engine.more s) \<Longrightarrow> I (engine.more (probe_input b eh k f s))"
  by (auto simp: probe_input_def owner_fold owner_probe_event split: option.split prod.split)

lemma owner_probe: "I (engine.more s) \<Longrightarrow> I (engine.more (probe b eh name s))"
  by (auto simp: probe_def owner_probe_input Let_def split: sum.split)

lemma owner_onOpen: "I (engine.more s) \<Longrightarrow> I (engine.more (engine_onOpen b eh s))"
proof -
  assume "I (engine.more s)"
  then have "I (engine.more (flush b eh (eh E_open (s\<lparr>readyState := RS_open, priorWebsocketSuccess := (kind s = WS)\<rparr>))))"
    by (intro owner_flush hook) simp
  then show ?thesis
    unfolding engine_onOpen_def Let_def by (auto intro!: owner_fold owner_probe)
qed

lemma owner_onHandshake: "I (engine.more s) \<Longrightarrow> I (engine.more (onHandshake b eh data s))"
  by (auto simp: onHandshake_def setPing_def owner_onOpen hook Let_def split: sum.split)

lemma owner_onPacket:
  assumes "I (engine.more s)"
  shows "I (engine.more (onPacket b eh p s))"
proof -
  have "I (engine.more (emit_heartbeat eh (eh (E_packet p) s)))"
    using assms by (simp add: emit_heartbeat_def onHeartbeat_def hook Let_def)
  then show ?thesis
    using assms
    by (simp add: onPacket_def setPing_def hook owner_onError owner_onHandshake Let_def split: eio_type.split sum.split)
qed

lemma owner_hook: "I (engine.more s) \<Longrightarrow> I (engine.more (engine_hook b eh ev s))"
  by (cases ev) (simp_all add: owner_onDrain owner_onPacket owner_onError owner_onClose owner_probe_paused)

lemma owner_t_emit: "I (engine.more s) \<Longrightarrow> I (engine.more (t_emit (engine_hook b eh) ev s))"
  by (simp add: t_emit_def owner_hook del: engine_hook.simps)

lemma owner_count_down: "I (engine.more s) \<Longrightarrow> I (engine.more (count_down (engine_hook b eh) i s))"
  by (simp add: count_down_def pause_now_def owner_hook Let_def del: engine_hook.simps)

lemma owner_emit_drain: "I (engine.more s) \<Longrightarrow> I (engine.more (emit_drain (engine_hook b eh) s))"
  unfolding emit_drain_def Let_def by (intro owner_fold owner_count_down owner_t_emit) simp_all

lemma owner_emit_pollComplete: "I (engine.more s) \<Longrightarrow> I (engine.more (emit_pollComplete (engine_hook b eh) s))"
  unfolding emit_pollComplete_def Let_def by (intro owner_fold owner_count_down owner_t_emit) simp_all

lemma owner_t_onOpen: "I (engine.more s) \<Longrightarrow> I (engine.more (t_onOpen b (engine_hook b eh) s))"
proof -
  assume "I (engine.more s)"
  then have "I (engine.more (t_emit (engine_hook b eh) T_open (s\<lparr>tstate := TS_open, writable := True\<rparr>)))"
    by (intro owner_t_emit) simp
  then show ?thesis by (simp add: t_onOpen_def Let_def)
qed

lemma owner_t_onClose: "I (engine.more s) \<Longrightarrow> I (engine.more (t_onClose (engine_hook b eh) s))"
  by (simp add: t_onClose_def owner_t_emit)

lemma owner_poll: "I (engine.more s) \<Longrightarrow> I (engine.more (poll (engine_hook b eh) s))"
  by (auto simp: poll_def doPoll_def intro!: owner_t_emit)

lemma owner_polling_onData:
  assumes "I (engine.more s)" "polling_onData b (engine_hook b eh) data s = Inr s'"
  shows "I (engine.more s')"
proof -
  obtain t where t: "decodePayload (eio_env.truncate b) (blob_wanted b) (poll_callback b (engine_hook b eh)) data s = Inr t"
    and s': "s' = (if tstate t \<noteq> TS_closed then
              let t = emit_pollComplete (engine_hook b eh) (t\<lparr>polling := False\<rparr>) in
              if tstate t = TS_open then poll (engine_hook b eh) t else t
            else t)"
    using assms(2) by (auto simp: polling_onData_def bindE_Inr_iff)
  have "I (engine.more t)"
    by (rule decodePayload_preserves [where I = "\<lambda>s. I (engine.more s)", OF _ assms(1) t])
      (simp add: poll_callback_def t_onPacket_def Let_def owner_t_onOpen owner_t_onClose owner_t_emit)
  then show ?thesis
    unfolding s' Let_def using owner_emit_pollComplete owner_poll by simp
qed

lemma owner_engine_step:
  assumes "I (engine.more s)"
  shows "I (engine.more (engine_step b eh i s))"
proof (cases i)
  case (I_poll_data data)
  then show ?thesis using assms owner_polling_onData [OF assms] by (simp split: sum.split)
qed (use assms in \<open>simp_all add: engine_write_def owner_sendPacket owner_engine_close write_done_def ws_tick_def owner_emit_drain
    owner_t_onOpen t_onData_def t_onPacket_def t_onError_def owner_t_emit owner_t_onClose owner_probe_input
    ping_interval_fires_def ping_def onHeartbeat_def ping_timeout_fires_def owner_onClose no_transports_fires_def hook Let_def\<close>)

end

end
