(* ===== verification/ManagerInv.thy ===== *)
theory ManagerInv
  imports Manager EngineFrame
begin

text \<open>
  What everything that happens to a socket.io manager preserves: the manager's own invariant and its engine's,
  with the contract of the application's listeners as a locale and an application that reacts to every
  event with calls of the interface as its instance.
\<close>

subsection \<open>Well-formed managers\<close>

definition socket_ok :: "io_socket \<Rightarrow> bool" where
  "socket_ok x \<longleftrightarrow> connected x \<noteq> disconnected x \<and> distinct (map fst (acks x)) \<and> (\<forall>(i, c) \<in> set (acks x). i < ids x)"

text \<open>After every operation the packet queue is empty unless an encoding is under way.\<close>

definition queue_free :: "'w manager_scheme \<Rightarrow> bool" where
  "queue_free s \<longleftrightarrow> encoding s \<or> packetBuffer s = []"

definition pool_ok :: "'w manager_scheme \<Rightarrow> bool" where
  "pool_ok s \<longleftrightarrow> list_all socket_ok (sockets s) \<and>
     distinct (listeners s) \<and> set (listeners s) = {k. k < length (sockets s) \<and> subscribed (sockets s ! k)} \<and>
     distinct (map fst (nsps s)) \<and> (\<forall>(n, k) \<in> set (nsps s). k < length (sockets s) \<and> io_nsp (sockets s ! k) = n) \<and>
     distinct (connecting s)"

definition manager_inv :: "'w manager_scheme \<Rightarrow> bool" where
  "manager_inv s \<longleftrightarrow> queue_free s \<and> pool_ok s"

definition stays :: "'w manager_scheme \<Rightarrow> 'w manager_scheme \<Rightarrow> bool" where
  "stays s s' \<longleftrightarrow> engine_no s' = engine_no s \<and> (skipReconnect s \<longrightarrow> skipReconnect s')"

lemma stays_trans: "stays s t \<Longrightarrow> stays t u \<Longrightarrow> stays s u"
  by (simp add: stays_def)

lemma owner_fields:
  assumes "engine.more s = engine.more t"
  shows "manager_inv s = manager_inv t" "queue_free s = queue_free t" "pool_ok s = pool_ok t" "stays r s = stays r t"
  using assms by (cases s, cases t, simp add: manager_inv_def queue_free_def pool_ok_def stays_def)+

text \<open>
  What an operation may do to the manager and to its engine, short of opening a new one: \<open>safe s s'\<close> and \<open>good s s'\<close>, which is about the queue
  too, compose.
\<close>

definition safe :: "'w manager_scheme \<Rightarrow> 'w manager_scheme \<Rightarrow> bool" where
  "safe s s' \<longleftrightarrow> stays s s' \<and> (pool_ok s \<longrightarrow> pool_ok s') \<and> (engine_inv s \<longrightarrow> engine_inv s') \<and> keeps s s'"

definition good :: "'w manager_scheme \<Rightarrow> 'w manager_scheme \<Rightarrow> bool" where
  "good s s' \<longleftrightarrow> safe s s' \<and> (queue_free s \<longrightarrow> queue_free s')"

lemma safe_refl [simp]: "safe s s"
  by (simp add: safe_def stays_def)

lemma safe_trans: "safe s t \<Longrightarrow> safe t u \<Longrightarrow> safe s u"
  unfolding safe_def by (elim conjE, intro conjI impI) (blast intro: stays_trans keeps_trans)+

lemma good_refl [simp]: "good s s"
  by (simp add: good_def)

lemma good_trans [trans]: "good s t \<Longrightarrow> good t u \<Longrightarrow> good s u"
  unfolding good_def using safe_trans by blast

lemma good_fold: "(\<And>x s. good s (f x s)) \<Longrightarrow> good s (fold f xs s)"
  by (induction xs arbitrary: s) (auto intro: good_trans)

lemma good_inv: "good s s' \<Longrightarrow> manager_inv s \<Longrightarrow> manager_inv s'"
  by (simp add: good_def safe_def manager_inv_def)

lemma safe_manager:
  assumes "engine.truncate s' = engine.truncate s" "pool_ok s \<Longrightarrow> pool_ok s'" "stays s s'"
  shows "safe s s'"
proof -
  have *: "readyState s' = readyState s" "upgrading s' = upgrading s" "tstate s' = tstate s" "pausers s' = pausers s"
    "thrown s' = thrown s" "prevBufferLen s' = prevBufferLen s" "writeBuffer s' = writeBuffer s"
    "has_transport s' = has_transport s" "listening s' = listening s" "writable s' = writable s"
    using assms(1) by (simp_all add: engine.truncate_def)
  then have "engine_inv s' = engine_inv s" by (simp add: engine_inv_def pause_pending_def)
  moreover have "keeps s s'" using * by (intro keeps_same)
  ultimately show ?thesis using assms(2,3) by (simp add: safe_def)
qed

lemma good_throw: "good s (throw e s)"
proof -
  have more: "engine.more (throw e s) = engine.more s" by simp
  have "keeps s (throw e s)" by (intro keeps_same) (simp_all add: throw_def)
  moreover have "stays s (throw e s)" by (simp add: stays_def throw_def)
  ultimately show ?thesis by (simp add: good_def safe_def owner_fields(2,3) [OF more])
qed

lemma truncate_upd [simp]: "engine.truncate (upd k f s) = engine.truncate s"
  by (simp add: upd_def engine.truncate_def)

lemma list_all_update: "list_all P xs \<Longrightarrow> (k < length xs \<Longrightarrow> P x) \<Longrightarrow> list_all P (xs[k := x])"
  unfolding list_all_iff using set_update_subset_insert [of xs k x] by (cases "k < length xs") (auto simp: list_update_beyond)

lemma good_upd:
  assumes "\<And>x. io_nsp (f x) = io_nsp x" "\<And>x. subscribed (f x) = subscribed x" "\<And>x. socket_ok x \<Longrightarrow> socket_ok (f x)"
  shows "good s (upd k f s)"
proof -
  have "pool_ok (upd k f s)" if inv: "pool_ok s"
  proof -
    have io: "io_nsp ((sockets s)[k := f (sockets s ! k)] ! j) = io_nsp (sockets s ! j)"
      "subscribed ((sockets s)[k := f (sockets s ! k)] ! j) = subscribed (sockets s ! j)" for j
      using assms(1,2) by (cases "k < length (sockets s)"; cases "j = k"; simp add: list_update_beyond)+
    have "list_all socket_ok ((sockets s)[k := f (sockets s ! k)])"
      using inv assms(3) by (intro list_all_update) (auto simp: pool_ok_def list_all_length)
    then show ?thesis using inv by (simp add: pool_ok_def upd_def io)
  qed
  moreover have "stays s (upd k f s)" "queue_free s \<Longrightarrow> queue_free (upd k f s)"
    by (simp_all add: upd_def queue_free_def stays_def)
  ultimately show ?thesis by (simp add: good_def safe_manager)
qed

lemma safe_neutral:
  "safe s (s\<lparr>encoding := c\<rparr>)" "safe s (s\<lparr>packetBuffer := ps\<rparr>)" "safe s (s\<lparr>encoders := es\<rparr>)"
  by (rule safe_manager; simp add: pool_ok_def stays_def engine.truncate_def)+

lemma good_neutral:
  "good s (s\<lparr>skipReconnect := True\<rparr>)" "good s (s\<lparr>reconnecting := c\<rparr>)" "good s (s\<lparr>m_backoff := bo\<rparr>)"
  "good s (s\<lparr>m_readyState := r\<rparr>)" "good s (s\<lparr>reconnect_timer := t\<rparr>)" "good s (s\<lparr>connect_timer := c\<rparr>)"
  "good s (s\<lparr>subs := us\<rparr>)" "good s (s\<lparr>m_decoder := d\<rparr>)" "good s (s\<lparr>lastPing := c\<rparr>)" "good s (s\<lparr>m_draws := n\<rparr>)"
  "good s (s\<lparr>encoders := es\<rparr>)"
  unfolding good_def by (rule conjI, rule safe_manager; simp add: pool_ok_def queue_free_def stays_def engine.truncate_def)+

lemma good_cleanup: "good s (cleanup s)"
  unfolding good_def
  by (rule conjI, rule safe_manager) (simp_all add: pool_ok_def queue_free_def stays_def cleanup_def engine.truncate_def)

lemma good_onConnecting: "good s (onConnecting k s)"
  unfolding good_def
  by (rule conjI, rule safe_manager) (auto simp: pool_ok_def queue_free_def stays_def onConnecting_def engine.truncate_def)

lemma silent_user: "engine_user (silent :: 'w engine_hook)"
  by (rule engine_userI) simp_all

interpretation silent_writer: engine_user b silent for b
  by (rule silent_user)

lemma good_engine_write: "good s (engine_write b silent d (s :: 'w manager_scheme))"
  using owner_fields(2,3) [OF more_engine_write, of b d s] owner_fields(4) [where r = s, OF more_engine_write [of b d s]] stays_def [of s s] silent_writer.inv_sendPacket [of s b P_message d False]
    silent_writer.keeps_sendPacket [of s b P_message d False]
  by (simp add: good_def safe_def engine_write_def)

lemma good_write_all: "good s (write_all b frames s)"
  by (auto simp: write_all_def good_throw intro: good_fold good_engine_write)

lemma safe_write_all: "safe s (write_all b frames s)"
  by (rule good_write_all [unfolded good_def, THEN conjunct1])

lemma packetBuffer_write_all [simp]: "packetBuffer (write_all b frames s) = packetBuffer s" "encoding (write_all b frames s) = encoding s"
  by (rule packetBuffer_more [OF more_write_all]) (cases s, cases "write_all b frames s", use more_write_all [of b frames s] in simp)

lemma m_packet_queue: "queue_free s \<or> \<not> encoding s \<Longrightarrow> queue_free (m_packet b x s)"
proof (induction b x s rule: m_packet.induct)
  case (1 b x s)
  obtain p q where x: "with_query x = (p, q)" by fastforce
  show ?case
  proof (cases "encoding s \<or> waits_for_readers p")
    case True
    then show ?thesis by (auto simp: m_packet.simps [of b x s] x queue_free_def)
  next
    case False
    let ?s = "(write_all b (concat (Encoder_encode json3_stringify [] p)) (s\<lparr>encoding := True\<rparr>))\<lparr>encoding := False\<rparr>"
    show ?thesis
    proof (cases "packetBuffer ?s")
      case Nil
      then show ?thesis using False by (simp add: m_packet.simps [of b x s] x queue_free_def Let_def)
    next
      case (Cons y ys)
      have "queue_free (m_packet b y (?s\<lparr>packetBuffer := ys\<rparr>))"
        by (rule 1(1) [OF x [symmetric] refl _ _ refl Cons]) (use False in \<open>simp_all\<close>)
      then show ?thesis using False Cons by (simp add: m_packet.simps [of b x s] x Let_def)
    qed
  qed
qed

lemma safe_m_packet: "safe s (m_packet b x s)"
proof (induction b x s rule: m_packet.induct)
  case (1 b x s)
  obtain p q where x: "with_query x = (p, q)" by fastforce
  show ?case
  proof (cases "encoding s \<or> waits_for_readers p")
    case True
    have "safe s (s\<lparr>encoding := True, encoders := es\<rparr>)" for es
      by (rule safe_trans [OF safe_neutral(1) safe_neutral(3)])
    then show ?thesis using True safe_neutral(2) by (auto simp: m_packet.simps [of b x s] x)
  next
    case False
    let ?s = "(write_all b (concat (Encoder_encode json3_stringify [] p)) (s\<lparr>encoding := True\<rparr>))\<lparr>encoding := False\<rparr>"
    have w: "safe s ?s"
      by (rule safe_trans [OF safe_trans [OF safe_neutral(1) safe_write_all] safe_neutral(1)])
    show ?thesis
    proof (cases "packetBuffer ?s")
      case Nil
      then show ?thesis using False w by (simp add: m_packet.simps [of b x s] x Let_def)
    next
      case (Cons y ys)
      have "safe (?s\<lparr>packetBuffer := ys\<rparr>) (m_packet b y (?s\<lparr>packetBuffer := ys\<rparr>))"
        by (rule 1 [OF x [symmetric] refl _ _ refl Cons]) (use False in \<open>simp_all\<close>)
      then have "safe s (m_packet b y (?s\<lparr>packetBuffer := ys\<rparr>))"
        by (rule safe_trans [OF safe_trans [OF w safe_neutral(2)]])
      then show ?thesis using False Cons by (simp add: m_packet.simps [of b x s] x Let_def)
    qed
  qed
qed

lemma good_m_packet: "good s (m_packet b x s)"
  unfolding good_def using safe_m_packet m_packet_queue by blast

lemma good_processPacketQueue: "safe s (processPacketQueue b s)" "queue_free (processPacketQueue b s)"
proof -
  have "safe s (m_packet b y (s\<lparr>packetBuffer := ys\<rparr>))" for y ys
    by (rule safe_trans [OF safe_neutral(2) safe_m_packet])
  then show "safe s (processPacketQueue b s)" by (simp add: processPacketQueue_def split: list.split)
  have "queue_free (m_packet b y (s\<lparr>packetBuffer := ys\<rparr>))" if "\<not> encoding s" for y ys
    by (rule m_packet_queue) (use that in simp)
  then show "queue_free (processPacketQueue b s)"
    by (auto simp: processPacketQueue_def queue_free_def split: list.split)
qed

lemma good_reader_finishes: "good s (reader_finishes b i place s)"
proof -
  obtain p st where e: "encoders s ! i = (p, st)" by fastforce
  define t where "t = s\<lparr>encoders := (encoders s)[i := (p, reader_onload place st)]\<rparr>"
  have st: "good s t" unfolding t_def by (rule good_neutral(11))
  have "good t (processPacketQueue b ((write_all b frames t)\<lparr>encoding := False\<rparr>))" for frames
  proof -
    have "safe t (processPacketQueue b ((write_all b frames t)\<lparr>encoding := False\<rparr>))"
      by (rule safe_trans [OF safe_trans [OF safe_write_all safe_neutral(1)] good_processPacketQueue(1)])
    then show ?thesis by (simp add: good_def good_processPacketQueue(2))
  qed
  then have "good s (processPacketQueue b ((write_all b frames t)\<lparr>encoding := False\<rparr>))" for frames
    by (rule good_trans [OF st])
  then show ?thesis using st by (simp add: reader_finishes_def e Let_def t_def)
qed

lemma good_seq: "good s t \<Longrightarrow> (\<And>t. good t (f t)) \<Longrightarrow> good s (f t)"
  using good_trans by blast

lemma good_socket_packet: "good s (socket_packet b k p q s)"
  by (simp add: socket_packet_def good_m_packet)

lemma good_socket_onopen: "good s (socket_onopen b k s)"
  by (simp add: socket_onopen_def good_socket_packet)

lemma good_upd_field:
  "good s (upd k (\<lambda>x. x\<lparr>io_id := v\<rparr>) s)" "good s (upd k (\<lambda>x. x\<lparr>flags := c\<rparr>) s)"
  "good s (upd k (\<lambda>x. x\<lparr>receiveBuffer := rs\<rparr>) s)" "good s (upd k (\<lambda>x. x\<lparr>sendBuffer := ps\<rparr>) s)"
  "good s (upd k (\<lambda>x. x\<lparr>receiveBuffer := receiveBuffer x @ rs\<rparr>) s)" "good s (upd k (\<lambda>x. x\<lparr>sendBuffer := sendBuffer x @ ps\<rparr>) s)"
  "good s (upd k (\<lambda>x. x\<lparr>ack_calls := ack_calls x @ as\<rparr>) s)" "good s (upd k (\<lambda>x. x\<lparr>ack_calls := (ack_calls x)[h := a]\<rparr>) s)"
  "good s (upd k (\<lambda>x. x\<lparr>connected := True, disconnected := False\<rparr>) s)"
  "good s (upd k (\<lambda>x. x\<lparr>connected := False, disconnected := True, io_id := v\<rparr>) s)"
  by (rule good_upd; simp add: socket_ok_def)+

lemma good_updateSocketIds: "good s (updateSocketIds s)"
  unfolding updateSocketIds_def by (rule good_fold) (simp add: good_upd_field split: prod.split)

lemma good_acked: "good s (upd k (\<lambda>x. x\<lparr>acks := filter (\<lambda>(j, _). j \<noteq> i) (acks x)\<rparr>) s)"
  by (rule good_upd) (auto simp: socket_ok_def distinct_map_filter)

lemma good_next_ack: "good s (upd k (\<lambda>x. x\<lparr>acks := acks x @ [(ids (sock k s), c)], ids := ids (sock k s) + 1\<rparr>) s)"
proof -
  define f where "f = (\<lambda>x. if x = sock k s then x\<lparr>acks := acks x @ [(ids x, c)], ids := ids x + 1\<rparr> else x)"
  have "upd k (\<lambda>x. x\<lparr>acks := acks x @ [(ids (sock k s), c)], ids := ids (sock k s) + 1\<rparr>) s = upd k f s"
    by (simp add: upd_def sock_def f_def)
  moreover have "good s (upd k f s)"
    by (rule good_upd) (auto simp: f_def socket_ok_def)
  ultimately show ?thesis by simp
qed

lemma good_call_ack: "good s (call_ack b k h args s)"
proof -
  have "good s (socket_packet b k p None (upd k (\<lambda>x. x\<lparr>ack_calls := (ack_calls x)[h := a]\<rparr>) s))" for p a
    by (rule good_trans [OF good_upd_field(8) good_socket_packet])
  then show ?thesis by (simp add: call_ack_def split: prod.split)
qed

text \<open>
  The application's listeners call the interface of the manager and its sockets, so what they do is \<open>good\<close>.
\<close>

locale application =
  fixes ah :: "app_event \<Rightarrow> 'w manager_scheme \<Rightarrow> 'w manager_scheme"
  assumes app: "good s (ah ev s)"
begin

lemma good_local_emit: "good s (local_emit ah k args ack s)"
proof -
  have "good s (ah (S_event k args ack) (onConnecting k s))" by (rule good_trans [OF good_onConnecting app])
  moreover have "good s (ah (S_event k args ack) (upd k (\<lambda>x. x\<lparr>io_id := v\<rparr>) s))" for v
    by (rule good_trans [OF good_upd_field(1) app])
  ultimately show ?thesis by (simp add: local_emit_def app Let_def)
qed

lemma good_emitAll: "good s (emitAll ah name args s)"
  unfolding emitAll_def
  by (rule good_trans [OF app good_fold]) (simp add: good_local_emit split: prod.split)

lemma good_reconnect: "good s (reconnect ah s)"
proof -
  have "good s (emitAll ah name args (s\<lparr>m_backoff := bo\<rparr>))" for name args bo
    by (rule good_trans [OF good_neutral(3) good_emitAll])
  then have "good s ((emitAll ah name args (s\<lparr>m_backoff := bo\<rparr>))\<lparr>reconnecting := c\<rparr>)" for name args bo c
    by (rule good_trans [OF _ good_neutral(2)])
  moreover have "good s (s\<lparr>m_backoff := bo, m_draws := n, reconnecting := c, reconnect_timer := t\<rparr>)" for bo n c t
    by (rule good_trans [OF good_trans [OF good_trans [OF good_neutral(3) good_neutral(10)] good_neutral(2)] good_neutral(5)])
  ultimately show ?thesis by (simp add: reconnect_def Let_def split: prod.split)
qed

lemma good_maybeReconnectOnOpen: "good s (maybeReconnectOnOpen ah s)"
  by (simp add: maybeReconnectOnOpen_def good_reconnect)

lemma good_onreconnect: "good s (onreconnect ah s)"
proof -
  have "good s (s\<lparr>reconnecting := False, m_backoff := bo\<rparr>)" for bo
    by (rule good_trans [OF good_neutral(2) good_neutral(3)])
  then show ?thesis unfolding onreconnect_def Let_def
    by (rule good_trans [OF good_trans [OF _ good_updateSocketIds] good_emitAll])
qed

lemma good_socket_onclose: "good s (socket_onclose ah reason k s)"
  unfolding socket_onclose_def by (rule good_trans [OF good_upd_field(10) good_local_emit])

lemma good_socket_emit: "good s (socket_emit b ah k args cb s)"
proof -
  define t where "t = (case cb of None \<Rightarrow> s | Some c \<Rightarrow> upd k (\<lambda>x. x\<lparr>acks := acks x @ [(ids (sock k s), c)], ids := ids (sock k s) + 1\<rparr>) s)"
  have t: "good s t" unfolding t_def by (cases cb) (simp_all only: option.case good_next_ack good_refl)
  define u where "u p = (if connected (sock k t) then socket_packet b k p None t
      else upd k (\<lambda>x. x\<lparr>sendBuffer := sendBuffer x @ [p]\<rparr>) t)" for p
  have "good s (u p)" for p
    by (rule good_trans [OF t]) (simp add: u_def good_socket_packet good_upd_field)
  then have "good s (upd k (\<lambda>x. x\<lparr>flags := None\<rparr>) (u p))" for p
    by (rule good_trans [OF _ good_upd_field(2)])
  then show ?thesis
    unfolding socket_emit_def Let_def t_def [symmetric] by (simp add: u_def good_local_emit)
qed

lemma good_emit_received: "good s (emit_received ah k r s)"
  by (simp add: emit_received_def good_throw good_local_emit split: sum.split)

lemma good_deliver: "good s (deliver ah k r s)"
  by (simp add: deliver_def good_emit_received good_upd_field)

lemma good_onevent: "good s (onevent ah k p s)"
proof -
  have "good s (deliver ah k r (upd k (\<lambda>x. x\<lparr>ack_calls := ack_calls x @ as\<rparr>) s))" for r as
    by (rule good_trans [OF good_upd_field(7) good_deliver])
  then show ?thesis by (simp add: onevent_def good_deliver good_throw Let_def split: option.split)
qed

lemma good_onack: "good s (onack ah k p s)"
proof -
  have "good s (upd k (\<lambda>x. x\<lparr>acks := filter (\<lambda>(j, _). j \<noteq> i) (acks x)\<rparr>) (ah ev s))" for i ev
    by (rule good_trans [OF app good_acked])
  then show ?thesis by (simp add: onack_def good_throw split: option.split sum.split prod.split)
qed

lemma good_emitBuffered: "good s (emitBuffered b ah k s)"
proof -
  define t where "t = upd k (\<lambda>x. x\<lparr>receiveBuffer := []\<rparr>) (fold (emit_received ah k) (receiveBuffer (sock k s)) s)"
  have "good s t" unfolding t_def by (rule good_trans [OF good_fold good_upd_field(3)]) (rule good_emit_received)
  then have "good s (fold (\<lambda>p. socket_packet b k p None) (sendBuffer (sock k t)) t)"
    by (rule good_trans [OF _ good_fold]) (rule good_socket_packet)
  then show ?thesis unfolding emitBuffered_def Let_def t_def [symmetric] by (rule good_trans [OF _ good_upd_field(4)])
qed

lemma good_onconnect: "good s (onconnect b ah k s)"
  unfolding onconnect_def by (rule good_trans [OF good_trans [OF good_upd_field(9) good_local_emit] good_emitBuffered])

lemma good_m_onopen: "good s (m_onopen b ah s)"
proof -
  have "good s (cleanup s\<lparr>m_readyState := RS_open\<rparr>)" by (rule good_trans [OF good_cleanup good_neutral(4)])
  then have "good s (fold (socket_onopen b) xs (cleanup s\<lparr>m_readyState := RS_open\<rparr>))" for xs
    by (rule good_trans [OF _ good_fold]) (rule good_socket_onopen)
  then have "good s (ah ev (fold (socket_onopen b) xs (cleanup s\<lparr>m_readyState := RS_open\<rparr>)))" for ev xs
    by (rule good_trans [OF _ app])
  then show ?thesis unfolding m_onopen_def Let_def by (rule good_trans [OF _ good_neutral(7)])
qed

lemma good_connect_error: "good s (connect_error ah fn data s)"
proof -
  define t where "t = emitAll ah ''connect_error'' [JStr data] ((cleanup s)\<lparr>m_readyState := RS_closed\<rparr>)"
  have t: "good s t" unfolding t_def
    by (rule good_trans [OF good_trans [OF good_cleanup good_neutral(4)] good_emitAll])
  have "good t (emitAll ah name args (reconnect ah (t\<lparr>reconnecting := False\<rparr>)))" for name args
    by (rule good_trans [OF good_trans [OF good_neutral(2) good_reconnect] good_emitAll])
  then show ?thesis
    unfolding connect_error_def Let_def t_def [symmetric]
    using good_trans [OF t] good_maybeReconnectOnOpen app by (simp split: open_callback.split)
qed

lemma good_m_onclose: "good s (m_onclose ah reason s)"
proof -
  define t where "t = (cleanup s)\<lparr>m_backoff := reset (m_backoff (cleanup s)), m_readyState := RS_closed\<rparr>"
  define u where "u = ah (M_event (lit ''close'') [JStr reason]) (fold (socket_onclose ah reason) (listeners t) t)"
  have "good s t" unfolding t_def by (rule good_trans [OF good_trans [OF good_cleanup good_neutral(3)] good_neutral(4)])
  then have "good s u"
    unfolding u_def by (rule good_trans [OF good_trans [OF _ good_fold] app]) (rule good_socket_onclose)
  then show ?thesis
    unfolding m_onclose_def Let_def t_def [symmetric] u_def [symmetric] using good_reconnect good_trans by auto
qed

lemma good_pings: "good s (onping ah s)" "good s (onpong ah s)" "good s (onerror ah e s)"
  unfolding onping_def onpong_def onerror_def
  by (rule good_trans [OF good_neutral(9) good_emitAll], (rule good_emitAll)+)

end

text \<open>With listeners of the engine's events that are \<open>good\<close> themselves, closing is.\<close>

locale connected_application = application ah
  for ah :: "app_event \<Rightarrow> 'w manager_scheme \<Rightarrow> 'w manager_scheme" +
  fixes eh :: "engine_event \<Rightarrow> 'w manager_scheme \<Rightarrow> 'w manager_scheme"
  assumes heard: "good s (eh ev s)" and unheard_internal: "internal_event ev \<Longrightarrow> eh ev s = s"

sublocale connected_application \<subseteq> engine: engine_user b eh for b
  by (rule engine_userI) (use heard unheard_internal in \<open>auto simp: good_def safe_def\<close>)

context connected_application
begin

lemma owner_invariant:
  assumes "\<And>s t. engine.more s = engine.more t \<Longrightarrow> P s = P t" "\<And>ev s. P s \<Longrightarrow> P (eh ev s)"
  shows "engine_owner eh (\<lambda>w. \<exists>s. engine.more s = w \<and> P s)"
  by unfold_locales (use assms in blast)

lemma owner_keeps:
  assumes "P s" "\<And>s t :: 'w manager_scheme. engine.more s = engine.more t \<Longrightarrow> P s = P t" "\<And>ev s. P s \<Longrightarrow> P (eh ev s)"
  shows "P (engine_close b eh s)" "P (engine_step b eh i s)"
proof -
  note owner = owner_invariant [of P, OF assms(2,3)]
  have "\<exists>t. engine.more t = engine.more (engine_close b eh s) \<and> P t" "\<exists>t. engine.more t = engine.more (engine_step b eh i s) \<and> P t"
    using engine_owner.owner_engine_close [OF owner, of s b] engine_owner.owner_engine_step [OF owner, of s b i] assms(1)
    by blast+
  then show "P (engine_close b eh s)" "P (engine_step b eh i s)" using assms(2) by blast+
qed

lemma heard_inv: "pool_ok s \<Longrightarrow> pool_ok (eh ev s)" "queue_free s \<Longrightarrow> queue_free (eh ev s)"
  using heard by (simp_all add: good_def safe_def)

lemma stays_close: "stays s (engine_close b eh s)" "stays s (engine_step b eh i s)"
  by (rule owner_keeps [where P = "stays s"], simp add: stays_def, erule owner_fields(4),
      rule stays_trans, assumption, use heard in \<open>simp add: good_def safe_def\<close>)+

lemma good_engine_close: "good s (engine_close b eh s)"
  using owner_keeps(1) [of pool_ok s b, OF _ owner_fields(3) heard_inv(1)] stays_close
    owner_keeps(1) [of queue_free s b, OF _ owner_fields(2) heard_inv(2)]
    engine.inv_engine_close engine.keeps_engine_close
  by (simp add: good_def safe_def)

lemma engine_step_inv:
  assumes "manager_inv s" "engine_inv s"
  shows "manager_inv (engine_step b eh i s)" "engine_inv (engine_step b eh i s)"
  using assms owner_keeps(2) [of pool_ok s b i, OF _ owner_fields(3) heard_inv(1)]
    owner_keeps(2) [of queue_free s b i, OF _ owner_fields(2) heard_inv(2)] engine.inv_engine_step [OF assms(2)]
  by (simp_all add: manager_inv_def)

lemma good_manager_close: "good s (manager_close b eh s)"
proof -
  define t where "t = s\<lparr>skipReconnect := True, reconnecting := False\<rparr>"
  define u where "u = (if m_readyState t = RS_opening then cleanup t else t)"
  have "good s t" unfolding t_def by (rule good_trans [OF good_neutral(1) good_neutral(2)])
  then have "good s u" unfolding u_def using good_cleanup good_trans by auto
  then have v: "good s (u\<lparr>m_backoff := bo, m_readyState := RS_closed\<rparr>)" for bo
    by (rule good_trans [OF good_trans [OF _ good_neutral(3)] good_neutral(4)])
  show ?thesis
    unfolding manager_close_def Let_def t_def [symmetric] u_def [symmetric]
    using v good_trans [OF v good_engine_close] by simp
qed

lemma good_manager_destroy: "good s (manager_destroy b eh k s)"
proof -
  define t where "t = s\<lparr>connecting := remove1 k (connecting s)\<rparr>"
  have t: "good s t"
    unfolding good_def t_def
    by (rule conjI, rule safe_manager) (auto simp: pool_ok_def queue_free_def stays_def engine.truncate_def distinct_remove1)
  then show ?thesis
    unfolding manager_destroy_def Let_def t_def [symmetric] using t good_trans [OF t good_manager_close] by simp
qed

lemma good_unsubscribe:
  assumes "subscribed (sock k s)"
  shows "good s (upd k (\<lambda>x. x\<lparr>subscribed := False\<rparr>) (s\<lparr>listeners := remove1 k (listeners s)\<rparr>))"
proof -
  have "pool_ok (upd k (\<lambda>x. x\<lparr>subscribed := False\<rparr>) (s\<lparr>listeners := remove1 k (listeners s)\<rparr>))" if inv: "pool_ok s"
  proof -
    let ?f = "\<lambda>x. x\<lparr>subscribed := False\<rparr>"
    have io: "io_nsp ((sockets s)[k := ?f (sockets s ! k)] ! j) = io_nsp (sockets s ! j)" for j
      by (cases "k < length (sockets s)"; cases "j = k"; simp add: list_update_beyond)
    have "list_all socket_ok ((sockets s)[k := ?f (sockets s ! k)])"
      using inv by (intro list_all_update) (auto simp: pool_ok_def list_all_length socket_ok_def)
    moreover have "set (remove1 k (listeners s)) = {j. j < length (sockets s) \<and> subscribed ((sockets s)[k := ?f (sockets s ! k)] ! j)}"
    proof -
      have "set (remove1 k (listeners s)) = set (listeners s) - {k}" using inv by (simp add: pool_ok_def)
      then show ?thesis
        using inv by (cases "k < length (sockets s)") (auto simp: pool_ok_def nth_list_update list_update_beyond split: if_splits)
    qed
    ultimately show ?thesis using inv by (simp add: pool_ok_def upd_def io distinct_remove1)
  qed
  then show ?thesis
    unfolding good_def
    by (intro conjI safe_manager) (simp_all add: engine.truncate_def upd_def queue_free_def stays_def)
qed

lemma good_socket_destroy: "good s (socket_destroy b eh k s)"
  unfolding socket_destroy_def using good_trans [OF good_unsubscribe good_manager_destroy] good_manager_destroy
  by (simp split: if_split)

lemma good_ondisconnect: "good s (ondisconnect b ah eh k s)"
  unfolding ondisconnect_def by (rule good_trans [OF good_socket_destroy good_socket_onclose])

lemma good_socket_close: "good s (socket_close b ah eh k s)"
proof -
  define t where "t = (if connected (sock k s) then socket_packet b k (plain_packet DISCONNECT JUndef) None s else s)"
  have "good s t" by (simp add: t_def good_socket_packet)
  then have "good s (socket_destroy b eh k t)" by (rule good_trans [OF _ good_socket_destroy])
  then show ?thesis
    unfolding socket_close_def Let_def t_def [symmetric] using good_trans [OF _ good_socket_onclose] by simp
qed

lemma good_onpacket: "good s (onpacket b ah eh p k s)"
  by (simp add: onpacket_def good_onconnect good_onevent good_onack good_ondisconnect good_local_emit)

lemma good_ondecoded: "good s (ondecoded b ah eh p s)"
  unfolding ondecoded_def by (rule good_fold) (rule good_onpacket)

lemma good_ondata: "good s (ondata b ah eh data s)"
proof -
  obtain d ps exn where add: "add json_parse (from_engine data) (m_decoder s) = (d, ps, exn)" by (metis prod_cases3)
  define t where "t = fold (\<lambda>p s. fold (\<lambda>_. ondecoded b ah eh p) (filter (\<lambda>x. snd x = Sub_decoded) (subs s)) s) ps (s\<lparr>m_decoder := d\<rparr>)"
  have t: "good s t"
    unfolding t_def by (rule good_trans [OF good_neutral(8) good_fold]) (rule good_fold, rule good_ondecoded)
  then show ?thesis
    using t good_trans [OF t good_throw] by (simp add: ondata_def add Let_def flip: t_def split: option.split)
qed

lemma good_run_sub: "good s (run_sub b ah eh ev u s)"
  using good_trans [OF good_m_onopen good_onreconnect] good_trans [OF good_m_onopen app]
  by (simp add: run_sub_def good_m_onopen good_connect_error good_ondata good_pings good_m_onclose Let_def
      split: manager_sub.split engine_event.split open_callback.split)

lemma good_manager_hears: "good s (manager_hears b ah eh ev s)"
  unfolding manager_hears_def by (rule good_fold) (rule good_run_sub)

lemma good_connect_timeout: "good s (connect_timeout_fires b ah eh s)"
proof -
  have "good s (s\<lparr>connect_timer := False, subs := us\<rparr>)" for us
    by (rule good_trans [OF good_neutral(6) good_neutral(7)])
  then have "good s (emitAll ah name args (eh ev (engine_close b eh (s\<lparr>connect_timer := False, subs := us\<rparr>))))" for name args ev us
    by (rule good_trans [OF good_trans [OF good_trans [OF _ good_engine_close] heard] good_emitAll])
  then show ?thesis by (simp add: connect_timeout_fires_def Let_def)
qed

end

lemma hears_internal: "internal_event ev \<Longrightarrow> manager_hears b ah eh ev s = s"
proof -
  assume "internal_event ev"
  then have "run_sub b ah eh ev u = (\<lambda>s. s)" for u
    by (cases ev) (auto simp: run_sub_def split: manager_sub.split)
  then have "fold (run_sub b ah eh ev) us s = s" for us by (induction us) simp_all
  then show ?thesis by (simp add: manager_hears_def)
qed

lemma connected_manager_hook:
  assumes "application ah"
  shows "connected_application ah (manager_hook n b ah)"
proof (induction n)
  case 0
  show ?case using assms by (intro connected_application.intro connected_application_axioms.intro) simp_all
next
  case (Suc n)
  show ?case
    by (intro connected_application.intro connected_application_axioms.intro assms)
      (simp_all add: connected_application.good_manager_hears [OF Suc] hears_internal)
qed

subsection \<open>Applications\<close>

datatype app_call =
    C_emit nat "jsval list" "nat option"
  | C_ack nat nat "jsval list"
  | C_compress nat bool
  | C_socket_close nat
  | C_close

fun run_app_call :: "browser \<Rightarrow> 'w app \<Rightarrow> 'w manager_hook \<Rightarrow> app_call \<Rightarrow> 'w manager_scheme \<Rightarrow> 'w manager_scheme" where
  "run_app_call b ah eh (C_emit k args cb) s = socket_emit b ah k args cb s"
| "run_app_call b ah eh (C_ack k h args) s = call_ack b k h args s"
| "run_app_call b ah eh (C_compress k c) s = compress c k s"
| "run_app_call b ah eh (C_socket_close k) s = socket_close b ah eh k s"
| "run_app_call b ah eh C_close s = manager_close b eh s"

definition log_event :: "app_event \<Rightarrow> app_event list manager_scheme \<Rightarrow> app_event list manager_scheme" where
  "log_event ev s = manager.more_update (\<lambda>l. l @ [ev]) s"

text \<open>
  An application that keeps a log of its events and reacts to them with calls, \<open>n\<close> levels deep.
\<close>

primrec scripted_app :: "nat \<Rightarrow> browser \<Rightarrow> (app_event \<Rightarrow> app_call list) \<Rightarrow> app_event list app" where
  "scripted_app 0 b react ev s = log_event ev s"
| "scripted_app (Suc n) b react ev s =
     fold (run_app_call b (scripted_app n b react) (manager_hook n b (scripted_app n b react))) (react ev) (log_event ev s)"

lemma good_log: "good s (log_event ev s)"
  unfolding good_def log_event_def
  by (rule conjI, rule safe_manager) (simp_all add: pool_ok_def queue_free_def stays_def engine.truncate_def)

lemma application_scripted: "application (scripted_app n b react)"
proof (induction n)
  case 0
  show ?case by unfold_locales (simp add: good_log)
next
  case (Suc n)
  note facts = connected_manager_hook [OF Suc]
  have "good s (run_app_call b (scripted_app n b react) (manager_hook n b (scripted_app n b react)) c s)" for c s
    using application.good_socket_emit [OF Suc] good_call_ack connected_application.good_socket_close [OF facts]
      connected_application.good_manager_close [OF facts]
    by (cases c) (simp_all add: compress_def good_upd_field)
  then have "good s (scripted_app (Suc n) b react ev s)" for s ev
    unfolding scripted_app.simps by (intro good_trans [OF good_log good_fold])
  then show ?case by unfold_locales
qed

interpretation scripted_application: application "scripted_app n b react" for n b react
  by (rule application_scripted)

interpretation manager_listeners: connected_application "scripted_app n b react" "manager_hook m b (scripted_app n b react)"
  for n m b react
  by (rule connected_manager_hook [OF application_scripted])

subsection \<open>Every manager is well-formed\<close>

lemma thrown_engine_open [simp]: "thrown (engine_open b s) = thrown s"
  by (rule engine_open_keeps) simp_all

lemma thrown_new_engine: "new_engine b uri opts prior index w = Inr s \<Longrightarrow> thrown s = None"
  by (auto simp: new_engine_def Let_def bindE_Inr_iff engine.defs transport.defs)

lemma inv_manager_open:
  assumes "manager_inv s" "engine_inv s"
  shows "manager_inv (manager_open b fn s)" "engine_inv (manager_open b fn s)"
proof -
  have "manager_inv (manager_open b fn s) \<and> engine_inv (manager_open b fn s)"
  proof (cases "m_readyState s = RS_closed")
    case True
    show ?thesis
    proof (cases "new_engine b (m_uri s) (m_opts s) (priorWebsocketSuccess s) (jsonp_index s) (engine.more s)")
      case (Inl e)
      then show ?thesis using True assms good_inv [OF good_throw] by (simp add: manager_open_def)
    next
      case (Inr t)
      have "manager_inv t" using assms(1) owner_fields(1) [of t s] owner_new_engine [OF Inr] by simp
      then have m: "manager_inv (t\<lparr>thrown := e, engine_no := n, m_readyState := r, skipReconnect := c, connect_timer := d, subs := us\<rparr>)"
        for e n r c d us by (simp add: manager_inv_def queue_free_def pool_ok_def)
      have "engine_inv (t\<lparr>thrown := e\<rparr>)" for e
        using inv_new_engine [OF Inr] thrown_new_engine [OF Inr]
        by (cases e) (simp_all add: engine_inv_def pause_pending_def)
      then have e: "engine_inv (t\<lparr>thrown := e, engine_no := n, m_readyState := r, skipReconnect := c, connect_timer := d, subs := us\<rparr>)"
        for e n r c d us by (simp add: engine_inv_def pause_pending_def)
      show ?thesis using True Inr m e by (simp add: manager_open_def Let_def)
    qed
  qed (use assms in \<open>simp add: manager_open_def\<close>)
  then show "manager_inv (manager_open b fn s)" "engine_inv (manager_open b fn s)" by blast+
qed

lemma good_socket_append: "manager_inv s \<Longrightarrow> manager_inv (s\<lparr>sockets := sockets s @ [new_socket n q]\<rparr>)"
  by (auto simp: manager_inv_def queue_free_def pool_ok_def new_socket_def socket_ok_def nth_append)

lemma inv_subEvents:
  assumes "manager_inv s" "k < length (sockets s)"
  shows "manager_inv (subEvents k s)"
proof -
  let ?f = "\<lambda>x. x\<lparr>subscribed := True\<rparr>"
  have io: "io_nsp ((sockets s)[k := ?f (sockets s ! k)] ! j) = io_nsp (sockets s ! j)" for j
    by (cases "j = k"; simp add: assms(2))
  have "list_all socket_ok ((sockets s)[k := ?f (sockets s ! k)])"
    using assms by (intro list_all_update) (auto simp: manager_inv_def pool_ok_def list_all_length socket_ok_def)
  then show ?thesis
    using assms
    by (auto simp: manager_inv_def queue_free_def pool_ok_def subEvents_def sock_def upd_def io nth_list_update split: if_splits)
qed

lemma engine_inv_pool:
  "engine_inv (s\<lparr>sockets := xs\<rparr>) = engine_inv s" "engine_inv (s\<lparr>listeners := ks\<rparr>) = engine_inv s"
  "engine_inv (s\<lparr>nsps := ns\<rparr>) = engine_inv s" "engine_inv (s\<lparr>connecting := ks\<rparr>) = engine_inv s"
  by (simp_all add: engine_inv_def pause_pending_def)

lemma inv_ensure_open:
  assumes "manager_inv s" "engine_inv s" "k < length (sockets s)"
  shows "manager_inv (ensure_open b k s)" "engine_inv (ensure_open b k s)"
proof -
  have "engine_inv (subEvents k s)" using assms(2) by (simp add: subEvents_def upd_def engine_inv_pool)
  note o = inv_manager_open [OF inv_subEvents [OF assms(1,3)] this, of b No_fn]
  have "good t (socket_onopen b k t)" for t :: "'a manager_scheme" by (rule good_socket_onopen)
  then show "manager_inv (ensure_open b k s)" "engine_inv (ensure_open b k s)"
    using o good_inv by (auto simp: ensure_open_def good_def safe_def Let_def)
qed

definition well_formed :: "'w manager_scheme \<Rightarrow> bool" where
  "well_formed s \<longleftrightarrow> manager_inv s \<and> engine_inv s"

lemma good_well_formed: "well_formed s \<Longrightarrow> good s s' \<Longrightarrow> well_formed s'"
  by (auto simp: well_formed_def good_def safe_def manager_inv_def)

lemma sockets_more: "engine.more s = engine.more t \<Longrightarrow> sockets s = sockets t \<and> nsps s = nsps t \<and> autoConnect s = autoConnect t"
  by (cases s, cases t) simp


lemma write_all_pool [simp]:
  "sockets (write_all b frames s) = sockets s" "nsps (write_all b frames s) = nsps s" "autoConnect (write_all b frames s) = autoConnect s"
  using sockets_more [OF more_write_all, of b frames s] by simp_all

lemma m_packet_pool [simp]:
  "sockets (m_packet b x s) = sockets s" "nsps (m_packet b x s) = nsps s" "autoConnect (m_packet b x s) = autoConnect s"
proof -
  have "sockets (m_packet b x s) = sockets s \<and> nsps (m_packet b x s) = nsps s \<and> autoConnect (m_packet b x s) = autoConnect s"
  proof (induction b x s rule: m_packet.induct)
    case (1 b x s)
    obtain p q where x: "with_query x = (p, q)" by fastforce
    show ?case using 1 [OF x [symmetric] refl _ _ refl]
      by (simp add: m_packet.simps [of b x s] x Let_def split: list.split)
  qed
  then show "sockets (m_packet b x s) = sockets s" "nsps (m_packet b x s) = nsps s" "autoConnect (m_packet b x s) = autoConnect s"
    by simp_all
qed

lemma socket_packet_pool [simp]:
  "sockets (socket_packet b k p q s) = sockets s" "nsps (socket_packet b k p q s) = nsps s"
  "autoConnect (socket_packet b k p q s) = autoConnect s"
  by (simp_all add: socket_packet_def)

lemma manager_open_pool [simp]:
  "sockets (manager_open b fn s) = sockets s" "nsps (manager_open b fn s) = nsps s" "autoConnect (manager_open b fn s) = autoConnect s"
proof -
  have "sockets (manager_open b fn s) = sockets s \<and> nsps (manager_open b fn s) = nsps s \<and> autoConnect (manager_open b fn s) = autoConnect s"
  proof (cases "new_engine b (m_uri s) (m_opts s) (priorWebsocketSuccess s) (jsonp_index s) (engine.more s)")
    case (Inl e)
    then show ?thesis by (simp add: manager_open_def throw_def)
  next
    case (Inr t)
    show ?thesis using sockets_more [OF owner_new_engine [OF Inr]] Inr by (simp add: manager_open_def Let_def)
  qed
  then show "sockets (manager_open b fn s) = sockets s" "nsps (manager_open b fn s) = nsps s" "autoConnect (manager_open b fn s) = autoConnect s"
    by simp_all
qed

lemma ensure_open_pool:
  "nsps (ensure_open b k s) = nsps s" "autoConnect (ensure_open b k s) = autoConnect s"
  "length (sockets (ensure_open b k s)) = length (sockets s)"
  "io_nsp (sockets (ensure_open b k s) ! j) = io_nsp (sockets s ! j)"
proof -
  have "io_nsp ((sockets s)[k := (sockets s ! k)\<lparr>subscribed := True\<rparr>] ! j) = io_nsp (sockets s ! j)"
    by (cases "k < length (sockets s)"; cases "j = k"; simp add: list_update_beyond)
  then show "nsps (ensure_open b k s) = nsps s" "autoConnect (ensure_open b k s) = autoConnect s"
  "length (sockets (ensure_open b k s)) = length (sockets s)"
  "io_nsp (sockets (ensure_open b k s) ! j) = io_nsp (sockets s ! j)"
    by (simp_all add: ensure_open_def socket_onopen_def subEvents_def upd_def Let_def)
qed

lemma well_formed_manager_socket:
  assumes "well_formed s"
  shows "well_formed (snd (manager_socket b n q s))"
proof (cases "map_of (nsps s) n")
  case (Some k)
  then show ?thesis using assms by (simp add: manager_socket_def)
next
  case None
  define k where "k = length (sockets s)"
  define t where "t = s\<lparr>sockets := sockets s @ [new_socket n q]\<rparr>"
  define u where "u = (if autoConnect t then ensure_open b k t else t)"
  have t: "manager_inv t" "engine_inv t" "k < length (sockets t)"
    using assms by (simp_all add: t_def k_def well_formed_def engine_inv_pool good_socket_append)
  have u: "manager_inv u" "engine_inv u" using inv_ensure_open [OF t] t by (simp_all add: u_def)
  have "nsps u = nsps s" "length (sockets u) = length (sockets t)" "io_nsp (sockets u ! k) = n"
    by (simp_all add: u_def ensure_open_pool, simp_all add: t_def k_def new_socket_def)
  moreover have "n \<notin> fst ` set (nsps s)" using None by (simp add: map_of_eq_None_iff)
  ultimately have "manager_inv (u\<lparr>nsps := nsps u @ [(n, k)]\<rparr>)"
    using u(1) t(3) by (auto simp: manager_inv_def queue_free_def pool_ok_def)
  then have v: "well_formed (u\<lparr>nsps := nsps u @ [(n, k)]\<rparr>)"
    using u(2) by (simp add: well_formed_def engine_inv_pool)
  have "snd (manager_socket b n q s) =
      (if autoConnect u then onConnecting k (u\<lparr>nsps := nsps u @ [(n, k)]\<rparr>) else u\<lparr>nsps := nsps u @ [(n, k)]\<rparr>)"
    using None by (simp add: manager_socket_def Let_def u_def t_def k_def)
  then show ?thesis using v good_well_formed [OF v good_onConnecting] by simp
qed

lemma well_formed_manager_open: "well_formed s \<Longrightarrow> well_formed (manager_open b fn s)"
  by (simp add: well_formed_def inv_manager_open)

context application
begin

lemma well_formed_socket_open:
  assumes "well_formed s" "k < length (sockets s)"
  shows "well_formed (socket_open b ah k s)"
proof -
  have "well_formed (ensure_open b k s)"
    using assms by (simp add: well_formed_def inv_ensure_open)
  then have "well_formed (local_emit ah k args ack (ensure_open b k s))" for args ack
    by (rule good_well_formed [OF _ good_local_emit])
  then show ?thesis using assms(1) by (simp add: socket_open_def)
qed

lemma well_formed_reconnect_timer:
  assumes "well_formed s"
  shows "well_formed (reconnect_timer_fires b ah s)"
proof -
  define t where "t = s\<lparr>reconnect_timer := None\<rparr>"
  define u where "u = emitAll ah ''reconnect_attempt'' [JNum (js_nat (attempts (m_backoff t)))] t"
  define v where "v = emitAll ah ''reconnecting'' [JNum (js_nat (attempts (m_backoff u)))] u"
  have t: "good s t" unfolding t_def by (rule good_neutral(5))
  have "good t v" unfolding u_def v_def by (rule good_trans [OF good_emitAll good_emitAll])
  then have "well_formed t" "well_formed v"
    using good_well_formed [OF assms] t good_trans [OF t] by blast+
  then show ?thesis
    using assms
    unfolding reconnect_timer_fires_def Let_def t_def [symmetric] u_def [symmetric] v_def [symmetric]
    by (simp add: well_formed_manager_open)
qed

lemma well_formed_step:
  assumes "well_formed s"
  shows "well_formed (manager_step b ah n i s)"
proof -
  note hook = connected_manager_hook [OF application_axioms, of n b]
  note step = good_well_formed [OF assms]
  note close = step [OF connected_application.good_manager_close [OF hook]] step [OF connected_application.good_socket_close [OF hook]]
    step [OF connected_application.good_connect_timeout [OF hook]]
  show ?thesis
  proof (cases i)
    case (G_engine e)
    then show ?thesis
      using assms connected_application.engine_step_inv [OF hook, of s b e] by (simp add: well_formed_def)
  next
    case (G_socket name q)
    then show ?thesis using assms by (simp add: well_formed_manager_socket)
  qed (use assms in \<open>simp_all add: close step [OF good_reader_finishes] well_formed_manager_open well_formed_reconnect_timer
      well_formed_socket_open step [OF good_socket_emit] step [OF good_call_ack] compress_def step [OF good_upd_field(2)]\<close>)
qed

end

lemma well_formed_new_manager: "well_formed (new_manager b uri mo random w)"
proof -
  have "well_formed (manager.extend (blank_engine b opts (manager.fields u o' r a d dm j t bo rnd 0 RS_closed False False False False [] [] Decoder c
      [] [] [] [] [] 0 False None)) w)" for opts u o' r a d dm j t bo rnd c
    by (simp add: well_formed_def manager_inv_def queue_free_def pool_ok_def engine_inv_def engine_core_def blank_engine_def
        manager.defs engine.defs transport.defs Let_def)
  then show ?thesis
    by (simp add: new_manager_def well_formed_manager_open Let_def)
qed

inductive manager_reachable :: "browser \<Rightarrow> 'w app \<Rightarrow> nat \<Rightarrow> 'w manager_scheme \<Rightarrow> bool" for b ah n where
  constructed: "manager_reachable b ah n (new_manager b uri mo random w)"
| stepped: "manager_reachable b ah n s \<Longrightarrow> manager_reachable b ah n (manager_step b ah n i s)"

context application
begin

lemma well_formed_reachable: "manager_reachable b ah n s \<Longrightarrow> well_formed s"
  by (induction rule: manager_reachable.induct) (simp_all add: well_formed_new_manager well_formed_step)

end

end
