(* ===== verification/SocketFlow.thy ===== *)
theory SocketFlow
  imports ManagerInv
begin

text \<open>
  What a socket.io manager and its sockets promise: packets keep their order, also behind one that waits for file
  readers; a socket loses nothing of what happens before it is connected; an acknowledgement reaches its callback;
  an emitted event arrives; reconnection gives up after the attempts it has been given, and a closed
  manager stays closed.
\<close>

subsection \<open>The order of packets\<close>

interpretation silent_passive: passive_user b silent for b
  by (unfold_locales) simp_all

definition message :: "jsval \<Rightarrow> eio_packet" where
  "message f = \<lparr>etype = P_message, edata = to_engine f\<rparr>"

text \<open>The connection is open and \<open>moved b s news s'\<close> tells what it does with the packets \<open>news\<close>.\<close>

definition online :: "'w manager_scheme \<Rightarrow> bool" where
  "online s \<longleftrightarrow> flowing s \<and> readyState s = RS_open \<and> engine_no s > 0"

lemma moved_fields: "moved b s news t \<Longrightarrow> flowing t \<and> readyState t = readyState s"
  by (simp add: moved_def)

lemma engine_no_write_all [simp]: "engine_no (write_all b frames s) = engine_no s"
  using owner_fields(4) [where r = s, OF more_write_all [of b frames s]] by (simp add: stays_def)

lemma write_all_moves:
  assumes "online s"
  shows "moved b s (map message frames) (write_all b frames s)"
proof -
  have "moved b s (map message frames) (fold (\<lambda>f. engine_write b silent (to_engine f)) frames s)"
    if "flowing s" "readyState s = RS_open" for s :: "'a manager_scheme"
    using that
  proof (induction frames arbitrary: s)
    case Nil
    then show ?case by (simp add: moved_refl)
  next
    case (Cons f fs)
    have w: "moved b s [message f] (engine_write b silent (to_engine f) s)"
      unfolding message_def by (rule silent_passive.write_moves [OF Cons.prems])
    then have "moved b (engine_write b silent (to_engine f) s) (map message fs)
        (fold (\<lambda>f. engine_write b silent (to_engine f)) fs (engine_write b silent (to_engine f) s))"
      using Cons.prems by (intro Cons.IH) (auto dest: moved_fields)
    from moved_trans [OF w this] show ?case by (simp only: append_Cons append_Nil fold_simps list.map)
  qed
  then show ?thesis using assms by (simp add: online_def write_all_def)
qed

lemma moved_same:
  assumes "engine.truncate t = engine.truncate s" "engine.truncate t' = engine.truncate s'"
  shows "moved b t news t' = moved b s news s'"
proof -
  have "flowing t' = flowing s'" using assms by (simp add: flowing_def live_def engine.truncate_def)
  moreover have "batch_actions b t = batch_actions b s"
    by (rule batch_actions_cong) (use assms(1) in \<open>simp_all add: engine.truncate_def\<close>)
  ultimately show ?thesis
    using assms by (simp add: moved_def unsent_def engine.truncate_def)
qed

lemma truncate_manager [simp]:
  "engine.truncate (s\<lparr>encoding := c\<rparr>) = engine.truncate s" "engine.truncate (s\<lparr>packetBuffer := ps\<rparr>) = engine.truncate s"
  "engine.truncate (s\<lparr>encoders := es\<rparr>) = engine.truncate s"
  by (simp_all add: engine.truncate_def)

lemma online_same: "engine.truncate t = engine.truncate s \<Longrightarrow> engine_no t = engine_no s \<Longrightarrow> online t = online s"
  by (simp add: online_def flowing_def live_def engine.truncate_def)

lemma online_moved: "online s \<Longrightarrow> moved b s news t \<Longrightarrow> engine_no t = engine_no s \<Longrightarrow> online t"
  by (simp add: online_def moved_def)

definition frames_of :: "io_packet \<Rightarrow> jsval list" where
  "frames_of p = concat (Encoder_encode json3_stringify [] p)"

definition frames_with_query :: "io_packet \<times> jsstr option \<Rightarrow> jsval list" where
  "frames_with_query x = frames_of (fst (with_query x))"

lemma m_packet_moves:
  assumes "online s" "\<not> encoding s" "list_all (\<lambda>x. \<not> waits_for_readers (fst (with_query x))) (x # packetBuffer s)"
  shows "moved b s (map message (frames_with_query x @ concat (map frames_with_query (packetBuffer s)))) (m_packet b x s)"
    "\<not> encoding (m_packet b x s)" "packetBuffer (m_packet b x s) = []" "engine_no (m_packet b x s) = engine_no s"
proof -
  have "moved b s (map message (frames_with_query x @ concat (map frames_with_query (packetBuffer s)))) (m_packet b x s) \<and>
    \<not> encoding (m_packet b x s) \<and> packetBuffer (m_packet b x s) = [] \<and> engine_no (m_packet b x s) = engine_no s"
    using assms
  proof (induction b x s rule: m_packet.induct)
    case (1 b x s)
    obtain p q where x: "with_query x = (p, q)" by fastforce
    let ?w = "write_all b (concat (Encoder_encode json3_stringify [] p)) (s\<lparr>encoding := True\<rparr>)"
    let ?s = "?w\<lparr>encoding := False\<rparr>"
    have "online (s\<lparr>encoding := True\<rparr>)" using 1(2) online_same [of "s\<lparr>encoding := True\<rparr>" s] by simp
    then have "moved b (s\<lparr>encoding := True\<rparr>) (map message (frames_with_query x)) ?w"
      unfolding frames_with_query_def frames_of_def x fst_conv by (rule write_all_moves)
    then have m: "moved b s (map message (frames_with_query x)) ?s"
      using moved_same [of s "s\<lparr>encoding := True\<rparr>" ?s ?w] by simp
    have up: "\<not> encoding s" "\<not> waits_for_readers p" using 1(3,4) x by simp_all
    show ?case
    proof (cases "packetBuffer ?s")
      case Nil
      then show ?thesis using up m by (simp add: m_packet.simps [of b x s] x Let_def)
    next
      case (Cons y ys)
      let ?u = "?s\<lparr>packetBuffer := ys\<rparr>"
      have buf: "packetBuffer s = y # ys" using Cons by simp
      have mu: "moved b s (map message (frames_with_query x)) ?u"
        using m moved_same [of s s ?u ?s] by simp
      have "online ?u" using online_moved [OF 1(2) mu] by simp
      then have "moved b ?u (map message (frames_with_query y @ concat (map frames_with_query ys))) (m_packet b y ?u) \<and>
          \<not> encoding (m_packet b y ?u) \<and> packetBuffer (m_packet b y ?u) = [] \<and> engine_no (m_packet b y ?u) = engine_no s"
        using 1(1) [OF x [symmetric] refl up refl Cons] 1(4) buf by simp
      moreover from this have "moved b s (map message (frames_with_query x @ concat (map frames_with_query (packetBuffer s)))) (m_packet b y ?u)"
        using moved_trans [OF mu, of "map message (frames_with_query y @ concat (map frames_with_query ys))" "m_packet b y ?u"] buf
        by simp
      ultimately show ?thesis using up Cons by (simp add: m_packet.simps [of b x s] x Let_def)
    qed
  qed
  then show "moved b s (map message (frames_with_query x @ concat (map frames_with_query (packetBuffer s)))) (m_packet b x s)"
    "\<not> encoding (m_packet b x s)" "packetBuffer (m_packet b x s) = []" "engine_no (m_packet b x s) = engine_no s"
    by blast+
qed

text \<open>While an encoding waits for its file readers, packets only join the queue.\<close>

lemma m_packet_waits: "encoding s \<Longrightarrow> m_packet b x s = s\<lparr>packetBuffer := packetBuffer s @ [with_query x]\<rparr>"
  by (simp add: m_packet.simps split: prod.split)

lemma m_packets_wait:
  "encoding s \<Longrightarrow> fold (m_packet b) xs s = s\<lparr>packetBuffer := packetBuffer s @ map with_query xs\<rparr>"
  by (induction xs arbitrary: s) (simp_all add: m_packet_waits)

lemma delivered_early: "blob_progress v D st \<Longrightarrow> \<not> set (blob_paths v) \<subseteq> D \<Longrightarrow> delivered st = []"
  by (auto simp: blob_progress_def split: if_splits)

lemma delivered_late: "blob_progress v D st \<Longrightarrow> set (blob_paths v) \<subseteq> D \<Longrightarrow> delivered st = [replace_blobs (\<lambda>_. True) v]"
  by (simp add: blob_progress_def)

lemma readers_early:
  assumes "blob_progress v D st" "distinct_keys v" "distinct ls" "set ls \<inter> D = {}" "set ls \<subseteq> set (blob_paths v)"
    "\<not> set (blob_paths v) \<subseteq> D \<union> set ls" "i < length (encoders s)" "encoders s ! i = (p, st)"
  shows "fold (reader_finishes b i) ls s = s\<lparr>encoders := (encoders s)[i := (p, fold reader_onload ls st)]\<rparr>"
  using assms
proof (induction ls arbitrary: s D st)
  case Nil
  then have "(encoders s)[i := (p, st)] = encoders s" by (metis list_update_id)
  then show ?case by simp
next
  case (Cons l ls)
  let ?st = "reader_onload l st"
  let ?s = "s\<lparr>encoders := (encoders s)[i := (p, ?st)]\<rparr>"
  have step: "blob_progress v (insert l D) ?st"
    using Cons.prems by (intro blob_progress_step) auto
  have "delivered st = []" "delivered ?st = []"
    using delivered_early [OF Cons.prems(1)] delivered_early [OF step] Cons.prems(6) by auto
  then have "reader_finishes b i l s = ?s"
    using Cons.prems(8) by (simp add: reader_finishes_def Let_def)
  moreover have "fold (reader_finishes b i) ls ?s = ?s\<lparr>encoders := (encoders ?s)[i := (p, fold reader_onload ls ?st)]\<rparr>"
    by (rule Cons.IH [OF step]) (use Cons.prems in auto)
  ultimately show ?case by simp
qed

lemma frames_waiting:
  assumes "waits_for_readers p" "delivered (fold reader_onload loads (removeBlobs (pdata p))) = [d]"
  shows "concat (Encoder_encode json3_stringify loads p) = writeEncoding json3_stringify (p\<lparr>pdata := d\<rparr>)"
  using assms by (simp add: waits_for_readers_def Encoder_encode_def encodeAsBinary_def)

lemma processPacketQueue_moves:
  assumes "online s" "\<not> encoding s" "list_all (\<lambda>x. \<not> waits_for_readers (fst (with_query x))) (packetBuffer s)"
  shows "moved b s (map message (concat (map frames_with_query (packetBuffer s)))) (processPacketQueue b s)"
    "\<not> encoding (processPacketQueue b s)" "packetBuffer (processPacketQueue b s) = []"
proof -
  have "moved b s (map message (concat (map frames_with_query (packetBuffer s)))) (processPacketQueue b s) \<and>
    \<not> encoding (processPacketQueue b s) \<and> packetBuffer (processPacketQueue b s) = []"
  proof (cases "packetBuffer s")
    case Nil
    then show ?thesis using assms(1,2) by (simp add: processPacketQueue_def moved_refl online_def)
  next
    case (Cons y ys)
    let ?t = "s\<lparr>packetBuffer := ys\<rparr>"
    have t: "online ?t" "\<not> encoding ?t" "list_all (\<lambda>x. \<not> waits_for_readers (fst (with_query x))) (y # packetBuffer ?t)"
      using assms Cons online_same [of ?t s] by simp_all
    from m_packet_moves [OF t] show ?thesis
      using Cons assms(2) moved_same [of s ?t "m_packet b y ?t" "m_packet b y ?t"] by (simp add: processPacketQueue_def)
  qed
  then show "moved b s (map message (concat (map frames_with_query (packetBuffer s)))) (processPacketQueue b s)"
    "\<not> encoding (processPacketQueue b s)" "packetBuffer (processPacketQueue b s) = []"
    by blast+
qed

lemma plain_query: "with_query (p, None) = (p, None)"
  by (simp add: with_query_def)

text \<open>The packet whose readers have finished is written first, and then those that waited behind it.\<close>

lemma queue_order:
  fixes s :: "'w manager_scheme"
  assumes "online s" "\<not> encoding s" "packetBuffer s = []" "waits_for_readers p" "list_all (\<lambda>p. \<not> waits_for_readers p) ps"
    "distinct_keys (pdata p)" "distinct loads" "set loads = set (blob_paths (pdata p))"
    and s1: "s1 = fold (m_packet b) (map (\<lambda>p. (p, None)) ps) (m_packet b (p, None) s)"
    and s2: "s2 = fold (reader_finishes b (length (encoders s))) loads s1"
  shows "engine.truncate s1 = engine.truncate s"
    "moved b s (map message (concat (Encoder_encode json3_stringify loads p) @ concat (map frames_of ps))) s2"
    "\<not> encoding s2" "packetBuffer s2 = []"
proof -
  let ?i = "length (encoders s)" and ?st = "removeBlobs (pdata p)"
  have first: "m_packet b (p, None) s = s\<lparr>encoding := True, encoders := encoders s @ [(p, ?st)]\<rparr>"
    using assms(2,4) by (simp add: m_packet.simps plain_query)
  have s1': "s1 = s\<lparr>encoding := True, encoders := encoders s @ [(p, ?st)], packetBuffer := map (\<lambda>p. (p, None)) ps\<rparr>"
    by (simp add: s1 first m_packets_wait assms(3) plain_query comp_def)
  then show same: "engine.truncate s1 = engine.truncate s" by simp
  have "blob_paths (pdata p) \<noteq> []" using assms(4) by (simp add: waits_for_readers_def)
  then obtain ls l where loads: "loads = ls @ [l]" using assms(8) by (cases loads rule: rev_cases) auto
  note start = blob_progress_start [of "pdata p"]
  have early: "fold (reader_finishes b ?i) ls s1 = s1\<lparr>encoders := (encoders s1)[?i := (p, fold reader_onload ls ?st)]\<rparr>"
    by (rule readers_early [OF start]) (use assms(6-8) loads in \<open>auto simp: s1' nth_append\<close>)
  define t where "t = s1\<lparr>encoders := (encoders s1)[?i := (p, fold reader_onload ls ?st)]\<rparr>"
  have "blob_progress (pdata p) ({} \<union> set ls) (fold reader_onload ls ?st)"
    by (rule blob_progress_run [OF start]) (use assms(6-8) loads in auto)
  then have d1: "delivered (fold reader_onload ls ?st) = []"
    by (rule delivered_early) (use assms(7,8) loads in auto)
  have "blob_progress (pdata p) ({} \<union> set loads) (fold reader_onload loads ?st)"
    by (rule blob_progress_run [OF start]) (use assms(6-8) in auto)
  then have d2: "delivered (fold reader_onload loads ?st) = [replace_blobs (\<lambda>_. True) (pdata p)]"
    by (rule delivered_late) (use assms(8) in auto)
  have fst_t: "encoders t ! ?i = (p, fold reader_onload ls ?st)" by (simp add: t_def s1' nth_append)
  define u where "u = t\<lparr>encoders := (encoders t)[?i := (p, fold reader_onload loads ?st)]\<rparr>"
  let ?fs = "concat (Encoder_encode json3_stringify loads p)"
  have s2': "s2 = processPacketQueue b ((write_all b ?fs u)\<lparr>encoding := False\<rparr>)"
    unfolding s2 loads fold_append comp_def early
    using d1 d2 frames_waiting [OF assms(4) d2] fst_t
    by (simp add: reader_finishes_def u_def t_def [symmetric] loads Let_def)
  have tu: "engine.truncate u = engine.truncate s" "engine_no u = engine_no s" "packetBuffer u = map (\<lambda>p. (p, None)) ps"
    by (simp_all add: u_def t_def s1')
  let ?w = "(write_all b ?fs u)\<lparr>encoding := False\<rparr>"
  have "moved b u (map message ?fs) (write_all b ?fs u)"
    using assms(1) online_same [OF tu(1,2)] by (intro write_all_moves) simp
  then have w: "moved b s (map message ?fs) ?w"
    using moved_same [of s u ?w "write_all b ?fs u"] tu(1) by simp
  have q: "online ?w" "\<not> encoding ?w" "list_all (\<lambda>x. \<not> waits_for_readers (fst (with_query x))) (packetBuffer ?w)"
    using online_moved [OF assms(1) w] assms(5) by (simp_all add: tu plain_query list_all_iff)
  have "concat (map frames_with_query (packetBuffer ?w)) = concat (map frames_of ps)"
    by (simp add: tu comp_def frames_with_query_def plain_query)
  then have "moved b ?w (map message (concat (map frames_of ps))) s2"
    using processPacketQueue_moves(1) [OF q] by (simp add: s2')
  from moved_trans [OF w this]
  show "moved b s (map message (?fs @ concat (map frames_of ps))) s2" by simp
  show "\<not> encoding s2" "packetBuffer s2 = []" using processPacketQueue_moves(2,3) [OF q] by (simp_all add: s2')
qed

subsection \<open>Reconnection\<close>

definition logger :: "app_event list app" where
  "logger = log_event"

lemma scripted_0 [simp]: "scripted_app 0 b react = logger"
  by (intro ext) (simp add: logger_def)

lemma logger_apply: "logger ev s = manager.more_update (\<lambda>l. l @ [ev]) s"
  by (simp add: logger_def log_event_def)

definition ordinary :: "string \<Rightarrow> bool" where
  "ordinary name \<longleftrightarrow> lit name \<noteq> lit ''connecting'' \<and> lit name \<noteq> lit ''connect''"

definition emission :: "string \<Rightarrow> jsval list \<Rightarrow> 'w manager_scheme \<Rightarrow> app_event list" where
  "emission name args s = M_event (lit name) args # map (\<lambda>(_, k). S_event k (JStr (lit name) # args) None) (nsps s)"

lemma emitAll_log:
  assumes "ordinary name"
  shows "emitAll logger name args s = manager.more_update (\<lambda>l. l @ emission name args s) s"
proof -
  have "fold (\<lambda>(_, k). local_emit logger k (JStr (lit name) # args) None) ns s =
      manager.more_update (\<lambda>l. l @ map (\<lambda>(_, k). S_event k (JStr (lit name) # args) None) ns) s"
    for ns :: "(jsstr \<times> nat) list" and s
    using assms by (induction ns arbitrary: s) (auto simp: local_emit_def ordinary_def logger_apply comp_def)
  then show ?thesis by (simp add: emitAll_def emission_def logger_apply comp_def)
qed

lemma ordinary_names [simp]:
  "ordinary ''reconnect_failed''" "ordinary ''reconnect_attempt''" "ordinary ''reconnecting''" "ordinary ''connect_error''"
  "ordinary ''reconnect_error''"
  by (simp_all add: ordinary_def lit_def)

text \<open>A manager that waits to reconnect, and whose options let it make an engine.\<close>

definition can_open :: "parsed_uri option \<Rightarrow> socket_opts \<Rightarrow> bool" where
  "can_open u opts = (case so_query (uri_opts u opts) of
     Inl q \<Rightarrow> q = [] \<or> (case qs_decode q of Inl _ \<Rightarrow> False | Inr _ \<Rightarrow> True) | Inr _ \<Rightarrow> True)"

definition retrying :: "nat \<Rightarrow> 'w manager_scheme \<Rightarrow> bool" where
  "retrying N s \<longleftrightarrow> m_readyState s = RS_closed \<and> reconnecting s \<and> \<not> skipReconnect s \<and> reconnect_timer s \<noteq> None \<and> subs s = [] \<and>
     reconnectionAttempts s = Some N \<and> can_open (m_uri s) (m_opts s)"

text \<open>An attempt that fails, at once or with an error of the transport.\<close>

definition attempt_fails :: "browser \<Rightarrow> 'w app \<Rightarrow> nat \<Rightarrow> jsstr \<Rightarrow> 'w manager_scheme \<Rightarrow> 'w manager_scheme" where
  "attempt_fails b ah n e s =
     (let s = manager_step b ah n G_reconnect_timer s
      in manager_step b ah n (G_engine (if has_transport s then I_transport_error e else I_no_transports)) s)"

lemma new_engine_opens:
  assumes "can_open u opts"
  obtains t where "new_engine b u opts prior i w = Inr t" "has_transport t \<longrightarrow> listening t" "\<not> has_transport t \<longrightarrow> no_transports_timer t"
proof -
  have open_ends: "(has_transport (engine_open b s) \<longrightarrow> listening (engine_open b s)) \<and>
      (\<not> has_transport (engine_open b s) \<longrightarrow> no_transports_timer (engine_open b s))"
    if "\<not> has_transport s" for s :: "'a engine_scheme"
    using that
  proof (induction b s rule: engine_open.induct)
    case (1 b s)
    let ?ws = "rememberUpgrade s \<and> priorWebsocketSuccess s \<and> lit ''websocket'' \<in> set (transports s)"
    let ?name = "if ?ws then lit ''websocket'' else hd (transports s)"
    show ?case
    proof (cases "\<not> ?ws \<and> transports s = []")
      case True
      then show ?thesis using 1(2) by (simp add: engine_open.simps)
    next
      case False
      show ?thesis
      proof (cases "createTransport b ?name (s\<lparr>readyState := RS_opening\<rparr>)")
        case (Inl x)
        then show ?thesis
          using 1(1) [OF refl False refl refl Inl] 1(2) unfolding engine_open.simps [of b s] Let_def if_not_P [OF False] Inl by simp
      next
        case (Inr t)
        show ?thesis unfolding engine_open.simps [of b s] Let_def if_not_P [OF False] Inr by simp
      qed
    qed
  qed
  have "\<exists>q. (case so_query (uri_opts u opts) of Inl q \<Rightarrow> (if q = [] then Inr [] else qs_decode q) | Inr kvs \<Rightarrow> Inr kvs) = Inr q"
    using assms by (auto simp: can_open_def split: sum.splits)
  then obtain q where q: "(case so_query (uri_opts u opts) of Inl q \<Rightarrow> (if q = [] then Inr [] else qs_decode q) | Inr kvs \<Rightarrow> Inr kvs) = Inr q"
    by blast
  have "\<exists>s :: 'a engine_scheme. new_engine b u opts prior i w = Inr (engine_open b s) \<and> \<not> has_transport s"
    unfolding new_engine_def Let_def q bindE.simps
    by (intro exI conjI, rule refl) (simp add: engine.defs transport.defs)
  then obtain s :: "'a engine_scheme" where s: "new_engine b u opts prior i w = Inr (engine_open b s)" "\<not> has_transport s"
    by blast
  show thesis by (rule that [OF s(1)]) (use open_ends [OF s(2)] in simp_all)
qed

lemma manager_fields:
  assumes "engine.more s = engine.more t"
  shows "m_uri s = m_uri t" "m_opts s = m_opts t" "reconnectionAttempts s = reconnectionAttempts t" "m_backoff s = m_backoff t"
    "m_readyState s = m_readyState t" "skipReconnect s = skipReconnect t" "reconnecting s = reconnecting t" "nsps s = nsps t"
    "subs s = subs t" "engine_no s = engine_no t" "reconnect_timer s = reconnect_timer t" "manager.more s = manager.more t"
    "m_random s = m_random t" "m_draws s = m_draws t"
  using assms by (cases s, cases t, simp)+

text \<open>An engine nobody listens to leaves the manager alone.\<close>

lemma unsubscribed_engine:
  assumes "subs s = []"
  shows "engine.more (onClose b (manager_hook n b ah) reason s) = engine.more s"
proof -
  have "manager_hook n b ah ev t = t" if "engine.more t = engine.more s" for ev t
    using manager_fields(9) [OF that] assms by (cases n) (simp_all add: manager_hears_def)
  then have "engine_owner (manager_hook n b ah) (\<lambda>w. w = engine.more s)"
    by unfold_locales simp
  from engine_owner.owner_onClose [OF this refl] show ?thesis .
qed

lemma attempt_opens:
  fixes s :: "app_event list manager_scheme"
  assumes "retrying N s"
  defines "a \<equiv> JNum (js_nat (attempts (m_backoff s)))"
  obtains t where "manager_step b logger n G_reconnect_timer s = t"
    "subs t = [(engine_no t, Sub_open Reconnect_fn), (engine_no t, Sub_connect_error Reconnect_fn)]" "engine_no t > 0"
    "has_transport t \<longrightarrow> listening t" "\<not> has_transport t \<longrightarrow> no_transports_timer t"
    "reconnectionAttempts t = Some N" "m_backoff t = m_backoff s" "m_uri t = m_uri s" "m_opts t = m_opts s" "\<not> skipReconnect t"
    "nsps t = nsps s" "manager.more t = manager.more s @ emission ''reconnect_attempt'' [a] s @ emission ''reconnecting'' [a] s"
proof -
  define u where "u = manager.more_update (\<lambda>l. l @ emission ''reconnect_attempt'' [a] s @ emission ''reconnecting'' [a] s) (s\<lparr>reconnect_timer := None\<rparr>)"
  have r: "m_readyState s = RS_closed" "\<not> skipReconnect s" "reconnect_timer s \<noteq> None" "subs s = []"
    "reconnectionAttempts s = Some N" "can_open (m_uri s) (m_opts s)"
    using assms(1) by (simp_all add: retrying_def)
  have e: "emission name args (manager.more_update f (s\<lparr>reconnect_timer := None\<rparr>)) = emission name args s"
    "emission name args (s\<lparr>reconnect_timer := None\<rparr>) = emission name args s" for name args f
    by (simp_all add: emission_def)
  obtain tm where tm: "reconnect_timer s = Some tm" using r(3) by auto
  have step: "manager_step b logger n G_reconnect_timer s = manager_open b Reconnect_fn u"
    using r(2) tm by (simp add: reconnect_timer_fires_def emitAll_log e u_def a_def comp_def Let_def)
  have "can_open (m_uri u) (m_opts u)" using r by (simp add: u_def)
  from new_engine_opens [OF this, of b "priorWebsocketSuccess u" "jsonp_index u" "engine.more u"]
  obtain t where t: "new_engine b (m_uri u) (m_opts u) (priorWebsocketSuccess u) (jsonp_index u) (engine.more u) = Inr t"
    "has_transport t \<longrightarrow> listening t" "\<not> has_transport t \<longrightarrow> no_transports_timer t" by blast
  note same = manager_fields [OF owner_new_engine [OF t(1)]]
  show thesis
    by (rule that [OF step])
      (use r t in \<open>simp_all add: manager_open_def same Let_def, simp_all add: u_def\<close>)
qed

lemma connect_error_log:
  fixes u :: "app_event list manager_scheme" and d :: jsstr
  assumes "reconnectionAttempts u = Some N" "\<not> skipReconnect u"
  defines "v \<equiv> connect_error logger Reconnect_fn d u"
  shows "subs v = []" "m_readyState v = RS_closed" "reconnectionAttempts v = Some N" "\<not> skipReconnect v"
    "m_uri v = m_uri u" "m_opts v = m_opts u" "nsps v = nsps u"
    "attempts (m_backoff u) < N \<Longrightarrow> reconnecting v \<and> reconnect_timer v \<noteq> None \<and> attempts (m_backoff v) = Suc (attempts (m_backoff u)) \<and>
       manager.more v = manager.more u @ emission ''connect_error'' [JStr d] u @ emission ''reconnect_error'' [JStr d] u"
    "\<not> attempts (m_backoff u) < N \<Longrightarrow> \<not> reconnecting v \<and> reconnect_timer v = None \<and> attempts (m_backoff v) = 0 \<and>
       manager.more v = manager.more u @ emission ''connect_error'' [JStr d] u @ emission ''reconnect_failed'' [] u @
         emission ''reconnect_error'' [JStr d] u"
proof -
  define c where "c = (manager.more_update (\<lambda>l. l @ emission ''connect_error'' [JStr d] u) ((cleanup u)\<lparr>m_readyState := RS_closed\<rparr>))\<lparr>reconnecting := False\<rparr>"
  have e: "emission ''connect_error'' [JStr d] ((cleanup u)\<lparr>m_readyState := RS_closed\<rparr>) = emission ''connect_error'' [JStr d] u"
    by (simp add: emission_def cleanup_def)
  have c: "subs c = []" "m_readyState c = RS_closed" "reconnectionAttempts c = Some N" "\<not> skipReconnect c" "\<not> reconnecting c"
    "m_uri c = m_uri u" "m_opts c = m_opts u" "nsps c = nsps u" "m_backoff c = m_backoff u" "reconnect_timer c = None"
    "manager.more c = manager.more u @ emission ''connect_error'' [JStr d] u"
    using assms(1,2) by (simp_all add: c_def cleanup_def)
  have v: "v = emitAll logger ''reconnect_error'' [JStr d] (reconnect logger c)"
    by (simp only: v_def connect_error_def Let_def emitAll_log [OF ordinary_names(4)] e open_callback.case c_def)
  have give_up: "reconnect logger c = manager.more_update (\<lambda>l. l @ emission ''reconnect_failed'' [] u) (c\<lparr>m_backoff := reset (m_backoff c), reconnecting := False\<rparr>)"
    if "\<not> attempts (m_backoff u) < N"
    using that c by (simp add: reconnect_def gave_up_def emitAll_log emission_def Let_def)
  obtain delay bo where d: "duration (m_random c (m_draws c)) (m_backoff c) = (delay, bo)" by fastforce
  then have bo: "attempts bo = Suc (attempts (m_backoff u))" using c(9) by (auto simp: duration_def Let_def)
  have again: "reconnect logger c = c\<lparr>m_backoff := bo, m_draws := m_draws c + 1, reconnecting := True, reconnect_timer := Some delay\<rparr>"
    if "attempts (m_backoff u) < N"
    using that c d by (simp add: reconnect_def gave_up_def)
  define w where "w = (if attempts (m_backoff u) < N
      then c\<lparr>m_backoff := bo, m_draws := m_draws c + 1, reconnecting := True, reconnect_timer := Some delay\<rparr>
      else manager.more_update (\<lambda>l. l @ emission ''reconnect_failed'' [] u) (c\<lparr>m_backoff := reset (m_backoff c), reconnecting := False\<rparr>))"
  have w: "reconnect logger c = w" using again give_up by (simp add: w_def)
  have rest: "subs w = []" "m_readyState w = RS_closed" "reconnectionAttempts w = Some N" "\<not> skipReconnect w"
    "m_uri w = m_uri u" "m_opts w = m_opts u" "nsps w = nsps u"
    by (simp_all add: w_def c)
  have v': "v = manager.more_update (\<lambda>l. l @ emission ''reconnect_error'' [JStr d] u) w"
    by (simp only: v w emitAll_log [OF ordinary_names(5)]) (simp add: emission_def rest)
  show "subs v = []" "m_readyState v = RS_closed" "reconnectionAttempts v = Some N" "\<not> skipReconnect v"
    "m_uri v = m_uri u" "m_opts v = m_opts u" "nsps v = nsps u"
    by (simp_all add: v' rest)
  show "attempts (m_backoff u) < N \<Longrightarrow> reconnecting v \<and> reconnect_timer v \<noteq> None \<and> attempts (m_backoff v) = Suc (attempts (m_backoff u)) \<and>
       manager.more v = manager.more u @ emission ''connect_error'' [JStr d] u @ emission ''reconnect_error'' [JStr d] u"
    by (simp add: v' w_def bo c)
  show "\<not> attempts (m_backoff u) < N \<Longrightarrow> \<not> reconnecting v \<and> reconnect_timer v = None \<and> attempts (m_backoff v) = 0 \<and>
       manager.more v = manager.more u @ emission ''connect_error'' [JStr d] u @ emission ''reconnect_failed'' [] u @
         emission ''reconnect_error'' [JStr d] u"
    by (simp add: v' w_def c reset_def)
qed

text \<open>An error of the engine that is being opened is reported to the manager's \<open>connect_error\<close>.\<close>

lemma engine_fails:
  fixes t :: "app_event list manager_scheme"
  assumes "subs t = [(engine_no t, Sub_open Reconnect_fn), (engine_no t, Sub_connect_error Reconnect_fn)]" "engine_no t > 0"
    "has_transport t \<longrightarrow> listening t" "\<not> has_transport t \<longrightarrow> no_transports_timer t"
    "reconnectionAttempts t = Some N" "\<not> skipReconnect t"
  obtains d u where "engine.more u = engine.more t"
    "engine.more (manager_step b logger (Suc n) (G_engine (if has_transport t then I_transport_error e else I_no_transports)) t) =
       engine.more (connect_error logger Reconnect_fn d u)"
proof (cases "has_transport t")
  case True
  define u where "u = t\<lparr>priorWebsocketSuccess := False\<rparr>"
  have "manager_hook (Suc n) b logger (E_error e) u = connect_error logger Reconnect_fn e u"
    using assms(1) by (simp add: manager_hears_def run_sub_def u_def)
  then have "manager_step b logger (Suc n) (G_engine (I_transport_error e)) t =
      onClose b (manager_hook (Suc n) b logger) (lit ''transport error'') (connect_error logger Reconnect_fn e u)"
    using assms(2,3) True by (simp add: t_onError_def t_emit_def onError_def u_def del: manager_hook.simps)
  moreover have "subs (connect_error logger Reconnect_fn e u) = []"
    by (rule connect_error_log(1) [where N = N]) (use assms(5,6) in \<open>simp_all add: u_def\<close>)
  ultimately have "engine.more (manager_step b logger (Suc n) (G_engine (I_transport_error e)) t) =
      engine.more (connect_error logger Reconnect_fn e u)"
    using unsubscribed_engine by simp
  then show thesis using that [of u e] True by (simp add: u_def)
next
  case False
  define u where "u = t\<lparr>no_transports_timer := False\<rparr>"
  have "manager_step b logger (Suc n) (G_engine I_no_transports) t = connect_error logger Reconnect_fn (lit ''No transports available'') u"
    using assms(1,2,4) False by (simp add: no_transports_fires_def manager_hears_def run_sub_def u_def)
  then show thesis using that [of u "lit ''No transports available''"] False by (simp add: u_def)
qed

text \<open>The announcements that tell an attempt and its end.\<close>

fun announces :: "app_event \<Rightarrow> bool" where
  "announces (M_event name _) \<longleftrightarrow> name = lit ''reconnect_attempt'' \<or> name = lit ''reconnect_failed''"
| "announces _ \<longleftrightarrow> False"

definition announced :: "app_event list manager_scheme \<Rightarrow> app_event list" where
  "announced s = filter announces (manager.more s)"

definition attempt_event :: "nat \<Rightarrow> app_event" where
  "attempt_event k = M_event (lit ''reconnect_attempt'') [JNum (js_nat k)]"

definition failed_event :: app_event where
  "failed_event = M_event (lit ''reconnect_failed'') []"

lemma filter_emission: "filter announces (emission name args s) = filter announces [M_event (lit name) args]"
proof -
  have "filter announces (map (\<lambda>(_, k). S_event k vs None) ns) = []" for vs and ns :: "(jsstr \<times> nat) list"
    by (induction ns) auto
  then show ?thesis by (simp add: emission_def)
qed

lemma filter_emissions [simp]:
  "filter announces (emission ''reconnect_attempt'' [JNum (js_nat k)] s) = [attempt_event k]"
  "filter announces (emission ''reconnecting'' args s) = []" "filter announces (emission ''connect_error'' args s) = []"
  "filter announces (emission ''reconnect_error'' args s) = []" "filter announces (emission ''reconnect_failed'' [] s) = [failed_event]"
  unfolding filter_emission by (simp_all add: attempt_event_def failed_event_def lit_def)

lemma failed_attempt:
  fixes s :: "app_event list manager_scheme" and b :: browser and n :: nat and e :: jsstr
  assumes "retrying N s"
  defines "v \<equiv> attempt_fails b logger (Suc n) e s" and "k \<equiv> attempts (m_backoff s)"
  shows "k < N \<Longrightarrow> retrying N v \<and> attempts (m_backoff v) = Suc k \<and> announced v = announced s @ [attempt_event k]"
    "\<not> k < N \<Longrightarrow> m_readyState v = RS_closed \<and> \<not> reconnecting v \<and> reconnect_timer v = None \<and>
       announced v = announced s @ [attempt_event k, failed_event]"
proof -
  from attempt_opens [OF assms(1), of b "Suc n"] obtain t where t: "manager_step b logger (Suc n) G_reconnect_timer s = t"
    "subs t = [(engine_no t, Sub_open Reconnect_fn), (engine_no t, Sub_connect_error Reconnect_fn)]" "engine_no t > 0"
    "has_transport t \<longrightarrow> listening t" "\<not> has_transport t \<longrightarrow> no_transports_timer t"
    "reconnectionAttempts t = Some N" "\<not> skipReconnect t"
    and same: "m_backoff t = m_backoff s" "m_uri t = m_uri s" "m_opts t = m_opts s"
      "manager.more t = manager.more s @ emission ''reconnect_attempt'' [JNum (js_nat (attempts (m_backoff s)))] s @
         emission ''reconnecting'' [JNum (js_nat (attempts (m_backoff s)))] s"
    by blast
  from engine_fails [OF t(2-), of b n e] obtain d u where u: "engine.more u = engine.more t"
    "engine.more (manager_step b logger (Suc n) (G_engine (if has_transport t then I_transport_error e else I_no_transports)) t) =
       engine.more (connect_error logger Reconnect_fn d u)" by blast
  note ut = manager_fields [OF u(1)]
  have "engine.more v = engine.more (connect_error logger Reconnect_fn d u)"
    using u(2) by (simp only: v_def attempt_fails_def t(1) Let_def)
  note vc = manager_fields [OF this]
  have ok: "reconnectionAttempts u = Some N" "\<not> skipReconnect u" using t(6,7) ut by simp_all
  note ce = connect_error_log [OF ok, of d]
  have "announced s @ [attempt_event k] = filter announces (manager.more u)"
    by (simp add: announced_def ut same k_def)
  note facts = this vc ce(1-7) ut same
  have open_ok: "can_open (m_uri s) (m_opts s)" using assms(1) by (simp add: retrying_def)
  show "k < N \<Longrightarrow> retrying N v \<and> attempts (m_backoff v) = Suc k \<and> announced v = announced s @ [attempt_event k]"
    using ce(8) by (simp add: facts retrying_def open_ok k_def announced_def)
  show "\<not> k < N \<Longrightarrow> m_readyState v = RS_closed \<and> \<not> reconnecting v \<and> reconnect_timer v = None \<and>
       announced v = announced s @ [attempt_event k, failed_event]"
    using ce(9) by (simp add: facts k_def announced_def)
qed

lemma failed_attempts:
  fixes s :: "app_event list manager_scheme"
  assumes "retrying N s" "attempts (m_backoff s) + j \<le> N"
  shows "retrying N ((attempt_fails b logger (Suc n) e ^^ j) s) \<and>
    attempts (m_backoff ((attempt_fails b logger (Suc n) e ^^ j) s)) = attempts (m_backoff s) + j \<and>
    announced ((attempt_fails b logger (Suc n) e ^^ j) s) =
      announced s @ map attempt_event [attempts (m_backoff s)..<attempts (m_backoff s) + j]"
  using assms
proof (induction j)
  case (Suc j)
  then have IH: "retrying N ((attempt_fails b logger (Suc n) e ^^ j) s)"
    "attempts (m_backoff ((attempt_fails b logger (Suc n) e ^^ j) s)) = attempts (m_backoff s) + j"
    "announced ((attempt_fails b logger (Suc n) e ^^ j) s) = announced s @ map attempt_event [attempts (m_backoff s)..<attempts (m_backoff s) + j]"
    by simp_all
  show ?case using failed_attempt(1) [OF IH(1), of b n e] IH(2,3) Suc.prems(2) by simp
qed simp


fun opens :: "manager_input \<Rightarrow> bool" where
  "opens (G_open fn) \<longleftrightarrow> True"
| "opens (G_socket _ _) \<longleftrightarrow> True"
| "opens (G_socket_open _) \<longleftrightarrow> True"
| "opens _ \<longleftrightarrow> False"

context application
begin

lemma stays_step:
  assumes "skipReconnect s" "\<not> opens i"
  shows "stays s (manager_step b ah n i s)"
proof -
  note hook = connected_manager_hook [OF application_axioms, of n b]
  have g: "stays s s'" if "good s s'" for s' using that by (simp add: good_def safe_def)
  show ?thesis
  proof (cases i)
    case (G_engine e)
    then show ?thesis
      using connected_application.stays_close(2) [OF hook, of s b e] by (simp add: stays_def)
  next
    case G_reconnect_timer
    then show ?thesis using assms(1) by (simp add: reconnect_timer_fires_def stays_def)
  qed (use assms(2) g in \<open>simp_all add: good_reader_finishes connected_application.good_connect_timeout [OF hook]
      connected_application.good_manager_close [OF hook] connected_application.good_socket_close [OF hook]
      good_socket_emit good_call_ack compress_def good_upd_field\<close>)
qed

lemma stays_steps: "skipReconnect s \<Longrightarrow> list_all (\<lambda>i. \<not> opens i) ins \<Longrightarrow> stays s (fold (manager_step b ah n) ins s)"
proof (induction ins arbitrary: s)
  case (Cons i ins)
  have "stays s (manager_step b ah n i s)" using Cons.prems by (intro stays_step) simp_all
  moreover from this have "stays (manager_step b ah n i s) (fold (manager_step b ah n) ins (manager_step b ah n i s))"
    using Cons.prems by (intro Cons.IH) (simp_all add: stays_def)
  ultimately show ?case using stays_trans by simp
qed (simp add: stays_def)

end

lemma skip_after_close:
  "connected_application ah eh \<Longrightarrow> skipReconnect (manager_close b eh s)"
proof -
  assume c: "connected_application ah eh"
  let ?t = "s\<lparr>skipReconnect := True\<rparr>"
  have "manager_close b eh s = manager_close b eh ?t" by (simp add: manager_close_def)
  moreover have "good ?t (manager_close b eh ?t)" by (rule connected_application.good_manager_close [OF c])
  ultimately show ?thesis by (simp add: good_def safe_def stays_def)
qed

text \<open>
  C12. Once the application has closed the manager, nothing but opening makes it connect again: no timer, message or
  error of the connection, and no listener that does not open, creates another engine.
\<close>

theorem closed_manager_stays_closed:
  assumes "list_all (\<lambda>i. \<not> opens i) ins"
  shows "engine_no (fold (manager_step b (scripted_app m b react) n) ins (manager_step b (scripted_app m b react) n G_close s)) =
    engine_no (manager_step b (scripted_app m b react) n G_close s)"
  using scripted_application.stays_steps [OF skip_after_close [OF connected_manager_hook [OF application_scripted]] assms(1)]
  by (simp add: stays_def)

subsection \<open>Sockets before and after the connection\<close>

lemma m_packet_more [simp]: "manager.more (m_packet b x s) = manager.more s"
proof (induction b x s rule: m_packet.induct)
  case (1 b x s)
  obtain p q where x: "with_query x = (p, q)" by fastforce
  have "manager.more (write_all b fs t) = manager.more t" for fs and t :: "'a manager_scheme"
    using manager_fields(12) [OF more_write_all] .
  then show ?case using 1 [OF x [symmetric] refl _ _ refl]
    by (simp add: m_packet.simps [of b x s] x Let_def split: list.split)
qed

text \<open>
  \<open>recorded s es t\<close>: from \<open>s\<close> to \<open>t\<close> the application has got the events \<open>es\<close>, and nothing went to the connection.
\<close>

definition same_sockets :: "io_socket list \<Rightarrow> io_socket list \<Rightarrow> bool" where
  "same_sockets xs ys \<longleftrightarrow> map (\<lambda>x. x\<lparr>io_id := JUndef\<rparr>) xs = map (\<lambda>x. x\<lparr>io_id := JUndef\<rparr>) ys"

definition recorded :: "app_event list manager_scheme \<Rightarrow> app_event list \<Rightarrow> app_event list manager_scheme \<Rightarrow> bool" where
  "recorded s es t \<longleftrightarrow> engine.truncate t = engine.truncate s \<and> engine_no t = engine_no s \<and> encoding t = encoding s \<and>
     packetBuffer t = packetBuffer s \<and> manager.more t = manager.more s @ es \<and> same_sockets (sockets t) (sockets s)"

lemma recorded_trans: "recorded s es t \<Longrightarrow> recorded t es' u \<Longrightarrow> recorded s (es @ es') u"
  by (simp add: recorded_def same_sockets_def)

lemma same_sockets_fields:
  assumes "same_sockets xs ys"
  shows "length xs = length ys" "k < length ys \<Longrightarrow> (xs ! k)\<lparr>io_id := JUndef\<rparr> = (ys ! k)\<lparr>io_id := JUndef\<rparr>"
proof -
  have eq: "map (\<lambda>x. x\<lparr>io_id := JUndef\<rparr>) xs = map (\<lambda>x. x\<lparr>io_id := JUndef\<rparr>) ys"
    using assms by (simp only: same_sockets_def)
  show len: "length xs = length ys" using map_eq_imp_length_eq [OF eq] .
  assume "k < length ys"
  then show "(xs ! k)\<lparr>io_id := JUndef\<rparr> = (ys ! k)\<lparr>io_id := JUndef\<rparr>"
    using arg_cong [OF eq, of "\<lambda>zs. zs ! k"] len by (simp only: nth_map)
qed

lemma io_id_fields:
  assumes "x\<lparr>io_id := JUndef\<rparr> = y\<lparr>io_id := JUndef\<rparr>"
  shows "receiveBuffer x = receiveBuffer y" "sendBuffer x = sendBuffer y" "connected x = connected y" "io_nsp x = io_nsp y"
  using assms by (cases x, cases y, simp)+

lemma recorded_sock:
  assumes "recorded s es t" "k < length (sockets s)"
  shows "receiveBuffer (sock k t) = receiveBuffer (sock k s)" "sendBuffer (sock k t) = sendBuffer (sock k s)"
    "connected (sock k t) = connected (sock k s)" "io_nsp (sock k t) = io_nsp (sock k s)" "length (sockets t) = length (sockets s)"
proof -
  have same: "same_sockets (sockets t) (sockets s)" using assms(1) by (simp add: recorded_def)
  from io_id_fields [OF same_sockets_fields(2) [OF same assms(2)]]
  show "receiveBuffer (sock k t) = receiveBuffer (sock k s)" "sendBuffer (sock k t) = sendBuffer (sock k s)"
    "connected (sock k t) = connected (sock k s)" "io_nsp (sock k t) = io_nsp (sock k s)"
    by (simp_all only: sock_def)
  show "length (sockets t) = length (sockets s)" by (rule same_sockets_fields(1) [OF same])
qed

lemma local_emit_recorded: "recorded s [S_event k args h] (local_emit logger k args h s)"
proof -
  have "same_sockets ((sockets s)[k := (sockets s ! k)\<lparr>io_id := v\<rparr>]) (sockets s)" for v
    unfolding same_sockets_def
    by (rule nth_equalityI) (cases "k < length (sockets s)"; auto simp: nth_list_update list_update_beyond)+
  then show ?thesis
    by (simp add: recorded_def local_emit_def logger_apply onConnecting_def upd_def engine.truncate_def same_sockets_def)
qed

lemma emit_received_recorded: "recorded s [S_event k vs h] (emit_received logger k (JArr vs, h) s)"
  by (simp add: emit_received_def local_emit_recorded)

lemma emit_all_recorded:
  "recorded s (map (\<lambda>vs. S_event k vs None) vss) (fold (emit_received logger k) (map (\<lambda>vs. (JArr vs, None)) vss) s)"
proof (induction vss arbitrary: s)
  case Nil
  then show ?case by (simp add: recorded_def same_sockets_def)
next
  case (Cons vs vss)
  from recorded_trans [OF emit_received_recorded Cons.IH] show ?case by simp
qed

text \<open>Packets of a socket that do not wait for file readers are written in their order.\<close>

definition idle_online :: "'w manager_scheme \<Rightarrow> bool" where
  "idle_online s \<longleftrightarrow> online s \<and> \<not> encoding s \<and> packetBuffer s = []"

definition in_namespace :: "nat \<Rightarrow> 'w manager_scheme \<Rightarrow> io_packet \<Rightarrow> io_packet" where
  "in_namespace k s p = p\<lparr>nsp := Some (io_nsp (sock k s))\<rparr>"

lemma socket_packet_moves:
  assumes "idle_online s" "\<not> waits_for_readers p"
  shows "moved b s (map message (frames_of (in_namespace k s p))) (socket_packet b k p None s)"
    "idle_online (socket_packet b k p None s)"
proof -
  have "\<not> waits_for_readers (fst (with_query (in_namespace k s p, None)))"
    using assms(2) by (simp add: plain_query waits_for_readers_def in_namespace_def)
  then have w: "list_all (\<lambda>x. \<not> waits_for_readers (fst (with_query x))) ((in_namespace k s p, None) # packetBuffer s)"
    using assms(1) by (simp add: idle_online_def)
  have on: "online s" "\<not> encoding s" "packetBuffer s = []" using assms(1) by (simp_all add: idle_online_def)
  have eq: "socket_packet b k p None s = m_packet b (in_namespace k s p, None) s"
    by (simp add: socket_packet_def in_namespace_def)
  note m = m_packet_moves [OF on(1,2) w, of b]
  from m(1) show move: "moved b s (map message (frames_of (in_namespace k s p))) (socket_packet b k p None s)"
    by (simp add: eq on(3) frames_with_query_def plain_query)
  show "idle_online (socket_packet b k p None s)"
    using m(2-4) online_moved [OF on(1) move] by (simp add: eq idle_online_def)
qed

lemma more_socket_packet [simp]: "manager.more (socket_packet b k p q s) = manager.more s"
  by (simp add: socket_packet_def)

lemma sock_socket_packet [simp]: "sock j (socket_packet b k p q s) = sock j s" "in_namespace j (socket_packet b k p q s) = in_namespace j s"
  by (simp_all add: sock_def in_namespace_def fun_eq_iff)

lemma socket_packets_move:
  fixes b :: browser and k :: nat
  assumes "idle_online s" "list_all (\<lambda>p. \<not> waits_for_readers p) ps"
  defines "t \<equiv> fold (\<lambda>p. socket_packet b k p None) ps s"
  shows "moved b s (map message (concat (map (frames_of \<circ> in_namespace k s) ps))) t \<and> idle_online t \<and> manager.more t = manager.more s \<and>
    sockets t = sockets s"
  unfolding t_def using assms(1,2)
proof (induction ps arbitrary: s)
  case Nil
  then show ?case by (simp add: moved_refl idle_online_def online_def)
next
  case (Cons p ps)
  then have p: "\<not> waits_for_readers p" by simp
  note one = socket_packet_moves [OF Cons.prems(1) p, of b k]
  have rest: "moved b (socket_packet b k p None s)
      (map message (concat (map (frames_of \<circ> in_namespace k s) ps))) (fold (\<lambda>p. socket_packet b k p None) ps (socket_packet b k p None s)) \<and>
    idle_online (fold (\<lambda>p. socket_packet b k p None) ps (socket_packet b k p None s)) \<and>
    manager.more (fold (\<lambda>p. socket_packet b k p None) ps (socket_packet b k p None s)) = manager.more s \<and>
    sockets (fold (\<lambda>p. socket_packet b k p None) ps (socket_packet b k p None s)) = sockets s"
    using Cons.IH [OF one(2)] Cons.prems(2) by (simp add: comp_def)
  from moved_trans [OF one(1) conjunct1 [OF rest]] rest show ?case by (simp add: comp_def)
qed

text \<open>What happens to a socket that is not connected yet: the application emits, and events arrive.\<close>

definition unused :: "io_socket \<Rightarrow> bool" where
  "unused x \<longleftrightarrow> \<not> connected x \<and> sendBuffer x = [] \<and> receiveBuffer x = [] \<and> flags x = None"

datatype offline = Emitted "jsval list" | Received "jsval list"

definition offline_step :: "browser \<Rightarrow> nat \<Rightarrow> offline \<Rightarrow> app_event list manager_scheme \<Rightarrow> app_event list manager_scheme" where
  "offline_step b k x s = (case x of
     Emitted args \<Rightarrow> socket_emit b logger k args None s
   | Received vs \<Rightarrow> onevent logger k (plain_packet EVENT (JArr vs)) s)"

definition emitted :: "offline list \<Rightarrow> jsval list list" where
  "emitted xs = concat (map (\<lambda>x. case x of Emitted args \<Rightarrow> [args] | _ \<Rightarrow> []) xs)"

definition received_events :: "offline list \<Rightarrow> jsval list list" where
  "received_events xs = concat (map (\<lambda>x. case x of Received vs \<Rightarrow> [vs] | _ \<Rightarrow> []) xs)"

fun user_event :: "offline \<Rightarrow> bool" where
  "user_event (Emitted args) \<longleftrightarrow> \<not> is_event (hd args) \<and> \<not> waits_for_readers (event_packet args)"
| "user_event _ \<longleftrightarrow> True"

definition buffers :: "io_packet list \<Rightarrow> jsval list list \<Rightarrow> io_socket \<Rightarrow> io_socket" where
  "buffers ps vss x = x\<lparr>sendBuffer := sendBuffer x @ ps, receiveBuffer := receiveBuffer x @ map (\<lambda>vs. (JArr vs, None)) vss, flags := None\<rparr>"

lemma offline_steps:
  assumes "\<not> connected (sock k s)" "k < length (sockets s)" "list_all user_event xs" "flags (sock k s) = None"
  shows "fold (offline_step b k) xs s =
    s\<lparr>sockets := (sockets s)[k := buffers (map event_packet (emitted xs)) (received_events xs) (sock k s)]\<rparr>"
  using assms
proof (induction xs arbitrary: s)
  case Nil
  then have "buffers [] [] (sock k s) = sock k s" by (simp add: buffers_def)
  then have "(sockets s)[k := buffers [] [] (sock k s)] = sockets s" by (simp add: sock_def)
  then show ?case by (simp add: emitted_def received_events_def)
next
  case (Cons x xs)
  define y where "y = (case x of Emitted args \<Rightarrow> buffers [event_packet args] [] (sock k s) | Received vs \<Rightarrow> buffers [] [vs] (sock k s))"
  have step: "offline_step b k x s = s\<lparr>sockets := (sockets s)[k := y]\<rparr>"
  proof (cases x)
    case (Emitted args)
    then show ?thesis
      using Cons.prems
      by (simp add: offline_step_def socket_emit_def upd_def sock_def y_def buffers_def Let_def)
  next
    case (Received vs)
    have "buffers [] [vs] (sock k s) = (sock k s)\<lparr>receiveBuffer := receiveBuffer (sock k s) @ [(JArr vs, None)]\<rparr>"
      using Cons.prems(4) by (cases "sock k s") (simp add: buffers_def)
    then show ?thesis
      using Received Cons.prems
      by (simp add: offline_step_def onevent_def plain_packet_def deliver_def upd_def y_def Let_def flip: sock_def)
  qed
  have y: "connected y = connected (sock k s)" "flags y = None"
    using Cons.prems(4) by (auto simp: y_def buffers_def split: offline.split)
  have "fold (offline_step b k) xs (s\<lparr>sockets := (sockets s)[k := y]\<rparr>) =
      s\<lparr>sockets := (sockets s)[k := buffers (map event_packet (emitted xs)) (received_events xs) y]\<rparr>"
    using Cons.IH [of "s\<lparr>sockets := (sockets s)[k := y]\<rparr>"] Cons.prems y by (simp add: sock_def)
  moreover have "buffers (map event_packet (emitted xs)) (received_events xs) y =
      buffers (map event_packet (emitted (x # xs))) (received_events (x # xs)) (sock k s)"
    by (cases x) (simp_all add: y_def buffers_def emitted_def received_events_def)
  ultimately show ?case by (simp add: step)
qed

lemma connect_order:
  fixes s :: "app_event list manager_scheme" and b :: browser
  assumes "idle_online s" "k < length (sockets s)" "list_all (\<lambda>p. \<not> waits_for_readers p) (sendBuffer (sock k s))"
    "receiveBuffer (sock k s) = map (\<lambda>vs. (JArr vs, None)) vss"
  defines "u \<equiv> onconnect b logger k s"
  shows "manager.more u = manager.more s @ S_event k [JStr (lit ''connect'')] None # map (\<lambda>vs. S_event k vs None) vss"
    "moved b s (map message (concat (map (frames_of \<circ> in_namespace k s) (sendBuffer (sock k s))))) u"
    "connected (sock k u)" "sendBuffer (sock k u) = []" "receiveBuffer (sock k u) = []"
proof -
  define t0 where "t0 = upd k (\<lambda>x. x\<lparr>connected := True, disconnected := False\<rparr>) s"
  define t1 where "t1 = local_emit logger k [JStr (lit ''connect'')] None t0"
  define t2 where "t2 = fold (emit_received logger k) (map (\<lambda>vs. (JArr vs, None)) vss) t1"
  define t3 where "t3 = upd k (\<lambda>x. x\<lparr>receiveBuffer := []\<rparr>) t2"
  define t4 where "t4 = fold (\<lambda>p. socket_packet b k p None) (sendBuffer (sock k s)) t3"
  have t0: "engine.truncate t0 = engine.truncate s" "engine_no t0 = engine_no s" "encoding t0 = encoding s"
    "packetBuffer t0 = packetBuffer s" "manager.more t0 = manager.more s" "length (sockets t0) = length (sockets s)"
    "sock k t0 = (sock k s)\<lparr>connected := True, disconnected := False\<rparr>"
    using assms(2) by (simp_all add: t0_def, simp_all add: upd_def sock_def)
  have r1: "recorded t0 [S_event k [JStr (lit ''connect'')] None] t1" unfolding t1_def by (rule local_emit_recorded)
  have r2: "recorded t1 (map (\<lambda>vs. S_event k vs None) vss) t2" unfolding t2_def by (rule emit_all_recorded)
  have r: "recorded t0 (S_event k [JStr (lit ''connect'')] None # map (\<lambda>vs. S_event k vs None) vss) t2"
    using recorded_trans [OF r1 r2] by simp
  have k0: "k < length (sockets t0)" using assms(2) t0 by simp
  note s1 = recorded_sock [OF r1 k0] and s2 = recorded_sock [OF r k0]
  have sock3: "sock k t3 = (sock k t2)\<lparr>receiveBuffer := []\<rparr>" "length (sockets t3) = length (sockets s)"
    using s2(5) k0 t0(6) by (simp_all add: t3_def upd_def sock_def)
  have u: "u = upd k (\<lambda>x. x\<lparr>sendBuffer := []\<rparr>) t4"
    using s1 s2 sock3 t0(7) assms(4)
    by (simp add: u_def onconnect_def emitBuffered_def t0_def [symmetric] t1_def [symmetric] t2_def [symmetric]
        t3_def [symmetric] t4_def Let_def)
  have t3: "engine.truncate t3 = engine.truncate s" "engine_no t3 = engine_no s" "encoding t3 = encoding s"
    "packetBuffer t3 = packetBuffer s"
    "manager.more t3 = manager.more s @ S_event k [JStr (lit ''connect'')] None # map (\<lambda>vs. S_event k vs None) vss"
    using r t0 by (simp_all add: t3_def recorded_def, simp_all add: upd_def)
  have "idle_online t3" using assms(1) t3 online_same [OF t3(1,2)] by (simp add: idle_online_def)
  note sent = socket_packets_move [OF this assms(3), of b k, folded t4_def]
  have ns: "in_namespace k t3 = in_namespace k s"
    using sock3 s2(4) t0(7) by (simp add: in_namespace_def fun_eq_iff)
  have u4: "engine.truncate u = engine.truncate t4" "manager.more u = manager.more t4"
    "sock k u = (sock k t3)\<lparr>sendBuffer := []\<rparr>"
    using sent sock3(2) assms(2) by (simp_all add: u, simp_all add: upd_def sock_def)
  show "manager.more u = manager.more s @ S_event k [JStr (lit ''connect'')] None # map (\<lambda>vs. S_event k vs None) vss"
    using u4(2) sent t3(5) by simp
  show "moved b s (map message (concat (map (frames_of \<circ> in_namespace k s) (sendBuffer (sock k s))))) u"
    using sent moved_same [OF t3(1) u4(1) [symmetric]] ns by simp
  show "connected (sock k u)" "sendBuffer (sock k u) = []" "receiveBuffer (sock k u) = []"
    using u4(3) sock3(1) s2(3) t0(7) by simp_all
qed

text \<open>
  C9. A socket loses nothing of what happens before it is connected: when the server's \<open>CONNECT\<close> arrives, the
  application gets \<open>connect\<close> and then the events that arrived before, in order, and the packets it emitted before
  go out in the order in which it emitted them.
\<close>

theorem socket_connects_in_order:
  fixes s :: "app_event list manager_scheme"
  assumes "idle_online s" "k < length (sockets s)" "unused (sock k s)" "list_all user_event xs"
    and s': "s' = fold (offline_step b k) xs s"
    and p: "ptype p = CONNECT" "nsp p = Some (io_nsp (sock k s))"
    and u: "u = onpacket b (scripted_app 0 b react) eh p k s'"
  shows "manager.more u = manager.more s @ S_event k [JStr (lit ''connect'')] None # map (\<lambda>vs. S_event k vs None) (received_events xs) \<and>
    moved b s (map message (concat (map (\<lambda>args. frames_of (in_namespace k s (event_packet args))) (emitted xs)))) u \<and>
    connected (sock k u) \<and> sendBuffer (sock k u) = [] \<and> receiveBuffer (sock k u) = []"
proof -
  have "\<not> connected (sock k s)" "flags (sock k s) = None" using assms(3) by (simp_all add: unused_def)
  note run = offline_steps [OF this(1) assms(2,4) this(2), of b, folded s']
  have b': "sendBuffer (sock k s') = map event_packet (emitted xs)" "receiveBuffer (sock k s') = map (\<lambda>vs. (JArr vs, None)) (received_events xs)"
    "io_nsp (sock k s') = io_nsp (sock k s)" "in_namespace k s' = in_namespace k s" "k < length (sockets s')"
    using assms(2,3) by (simp_all add: run unused_def, simp_all add: buffers_def sock_def in_namespace_def fun_eq_iff)
  have same: "engine.truncate s' = engine.truncate s" "manager.more s' = manager.more s" "idle_online s'"
    using assms(1) by (simp_all add: run idle_online_def online_def flowing_def live_def engine.truncate_def)
  have ready: "list_all (\<lambda>p. \<not> waits_for_readers p) (sendBuffer (sock k s'))"
    using assms(4) unfolding b' by (induction xs) (auto simp: emitted_def elim: user_event.elims split: offline.splits)
  have "u = onconnect b logger k s'" using p b'(3) by (simp add: u onpacket_def)
  with connect_order [OF same(3) b'(5) ready b'(2), of b] show ?thesis
    using moved_same [OF same(1) refl] same(2) by (simp add: b' comp_def)
qed

text \<open>
  The function an event hands to its listeners for the acknowledgement sends at most one packet.
\<close>

theorem ack_sent_once:
  assumes "k < length (sockets s)" "h < length (ack_calls (sock k s))"
  shows "call_ack b k h args' (call_ack b k h args s) = call_ack b k h args s"
proof -
  obtain i sent where a: "ack_calls (sock k s) ! h = (i, sent)" by fastforce
  show ?thesis
  proof (cases sent)
    case True
    then show ?thesis using a by (simp add: call_ack_def)
  next
    case False
    have "ack_calls (sock k (call_ack b k h args s)) ! h = (i, True)"
      using assms a False by (simp add: call_ack_def, simp add: upd_def sock_def)
    then show ?thesis by (simp add: call_ack_def [of b k h args'])
  qed
qed

subsection \<open>From an emitted event to the packet the server gets\<close>

definition event_of :: "nat \<Rightarrow> jsval list \<Rightarrow> nat option \<Rightarrow> 'w manager_scheme \<Rightarrow> io_packet" where
  "event_of k args cb s = (in_namespace k s (event_packet args))\<lparr>pid := map_option (\<lambda>_. js_nat (ids (sock k s))) cb\<rparr>"

lemma engine_write_writable:
  assumes "online s" "writable s" "kind s \<noteq> WS"
    "encodePayload (eio_env.truncate b) [0] (transport.supportsBinary s) [message f] = Inr [w]"
  shows "actions (engine_write b silent (to_engine f) s) = actions s @ [A_post w]"
proof -
  let ?t = "s\<lparr>writeBuffer := [message f]\<rparr>"
  have s: "readyState s = RS_open" "has_transport s" "tstate s = TS_open" "\<not> upgrading s" "writeBuffer s = []"
    using assms(1,2) by (simp_all add: online_def flowing_def)
  have w: "engine_write b silent (to_engine f) s = flush b silent ?t"
    using s by (simp add: engine_write_def sendPacket_def message_def Let_def)
  have "actions (flush b silent ?t) = actions ?t @ batch_actions b ?t (writeBuffer ?t)"
    by (rule silent_passive.flush_writable(1)) (use s assms(2) in simp_all)
  then show ?thesis using assms(3,4) by (simp add: w batch_actions_def)
qed

lemma socket_emit_writable:
  assumes "idle_online s" "k < length (sockets s)" "connected (sock k s)" "\<not> is_event (hd args)" "writable s" "kind s \<noteq> WS"
    "\<not> waits_for_readers (event_packet args)" "frames_of (event_of k args cb s) = [f]"
    "encodePayload (eio_env.truncate b) [0] (transport.supportsBinary s) [message f] = Inr [w]"
  shows "actions (socket_emit b ah k args cb s) = actions s @ [A_post w]"
proof -
  define u where "u = (case cb of None \<Rightarrow> s | Some c \<Rightarrow> upd k (\<lambda>x. x\<lparr>acks := acks x @ [(ids (sock k s), c)], ids := ids (sock k s) + 1\<rparr>) s)"
  let ?p = "event_of k args cb s"
  let ?v = "u\<lparr>encoding := True\<rparr>"
  have u: "engine.truncate u = engine.truncate s" "engine_no u = engine_no s" "\<not> encoding u" "packetBuffer u = []"
    "connected (sock k u)" "in_namespace k u = in_namespace k s"
    using assms(1-3)
    by (simp_all add: u_def idle_online_def upd_def engine.truncate_def sock_def in_namespace_def fun_eq_iff split: option.split)
  have on: "online ?v" using assms(1) online_same [of ?v s] u by (simp add: idle_online_def)
  have t: "writable ?v" "kind ?v \<noteq> WS" "transport.supportsBinary ?v = transport.supportsBinary s" "actions ?v = actions s" "engine_no ?v \<noteq> 0"
    using u(1,2) assms(1,5,6) by (simp_all add: engine.truncate_def idle_online_def online_def)
  have w: "write_all b [f] ?v = engine_write b silent (to_engine f) ?v"
    using t(5) by (simp add: write_all_def)
  have "socket_packet b k ((event_packet args)\<lparr>pid := map_option (\<lambda>_. js_nat (ids (sock k s))) cb\<rparr>) None u = m_packet b (?p, None) u"
    using arg_cong [OF u(6), of "\<lambda>f. f (event_packet args)"]
    by (cases "event_packet args") (simp add: socket_packet_def event_of_def in_namespace_def)
  also have "\<dots> = (write_all b [f] ?v)\<lparr>encoding := False\<rparr>"
  proof -
    have "\<not> waits_for_readers ?p" using assms(7) by (simp add: waits_for_readers_def event_of_def in_namespace_def)
    moreover have "concat (Encoder_encode json3_stringify [] ?p) = [f]" using assms(8) by (simp only: frames_of_def)
    ultimately show ?thesis
      using u(3,4) packetBuffer_more [OF more_write_all, of b "[f]" ?v] by (simp add: m_packet.simps plain_query Let_def)
  qed
  finally have "actions (socket_emit b ah k args cb s) = actions (write_all b [f] ?v)"
    using assms(4) u(5)
    by (cases cb) (simp_all add: socket_emit_def u_def event_packet_def plain_packet_def Let_def, simp_all add: upd_def)
  also have "\<dots> = actions s @ [A_post w]"
    unfolding w using engine_write_writable [OF on t(1,2)] assms(9) t(3,4) by simp
  finally show ?thesis .
qed

text \<open>
  C1. What an application emits arrives: on a connected socket with an idle polling connection, \<open>emit\<close> of plain arguments
  posts one payload, from which the other side decodes one message, from which the other side's decoder emits
  exactly the event, with its namespace and the id of its acknowledgement.
\<close>

theorem emitted_event_arrives:
  assumes "idle_online s" "k < length (sockets s)" "connected (sock k s)" "\<not> is_event (hd args)" "writable s" "kind s \<noteq> WS"
    "\<not> hasBinary (JArr args)" "json_plain (JArr args)" "header_ok (event_of k args cb s)"
    "list_all (\<lambda>f. payload_ok (parser_env b) [message f]) (frames_of (event_of k args cb s))"
  shows "\<exists>w m. actions (socket_emit b ah k args cb s) = actions s @ [A_post w] \<and>
    decodePayload (parser_env b) blobType collect (transferred w) [] = Inr [m] \<and> etype m = P_message \<and>
    add json_parse (from_engine (edata m)) d = (d, [event_of k args cb s], None)"
proof -
  let ?p = "event_of k args cb s"
  have p: "ptype ?p = EVENT" "attachments ?p = None" "pdata ?p = JArr args"
    using assms(7) by (simp_all add: event_of_def in_namespace_def event_packet_def plain_packet_def)
  have event: "\<not> is_binary_type EVENT" by (simp add: is_binary_type_def packet_type_defs)
  have plain: "\<not> waits_for_readers (event_packet args)"
    using assms(7) event by (simp add: waits_for_readers_def event_packet_def plain_packet_def)
  have ready: "frames_of ?p = [JStr (encodeAsString json3_stringify ?p)]"
    using event p(1) by (simp add: frames_of_def Encoder_encode_def)
  obtain frames where "Encoder_encode json3_stringify [] ?p = [frames]" "add_all json_parse frames d = (d, [?p], None)"
    using json3.text_pipeline [OF assms(9), of args d] event p assms(8) by auto
  then have dec: "add_all json_parse [JStr (encodeAsString json3_stringify ?p)] d = (d, [?p], None)"
    using ready by (simp add: frames_of_def)
  define f where "f = JStr (encodeAsString json3_stringify ?p)"
  have ok: "payload_ok (parser_env b) [message f]" using assms(10) by (simp add: ready f_def)
  obtain w where w: "encodePayload (parser_env b) [0..<length [message f]] (transport.supportsBinary s) [message f] = Inr [w]"
    "decodePayload (parser_env b) blobType collect (transferred w) [] = Inr (map (received (parser_env b) blobType) [message f])"
    using payload_arrives [OF completion_order_upt ok] by blast
  have sent: "actions (socket_emit b ah k args cb s) = actions s @ [A_post w]"
    by (rule socket_emit_writable [OF assms(1-6) plain, of cb f]) (use w(1) ready in \<open>simp_all add: f_def parser_env_def\<close>)
  have "js_String (js_nat (ptype ?p)) \<noteq> []"
    unfolding p(1) by (simp add: packet_type_defs js_String_nat nat_digits_single)
  then have ne: "encodeAsString json3_stringify ?p \<noteq> []"
    by (auto simp: encodeAsString_def Let_def split: option.split)
  have m: "etype (received (parser_env b) blobType (message f)) = P_message"
    "from_engine (edata (received (parser_env b) blobType (message f))) = f"
    using ne by (simp_all add: received_def message_def f_def)
  have "add json_parse f d = (d, [?p], None)"
    using dec by (simp add: f_def split: prod.splits option.splits)
  then show ?thesis
    using sent w(2) m by (intro exI [of _ w] exI [of _ "received (parser_env b) blobType (message f)"]) simp
qed

subsection \<open>Acknowledgements\<close>

lemma onack_finds:
  assumes "acks (sock k s) = as @ [(i, c)]" "\<forall>(j, _) \<in> set as. j < i" "i < 2 ^ 53" "pid p = Some (js_nat i)" "pdata p = JArr vs"
    "k < length (sockets s)"
  defines "u \<equiv> onack logger k p s"
  shows "manager.more u = manager.more s @ [A_call k c vs]" "acks (sock k u) = as" "onack logger k p u = u"
proof -
  have other: "js_nat i \<noteq> js_nat j" if "(j, c') \<in> set as" for j c'
  proof
    assume eq: "js_nat i = js_nat j"
    have "j < i" using assms(2) that by auto
    moreover have "i = j" by (rule js_nat_inject [OF eq]) (use \<open>j < i\<close> assms(3) in simp)
    ultimately show False by simp
  qed
  then have none: "find (\<lambda>(j, c). pid p = Some (js_nat j)) as = None"
    using assms(4) by (auto simp: find_None_iff)
  have "find P (xs @ [y]) = Some y" if "find P xs = None" "P y" for P :: "nat \<times> nat \<Rightarrow> bool" and xs y
    using that by (induction xs) (auto split: if_splits)
  from this [OF none] have found: "find (\<lambda>(j, c). pid p = Some (js_nat j)) (acks (sock k s)) = Some (i, c)"
    using assms(1,4) by simp
  have rest: "filter (\<lambda>(j, _). j \<noteq> i) (as @ [(i, c)]) = as"
    using assms(2) by (auto intro!: filter_True)
  have u: "u = upd k (\<lambda>x. x\<lparr>acks := filter (\<lambda>(j, _). j \<noteq> i) (acks x)\<rparr>) (logger (A_call k c vs) s)"
    using found assms(5) by (simp add: u_def onack_def)
  show "manager.more u = manager.more s @ [A_call k c vs]" by (simp add: u logger_apply upd_def)
  show as: "acks (sock k u) = as"
    using assms(1,6) rest by (simp add: u logger_apply, simp add: upd_def sock_def)
  show "onack logger k p u = u" using none by (simp add: onack_def as)
qed

text \<open>
  C10. An acknowledgement reaches the callback of its packet, once: after \<open>emit\<close> with a callback, the \<open>ACK\<close> with the id of the
  packet calls this callback with the data; a second one does nothing.
\<close>

theorem ack_reaches_callback:
  fixes s :: "app_event list manager_scheme"
  assumes "pool_ok s" "k < length (sockets s)" "\<not> is_event (hd args)" "ids (sock k s) < 2 ^ 53"
    and s1: "s1 = socket_emit b (scripted_app 0 b react) k args (Some c) s"
    and "pid p = Some (js_nat (ids (sock k s)))" "pdata p = JArr vs"
    and s2: "s2 = onack (scripted_app 0 b react) k p s1"
  shows "manager.more s2 = manager.more s1 @ [A_call k c vs] \<and> acks (sock k s2) = acks (sock k s) \<and>
    onack (scripted_app 0 b react) k p s2 = s2"
proof -
  have s1': "acks (sock k s1) = acks (sock k s) @ [(ids (sock k s), c)]" "k < length (sockets s1)"
    using assms(2,3) unfolding s1
    by (simp_all add: socket_emit_def Let_def, simp_all add: upd_def sock_def)
  have "socket_ok (sock k s)" using assms(1,2) by (simp add: pool_ok_def list_all_length sock_def)
  then have lt: "\<forall>(j, _) \<in> set (acks (sock k s)). j < ids (sock k s)" by (simp add: socket_ok_def)
  note f = onack_finds [OF s1'(1) lt assms(4,6,7) s1'(2)]
  show ?thesis using f by (simp add: s2)
qed

subsection \<open>Properties\<close>

text \<open>
  C5. A packet with blobs holds its place: while its file readers run nothing is sent, and when the last one has
  finished, in whatever order they do, its frames are written, then those of the packets that came after it, in order.
\<close>

theorem packet_order:
  fixes s :: "'w manager_scheme"
  assumes "online s" "\<not> encoding s" "packetBuffer s = []" "waits_for_readers p" "list_all (\<lambda>p. \<not> waits_for_readers p) ps"
    "distinct_keys (pdata p)" "distinct loads" "set loads = set (blob_paths (pdata p))"
    and s1: "s1 = fold (m_packet b) (map (\<lambda>p. (p, None)) ps) (m_packet b (p, None) s)"
    and s2: "s2 = fold (reader_finishes b (length (encoders s))) loads s1"
  shows "engine.truncate s1 = engine.truncate s \<and>
    moved b s (map message (concat (Encoder_encode json3_stringify loads p) @ concat (map frames_of ps))) s2 \<and>
    \<not> encoding s2 \<and> packetBuffer s2 = []"
  using queue_order [OF assms] by blast


text \<open>A packet that waited in the queue gets its query twice.\<close>

lemma query_twice:
  assumes "encoding s" "packetBuffer s = []" "ptype p = CONNECT" "nsp p = Some n" "q \<noteq> []"
  shows "packetBuffer (m_packet b (p, Some q) s) = [(p\<lparr>nsp := Some (n @ lit ''?'' @ q)\<rparr>, Some q)]"
    "nsp (fst (with_query (hd (packetBuffer (m_packet b (p, Some q) s))))) = Some (n @ lit ''?'' @ q @ lit ''?'' @ q)"
  using assms by (simp_all add: m_packet_waits, simp_all add: with_query_def)

subsection \<open>A manager that runs\<close>

definition sample_manager_opts :: manager_opts where
  "sample_manager_opts = \<lparr>mo_engine = sample_socket_opts, mo_reconnection = None, mo_attempts = Some 2, mo_delay = None,
     mo_delayMax = None, mo_factor = None, mo_timeout = None, mo_autoConnect = None\<rparr>"

definition sample_manager :: "(app_event \<Rightarrow> app_call list) \<Rightarrow> manager_input list \<Rightarrow> app_event list manager_scheme" where
  "sample_manager react ins = fold (manager_step full_browser (scripted_app 1 full_browser react) 2) ins
     (new_manager full_browser None sample_manager_opts (\<lambda>_. 1/2) [])"

definition quiet_app :: "app_event \<Rightarrow> app_call list" where
  "quiet_app ev = []"

text \<open>The manager before it has opened its connection, and with an open polling connection and a socket.\<close>

definition sample_idle :: "app_event list manager_scheme" where
  "sample_idle = new_manager full_browser None (sample_manager_opts\<lparr>mo_autoConnect := Some False\<rparr>) (\<lambda>_. 1/2) []"

definition sample_online :: "io_socket \<Rightarrow> app_event list manager_scheme" where
  "sample_online x = sample_idle\<lparr>readyState := RS_open, m_readyState := RS_open, engine_no := 1, has_transport := True, listening := True,
     tstate := TS_open, writable := True, sockets := [x], nsps := [(io_nsp x, 0)], listeners := [0], connecting := [0]\<rparr>"

definition sample_io_socket :: io_socket where
  "sample_io_socket = (new_socket (lit ''/'') None)\<lparr>subscribed := True\<rparr>"

definition sample_retrying :: "app_event list manager_scheme" where
  "sample_retrying = sample_idle\<lparr>reconnecting := True, reconnect_timer := Some 1000,
     m_backoff := (m_backoff sample_idle)\<lparr>attempts := 1\<rparr>\<rparr>"

lemmas sample_defs = sample_idle_def new_manager_def blank_engine_def sample_manager_opts_def sample_socket_opts_def
  manager.defs engine.defs transport.defs Transport_def

lemma sample_online_ready:
  "idle_online (sample_online x)" "sockets (sample_online x) = [x]" "sock 0 (sample_online x) = x" "writable (sample_online x)"
  "kind (sample_online x) \<noteq> WS"
  by (simp_all add: idle_online_def online_def flowing_def live_def sock_def sample_online_def,
      simp_all add: sample_defs Let_def)

lemma sample_retries: "retrying 2 sample_retrying" "attempts (m_backoff sample_retrying) = 1"
  by (simp_all add: retrying_def sample_retrying_def can_open_def uri_opts_def, simp_all add: sample_defs Let_def)

text \<open>What an application emits when it hears of the connection is sent before what it emitted earlier.\<close>

definition greeter :: "browser \<Rightarrow> nat \<Rightarrow> jsval list \<Rightarrow> app_event list app" where
  "greeter b k args ev s =
     (if ev = S_event k [JStr (lit ''connect'')] None then socket_emit b logger k args None (log_event ev s) else log_event ev s)"

lemma connect_handler_overtakes:
  fixes s :: "app_event list manager_scheme" and b :: browser
  assumes "idle_online s" "k < length (sockets s)" "list_all (\<lambda>p. \<not> waits_for_readers p) (event_packet args # sendBuffer (sock k s))"
    "receiveBuffer (sock k s) = []" "\<not> is_event (hd args)"
  shows "moved b s (map message (frames_of (in_namespace k s (event_packet args)) @
    concat (map (frames_of \<circ> in_namespace k s) (sendBuffer (sock k s))))) (onconnect b (greeter b k args) k s)"
proof -
  define t0 where "t0 = upd k (\<lambda>x. x\<lparr>connected := True, disconnected := False\<rparr>) s"
  define t1 where "t1 = log_event (S_event k [JStr (lit ''connect'')] None) (upd k (\<lambda>x. x\<lparr>io_id := sid t0\<rparr>) t0)"
  define t2 where "t2 = socket_packet b k (event_packet args) None t1"
  define t3 where "t3 = upd k (\<lambda>x. x\<lparr>receiveBuffer := []\<rparr>) (upd k (\<lambda>x. x\<lparr>flags := None\<rparr>) t2)"
  define t4 where "t4 = fold (\<lambda>p. socket_packet b k p None) (sendBuffer (sock k s)) t3"
  have t1: "engine.truncate t1 = engine.truncate s" "engine_no t1 = engine_no s" "encoding t1 = encoding s"
    "packetBuffer t1 = packetBuffer s" "length (sockets t1) = length (sockets s)" "connected (sock k t1)"
    "sendBuffer (sock k t1) = sendBuffer (sock k s)" "receiveBuffer (sock k t1) = []" "in_namespace k t1 = in_namespace k s"
    using assms(2,4)
    by (simp_all add: t1_def t0_def log_event_def, simp_all add: upd_def sock_def in_namespace_def fun_eq_iff engine.truncate_def)
  have idle1: "idle_online t1" using assms(1) t1(3,4) online_same [OF t1(1,2)] by (simp add: idle_online_def)
  have wait: "\<not> waits_for_readers (event_packet args)" "list_all (\<lambda>p. \<not> waits_for_readers p) (sendBuffer (sock k s))"
    using assms(3) by simp_all
  note first = socket_packet_moves [OF idle1 wait(1), of b k, folded t2_def]
  have t2: "sock k t2 = sock k t1" "length (sockets t2) = length (sockets s)"
    using t1(5) by (simp_all add: t2_def)
  have t3: "engine.truncate t3 = engine.truncate t2" "engine_no t3 = engine_no t2" "encoding t3 = encoding t2"
    "packetBuffer t3 = packetBuffer t2" "sendBuffer (sock k t3) = sendBuffer (sock k s)" "in_namespace k t3 = in_namespace k s"
    using t2 t1(7,9) assms(2)
    by (simp_all add: t3_def, simp_all add: upd_def sock_def in_namespace_def fun_eq_iff engine.truncate_def)
  have "idle_online t3" using first(2) t3(3,4) online_same [OF t3(1,2)] by (simp add: idle_online_def)
  note rest = socket_packets_move [OF this wait(2), of b k, folded t4_def]
  have emitted: "local_emit (greeter b k args) k [JStr (lit ''connect'')] None t0 = upd k (\<lambda>x. x\<lparr>flags := None\<rparr>) t2"
  proof -
    have "local_emit (greeter b k args) k [JStr (lit ''connect'')] None t0 = socket_emit b logger k args None t1"
      by (simp add: local_emit_def greeter_def t1_def lit_def)
    also have "\<dots> = upd k (\<lambda>x. x\<lparr>flags := None\<rparr>) t2"
      using assms(5) t1(6) by (simp add: socket_emit_def t2_def Let_def)
    finally show ?thesis .
  qed
  have "receiveBuffer (sock k (upd k (\<lambda>x. x\<lparr>flags := None\<rparr>) t2)) = []"
    using t2 t1(8) assms(2) by (simp add: upd_def sock_def)
  then have u: "onconnect b (greeter b k args) k s = upd k (\<lambda>x. x\<lparr>sendBuffer := []\<rparr>) t4"
    unfolding onconnect_def t0_def [symmetric] emitted emitBuffered_def Let_def
    using t3(5) by (simp add: t3_def [symmetric] t4_def)
  have m1: "moved b s (map message (frames_of (in_namespace k s (event_packet args)))) t3"
    using first(1) moved_same [OF t1(1) t3(1) [symmetric]] t1(9) by simp
  have "moved b t3 (map message (concat (map (frames_of \<circ> in_namespace k s) (sendBuffer (sock k s))))) t4"
    using rest t3(6) by simp
  note all = moved_trans [OF m1 this]
  have same: "engine.truncate (onconnect b (greeter b k args) k s) = engine.truncate t4"
    unfolding u upd_def by (simp add: engine.truncate_def)
  show ?thesis using all by (simp add: moved_same [OF refl same])
qed

subsection \<open>The properties on concrete managers\<close>


theorem closed_manager_stays_closed_witness:
  "let close = manager_step full_browser (scripted_app 1 full_browser quiet_app) 1 G_close sample_retrying in
   engine_no (fold (manager_step full_browser (scripted_app 1 full_browser quiet_app) 1)
     [G_reconnect_timer, G_engine I_post_done, G_connect_timer] close) = engine_no close"
  unfolding Let_def by (rule closed_manager_stays_closed) simp

theorem socket_connects_in_order_witness:
  "let s = sample_online sample_io_socket;
       xs = [Emitted [JStr (lit ''a'')], Received [JStr (lit ''b'')], Emitted [JStr (lit ''c'')]];
       s' = fold (offline_step full_browser 0) xs s;
       u = onpacket full_browser (scripted_app 0 full_browser quiet_app) (\<lambda>ev s. s)
         ((plain_packet CONNECT JUndef)\<lparr>nsp := Some (io_nsp (sock 0 s))\<rparr>) 0 s' in
   manager.more u = manager.more s @ S_event 0 [JStr (lit ''connect'')] None # map (\<lambda>vs. S_event 0 vs None) (received_events xs) \<and>
   moved full_browser s (map message (concat (map (\<lambda>args. frames_of (in_namespace 0 s (event_packet args))) (emitted xs)))) u \<and>
   connected (sock 0 u) \<and> sendBuffer (sock 0 u) = [] \<and> receiveBuffer (sock 0 u) = []"
  unfolding Let_def
  by (rule socket_connects_in_order [OF _ _ _ _ refl _ _ refl])
    (simp_all add: sample_online_ready sample_io_socket_def, simp_all add: unused_def new_socket_def plain_packet_def is_event_def
      events_def waits_for_readers_def event_packet_def packet_type_defs is_binary_type_def lit_def)

theorem ack_sent_once_witness:
  "let s = sample_online (sample_io_socket\<lparr>ack_calls := [(js_nat 3, False)]\<rparr>) in
   call_ack full_browser 0 0 [] (call_ack full_browser 0 0 [JNull] s) = call_ack full_browser 0 0 [JNull] s"
  unfolding Let_def by (rule ack_sent_once) (simp_all add: sample_online_ready)

definition sample_ack :: io_packet where
  "sample_ack = (plain_packet ACK (JArr [JBool True]))\<lparr>pid := Some (js_nat 0)\<rparr>"

theorem ack_reaches_callback_witness:
  "let s = sample_online sample_io_socket;
       s1 = socket_emit full_browser (scripted_app 0 full_browser quiet_app) 0 [JStr (lit ''a'')] (Some 7) s;
       s2 = onack (scripted_app 0 full_browser quiet_app) 0 sample_ack s1 in
   manager.more s2 = manager.more s1 @ [A_call 0 7 [JBool True]] \<and> acks (sock 0 s2) = acks (sock 0 s) \<and>
   onack (scripted_app 0 full_browser quiet_app) 0 sample_ack s2 = s2"
  unfolding Let_def
proof (rule ack_reaches_callback [OF _ _ _ _ refl _ _ refl])
  show "pool_ok (sample_online sample_io_socket)"
    by (auto simp: pool_ok_def sample_online_ready)
      (simp_all add: sample_online_def sample_io_socket_def new_socket_def socket_ok_def)
qed (simp_all add: sample_online_ready sample_io_socket_def new_socket_def sample_ack_def plain_packet_def is_event_def events_def lit_def)

definition sample_blob :: io_packet where
  "sample_blob = (plain_packet BINARY_EVENT (JArr [JStr (lit ''a''), JBlob [1], JBlob [2]]))\<lparr>nsp := Some (lit ''/'')\<rparr>"

definition sample_event :: io_packet where
  "sample_event = (event_packet [JStr (lit ''b'')])\<lparr>nsp := Some (lit ''/'')\<rparr>"

theorem packet_order_witness:
  "let s = sample_online sample_io_socket;
       s1 = fold (m_packet full_browser) (map (\<lambda>p. (p, None)) [sample_event]) (m_packet full_browser (sample_blob, None) s);
       s2 = fold (reader_finishes full_browser (length (encoders s))) [[Index 2], [Index 1]] s1 in
   engine.truncate s1 = engine.truncate s \<and>
   moved full_browser s (map message (concat (Encoder_encode json3_stringify [[Index 2], [Index 1]] sample_blob) @
     concat (map frames_of [sample_event]))) s2 \<and> \<not> encoding s2 \<and> packetBuffer s2 = []"
  unfolding Let_def
proof (rule packet_order [OF _ _ _ _ _ _ _ _ refl refl])
  show "online (sample_online sample_io_socket)" "\<not> encoding (sample_online sample_io_socket)"
    "packetBuffer (sample_online sample_io_socket) = []"
    using sample_online_ready(1) [of sample_io_socket] by (simp_all add: idle_online_def)
qed (auto simp: sample_blob_def sample_event_def plain_packet_def event_packet_def waits_for_readers_def is_binary_type_def packet_type_defs
    enumerate_eq_zip)


lemma sample_frames:
  "frames_of \<lparr>ptype = EVENT, nsp = Some (lit ''/''), pid = None, pdata = JArr [JStr (lit ''a'')], attachments = None\<rparr> = [JStr (lit ''2[\"a\"]'')]"
  by code_simp

lemma sample_payload: "payload_ok full_env [message (JStr (lit ''2[\"a\"]''))]"
  by (auto simp: payload_ok_def sendable_def full_env_def packetslist_eq message_def message_of_def encodePacket_def encodeText_def
      packet_code_simps lit_def wtf8encode_ascii wtf8encode_def [of "[]"])

theorem emitted_event_arrives_witness:
  "let s = sample_online (sample_io_socket\<lparr>connected := True\<rparr>) in
   \<exists>w m. actions (socket_emit full_browser logger 0 [JStr (lit ''a'')] None s) = actions s @ [A_post w] \<and>
     decodePayload (parser_env full_browser) False collect (transferred w) [] = Inr [m] \<and> etype m = P_message \<and>
     add json_parse (from_engine (edata m)) Decoder = (Decoder, [event_of 0 [JStr (lit ''a'')] None s], None)"
  unfolding Let_def
proof (rule emitted_event_arrives)
  let ?s = "sample_online (sample_io_socket\<lparr>connected := True\<rparr>)"
  have "event_of 0 [JStr (lit ''a'')] None ?s =
      \<lparr>ptype = EVENT, nsp = Some (lit ''/''), pid = None, pdata = JArr [JStr (lit ''a'')], attachments = None\<rparr>"
    by (simp add: event_of_def in_namespace_def sample_online_ready event_packet_def plain_packet_def sample_io_socket_def new_socket_def)
  note event = this
  show "list_all (\<lambda>f. payload_ok (parser_env full_browser) [message f]) (frames_of (event_of 0 [JStr (lit ''a'')] None ?s))"
    unfolding event sample_frames by (simp add: sample_payload)
  show "header_ok (event_of 0 [JStr (lit ''a'')] None ?s)"
    unfolding event by (simp add: header_ok_def valid_nsp_def packet_type_defs lit_def)
qed (simp_all add: sample_online_ready is_event_def events_def lit_def)

end
