(* ===== verification/Uri.thy ===== *)
theory Uri
  imports Transport Yeast
begin

text \<open>
  The request URIs of the transports: \<open>uri\<close> of polling (module 25) and of web sockets (module 40), with parseqs
  for the query and yeast for the timestamp that keeps a browser from answering a poll from its cache. Both
  write into the query of the transport, which they return with the state of yeast.
\<close>

subsection \<open>URIs\<close>

definition port_number :: "jsval \<Rightarrow> jsnum" where
  "port_number p = (case p of JNum n \<Rightarrow> n | JStr s \<Rightarrow> js_Number s | _ \<Rightarrow> NumNaN)"

definition port_part :: "nat \<Rightarrow> jsval \<Rightarrow> jsstr" where
  "port_part standard p = (if truthy p \<and> port_number p \<noteq> js_nat standard then lit '':'' @ js_toString p else [])"

definition host_part :: "jsstr \<Rightarrow> jsstr" where
  "host_part h = (if of_char (CHR '':'') \<in> set h then lit ''['' @ h @ lit '']'' else h)"

definition base_uri :: "jsstr \<Rightarrow> nat \<Rightarrow> transport_opts \<Rightarrow> jsstr" where
  "base_uri schema standard opts =
     schema @ lit ''://'' @ host_part (hostname opts) @ port_part standard (port opts) @ path opts"

definition query_part :: "jsstr \<Rightarrow> jsstr" where
  "query_part q = (if q \<noteq> [] then lit ''?'' @ q else q)"

definition polling_uri :: "nat \<Rightarrow> yeast_state \<Rightarrow> 'w transport_scheme \<Rightarrow> (jsstr \<times> yeast_state \<times> 'w transport_scheme) result" where
  "polling_uri now st t =
     (let opts = topts t;
          (q, st) = (if timestampRequests opts \<noteq> Some False
                     then (case yeast now st of (s, st') \<Rightarrow> (set_prop (timestampParam opts) (JStr s) (query t), st'))
                     else (query t, st));
          q = (if \<not> supportsBinary t \<and> \<not> truthy (get_field (lit ''sid'') q) then set_prop (lit ''b64'') (JNum (js_nat 1)) q else q)
      in bindE (qs_encode q) (\<lambda>s.
           Inr (base_uri (if secure opts then lit ''https'' else lit ''http'') (if secure opts then 443 else 80) opts @ query_part s,
                st, t\<lparr>query := q\<rparr>)))"

definition ws_uri :: "nat \<Rightarrow> yeast_state \<Rightarrow> 'w transport_scheme \<Rightarrow> (jsstr \<times> yeast_state \<times> 'w transport_scheme) result" where
  "ws_uri now st t =
     (let opts = topts t;
          (q, st) = (if timestampRequests opts = Some True
                     then (case yeast now st of (s, st') \<Rightarrow> (set_prop (timestampParam opts) (JStr s) (query t), st'))
                     else (query t, st));
          q = (if \<not> supportsBinary t then set_prop (lit ''b64'') (JNum (js_nat 1)) q else q)
      in bindE (qs_encode q) (\<lambda>s.
           Inr (base_uri (if secure opts then lit ''wss'' else lit ''ws'') (if secure opts then 443 else 80) opts @ query_part s,
                st, t\<lparr>query := q\<rparr>)))"

text \<open>The URIs of one request after the other, at the times \<open>ts\<close>.\<close>

fun poll_uris :: "nat list \<Rightarrow> yeast_state \<Rightarrow> 'w transport_scheme \<Rightarrow> jsstr list result" where
  "poll_uris [] st t = Inr []"
| "poll_uris (now # ts) st t =
     bindE (polling_uri now st t) (\<lambda>(u, st, t). bindE (poll_uris ts st t) (\<lambda>us. Inr (u # us)))"

subsection \<open>What a URI carries\<close>

definition query_ok :: "(jsstr \<times> jsval) list \<Rightarrow> bool" where
  "query_ok q \<longleftrightarrow> distinct (map fst q) \<and> lit ''__proto__'' \<notin> set (map fst q)"

lemma query_ok_set: "query_ok q \<Longrightarrow> query_ok (set_prop k v q)"
  using set_assoc_keys [of k v q] by (simp add: query_ok_def set_prop_def distinct_set_assoc)

lemma map_of_set_assoc: "map_of (set_assoc k v q) j = (if j = k then Some v else map_of q j)"
  by (induction q) auto

lemma map_of_set: "map_of (set_prop k v q) j = (if k = lit ''__proto__'' then map_of q j else if j = k then Some v else map_of q j)"
  by (simp add: set_prop_def map_of_set_assoc)

lemma encoded_stamp:
  assumes "qs_encode q = Inr s" "qs_encode q' = Inr s" "query_ok q" "query_ok q'"
    "map_of q k = Some (JStr y)" "map_of q' k = Some (JStr y')"
  shows "y = y'"
proof -
  have "q \<noteq> []" "q' \<noteq> []" using assms(5,6) by auto
  then have eq: "map (\<lambda>(k, v). (k, JStr (js_toString v))) q = map (\<lambda>(k, v). (k, JStr (js_toString v))) q'"
    using qs_decode_encode [OF assms(1)] qs_decode_encode [OF assms(2)] assms(3,4) by (simp add: query_ok_def)
  from arg_cong [OF this, of "\<lambda>xs. map_of xs k"] show ?thesis
    using assms(5,6) by (simp add: map_of_map comp_def)
qed

text \<open>Every URI of a run is the base and a query with the timestamp of its turn.\<close>

definition stamped :: "transport_opts \<Rightarrow> jsstr \<Rightarrow> jsstr \<Rightarrow> bool" where
  "stamped opts u y \<longleftrightarrow> (\<exists>q s. query_ok q \<and> map_of q (timestampParam opts) = Some (JStr y) \<and> qs_encode q = Inr s \<and>
     u = base_uri (if secure opts then lit ''https'' else lit ''http'') (if secure opts then 443 else 80) opts @ lit ''?'' @ s)"

lemma stamped_inject: "stamped opts u y \<Longrightarrow> stamped opts u y' \<Longrightarrow> y = y'"
  using encoded_stamp by (fastforce simp: stamped_def)

lemma qs_encode_neq_Nil:
  assumes "qs_encode q = Inr s" "q \<noteq> []"
  shows "s \<noteq> []"
proof -
  obtain p ps where q: "q = p # ps" using assms(2) by (cases q) auto
  have check: "check_hasOwnProperty q = Inr ()"
    using assms by (auto simp: q qs_encode_def check_hasOwnProperty_def split: if_splits)
  then obtain x xs where "encode_pair p = Inr x" "s = join (lit ''&'') (x # xs)"
    using assms(1) by (auto simp: q qs_encode_def encode_loop_pairs bindE_Inr_iff simp del: join.simps encode_loop.simps)
  then show ?thesis using encode_pair_neq_Nil by (cases xs) auto
qed

lemma polling_uri_stamped:
  assumes "polling_uri now st t = Inr (u, st', t')" "query_ok (query t)"
    "timestampRequests (topts t) \<noteq> Some False" "timestampParam (topts t) \<notin> {lit ''__proto__'', lit ''b64''}"
  shows "stamped (topts t) u (fst (yeast now st))" "st' = snd (yeast now st)" "query_ok (query t')" "topts t' = topts t"
proof -
  obtain y z where y: "yeast now st = (y, z)" by fastforce
  define q where "q = set_prop (timestampParam (topts t)) (JStr y) (query t)"
  define q' where "q' = (if \<not> supportsBinary t \<and> \<not> truthy (get_field (lit ''sid'') q) then set_prop (lit ''b64'') (JNum (js_nat 1)) q else q)"
  have "polling_uri now st t = bindE (qs_encode q') (\<lambda>s.
      Inr (base_uri (if secure (topts t) then lit ''https'' else lit ''http'') (if secure (topts t) then 443 else 80) (topts t) @ query_part s,
        z, t\<lparr>query := q'\<rparr>))"
    using assms(3) by (simp add: polling_uri_def y q_def q'_def Let_def)
  then obtain s where s: "qs_encode q' = Inr s"
    "u = base_uri (if secure (topts t) then lit ''https'' else lit ''http'') (if secure (topts t) then 443 else 80) (topts t) @ query_part s"
    "st' = z" "t' = t\<lparr>query := q'\<rparr>"
    using assms(1) by (cases "qs_encode q'") simp_all
  have ok: "query_ok q'" using assms(2) by (simp add: q'_def q_def query_ok_set)
  have "lit ''b64'' \<noteq> lit ''__proto__''" by (simp add: lit_def)
  then have st: "map_of q' (timestampParam (topts t)) = Some (JStr y)"
    using assms(4) by (auto simp: q'_def q_def map_of_set)
  then have "q' \<noteq> []" by auto
  then have "query_part s = lit ''?'' @ s" using qs_encode_neq_Nil [OF s(1)] by (simp add: query_part_def)
  with s(2) have u: "u = base_uri (if secure (topts t) then lit ''https'' else lit ''http'') (if secure (topts t) then 443 else 80) (topts t) @ lit ''?'' @ s"
    by (simp only:)
  have fs: "fst (yeast now st) = y" by (simp add: y)
  show "stamped (topts t) u (fst (yeast now st))"
    unfolding stamped_def fs by (intro exI [of _ q'] exI [of _ s] conjI ok st s(1) u)
  show "st' = snd (yeast now st)" "query_ok (query t')" "topts t' = topts t" using ok by (simp_all add: y s)
qed

lemma poll_uris_stamped:
  assumes "poll_uris ts st t = Inr us" "query_ok (query t)"
    "timestampRequests (topts t) \<noteq> Some False" "timestampParam (topts t) \<notin> {lit ''__proto__'', lit ''b64''}"
  shows "list_all2 (stamped (topts t)) us (yeasts ts st)"
  using assms
proof (induction ts arbitrary: st t us)
  case (Cons now ts)
  obtain u st' t' us' where u: "polling_uri now st t = Inr (u, st', t')" "poll_uris ts st' t' = Inr us'" "us = u # us'"
    using Cons.prems(1) by (auto simp: bindE_Inr_iff)
  note first = polling_uri_stamped [OF u(1) Cons.prems(2-4)]
  have "list_all2 (stamped (topts t')) us' (yeasts ts st')"
    using Cons.IH [OF u(2) first(3)] Cons.prems(3,4) first(4) by simp
  then show ?case using first by (simp add: u(3) split_beta)
qed simp

subsection \<open>Properties\<close>

text \<open>
  C25. No two polls of a transport ask for the same URI, so no cache can answer one with the response to another: as long as
  the clock does not run backwards, the URIs of any number of requests are pairwise different.
\<close>

theorem poll_uris_distinct:
  assumes "sorted ts" "poll_uris ts yeast_init t = Inr us" "query_ok (query t)"
    "timestampRequests (topts t) \<noteq> Some False" "timestampParam (topts t) \<notin> {lit ''__proto__'', lit ''b64''}"
  shows "distinct us \<and> length us = length ts"
proof -
  note stamps = poll_uris_stamped [OF assms(2-5)]
  have ys: "distinct (yeasts ts yeast_init)"
    using yeasts_fresh [OF assms(1), of 0 yeast_init] by (simp add: prev_before_def yeast_init_def)
  have "us ! i \<noteq> us ! j" if "i < length us" "j < length us" "i \<noteq> j" for i j
  proof
    assume "us ! i = us ! j"
    moreover have "stamped (topts t) (us ! i) (yeasts ts yeast_init ! i)" "stamped (topts t) (us ! j) (yeasts ts yeast_init ! j)"
      using stamps that list_all2_nthD by blast+
    ultimately have "yeasts ts yeast_init ! i = yeasts ts yeast_init ! j" using stamped_inject by metis
    then show False using ys that list_all2_lengthD [OF stamps] by (simp add: nth_eq_iff_index_eq)
  qed
  moreover have "length (yeasts ts st) = length ts" for ts st
    by (induction ts arbitrary: st) (simp_all add: split_beta)
  ultimately show ?thesis using list_all2_lengthD [OF stamps] by (simp add: distinct_conv_nth)
qed

theorem poll_uris_distinct_witness:
  "\<exists>us. poll_uris [5, 5, 7] yeast_init (new_XHR full_browser sample_opts [(lit ''EIO'', JStr (lit ''3''))]) = Inr us \<and>
     distinct us \<and> length us = 3"
proof -
  let ?t = "new_XHR full_browser sample_opts [(lit ''EIO'', JStr (lit ''3''))]"
  have "\<not> (case poll_uris [5, 5, 7] yeast_init ?t of Inl _ \<Rightarrow> True | Inr _ \<Rightarrow> False)" by code_simp
  then obtain us where us: "poll_uris [5, 5, 7] yeast_init ?t = Inr us" by (auto split: sum.splits)
  have "distinct us \<and> length us = length [5, 5, 7 :: nat]"
    by (rule poll_uris_distinct [OF _ us])
      (simp_all add: new_XHR_def Transport_def sample_opts_def query_ok_def lit_def)
  with us show ?thesis by auto
qed

end
