(* ===== verification/Request.thy ===== *)
theory Request
  imports Transport
begin

text \<open>
  The requests of the XHR transport (\<open>Request\<close> of module 24): one \<open>XMLHttpRequest\<close>, from its creation to the
  events \<open>data\<close>, \<open>success\<close> and \<open>error\<close>, with the timers that defer an error and the registry of the requests that are
  aborted when the page is left. The events a request emits are logged; \<open>poll_hears\<close> and \<open>post_hears\<close> are the listeners the
  transport registers for them. What the browser does is an input or a field of \<open>request_env\<close>.
\<close>

subsection \<open>State\<close>

record request_env =
  xdr_defined :: bool            \<comment> \<open>\<open>XDomainRequest\<close>\<close>
  has_document :: bool
  open_throws :: "js_error option"
  headers_throw :: bool
  send_throws :: "js_error option"
  with_credentials :: bool
  apply_limit :: nat             \<comment> \<open>the longest list of arguments \<open>apply\<close> takes\<close>
  apply_typed :: bool            \<comment> \<open>\<open>apply\<close> takes a typed array\<close>

record request_opts =
  req_post :: bool
  req_uri :: jsstr
  req_xs :: bool
  req_data :: "eio_data option"
  req_isBinary :: bool
  req_supportsBinary :: bool
  req_enablesXDR :: bool
  req_timeout :: "nat option"

datatype xhr_listeners = No_listeners | On_readystate | On_load | Emptied

record xhr_state =
  on_events :: xhr_listeners
  arraybuffer :: bool
  content_type :: "jsstr option"
  accept_all :: bool
  credentials :: bool
  xhr_timeout :: "nat option"
  sent :: "eio_data option option"

datatype request_error = Thrown js_error | Status nat | Response_text jsstr

datatype request_event = R_data eio_data | R_success | R_error request_error

record request =
  ropts :: request_opts
  xhr :: "xhr_state option"
  error_timers :: "request_error list"
  registered :: bool
  aborted :: bool                \<comment> \<open>\<open>xhr.abort\<close> was called\<close>
  emitted :: "request_event list"

record response =
  header :: "jsstr option"
  body :: "bytes option"          \<comment> \<open>\<open>xhr.response\<close>\<close>
  body_text :: "jsstr result"     \<comment> \<open>\<open>xhr.responseText\<close>, which throws for a response of another type\<close>

definition req_emit :: "request_event \<Rightarrow> request \<Rightarrow> request" where
  "req_emit ev r = r\<lparr>emitted := emitted r @ [ev]\<rparr>"

definition hasXDR :: "request_env \<Rightarrow> request \<Rightarrow> bool" where
  "hasXDR env r \<longleftrightarrow> xdr_defined env \<and> \<not> req_xs (ropts r) \<and> req_enablesXDR (ropts r)"

subsection \<open>Sending\<close>

text \<open>\<open>create\<close>: an exception of \<open>open\<close> or \<open>send\<close> is reported in a later tick; those of the headers are ignored.\<close>

definition opened :: "request_env \<Rightarrow> request \<Rightarrow> xhr_state" where
  "opened env r =
     \<lparr>on_events = (if hasXDR env r then On_load else On_readystate),
      arraybuffer = req_supportsBinary (ropts r),
      content_type = (if req_post (ropts r) \<and> \<not> headers_throw env
        then Some (if req_isBinary (ropts r) then lit ''application/octet-stream'' else lit ''text/plain;charset=UTF-8'')
        else None),
      accept_all = (\<not> headers_throw env),
      credentials = with_credentials env,
      xhr_timeout = req_timeout (ropts r), sent = None\<rparr>"

definition blank_xhr :: xhr_state where
  "blank_xhr = \<lparr>on_events = No_listeners, arraybuffer = False, content_type = None, accept_all = False, credentials = False,
     xhr_timeout = None, sent = None\<rparr>"

definition request_create :: "request_env \<Rightarrow> request \<Rightarrow> request" where
  "request_create env r =
     (case open_throws env of
        Some e \<Rightarrow> r\<lparr>xhr := Some blank_xhr, error_timers := [Thrown e]\<rparr>
      | None \<Rightarrow>
          (case send_throws env of
             Some e \<Rightarrow> r\<lparr>xhr := Some (opened env r), error_timers := [Thrown e]\<rparr>
           | None \<Rightarrow> r\<lparr>xhr := Some ((opened env r)\<lparr>sent := Some (req_data (ropts r))\<rparr>), registered := has_document env\<rparr>))"

definition new_request :: "request_env \<Rightarrow> request_opts \<Rightarrow> request" where
  "new_request env opts =
     request_create env \<lparr>ropts = opts, xhr = None, error_timers = [], registered = False, aborted = False, emitted = []\<rparr>"

subsection \<open>Settling\<close>

definition request_cleanup :: "request_env \<Rightarrow> bool \<Rightarrow> request \<Rightarrow> request" where
  "request_cleanup env fromError r =
     (case xhr r of
        None \<Rightarrow> r
      | Some x \<Rightarrow>
          let r = (if fromError then r\<lparr>aborted := True\<rparr> else r);
              r = (if has_document env then r\<lparr>registered := False\<rparr> else r)
          in r\<lparr>xhr := None\<rparr>)"

definition request_onError :: "request_env \<Rightarrow> request_error \<Rightarrow> request \<Rightarrow> request" where
  "request_onError env e r = request_cleanup env True (req_emit (R_error e) r)"

definition request_onSuccess :: "request_env \<Rightarrow> request \<Rightarrow> request" where
  "request_onSuccess env r = request_cleanup env False (req_emit R_success r)"

definition request_onData :: "request_env \<Rightarrow> eio_data \<Rightarrow> request \<Rightarrow> request" where
  "request_onData env d r = request_onSuccess env (req_emit (R_data d) r)"

definition request_abort :: "request_env \<Rightarrow> request \<Rightarrow> request" where
  "request_abort env r = request_cleanup env False r"

text \<open>\<open>String.fromCharCode.apply(null, bytes)\<close>, first with the typed array, then with a copy of it.\<close>

definition char_codes :: "bytes \<Rightarrow> jsstr" where
  "char_codes bs = map ucast bs"

definition apply_bytes :: "request_env \<Rightarrow> bool \<Rightarrow> bytes \<Rightarrow> jsstr result" where
  "apply_bytes env typed bs =
     (if length bs > apply_limit env then Inl (Error ''RangeError'')
      else if typed \<and> \<not> apply_typed env then Inl TypeError
      else Inr (char_codes bs))"

definition mime_type :: "response \<Rightarrow> jsstr option" where
  "mime_type resp = (case header resp of None \<Rightarrow> None | Some s \<Rightarrow> Some (hd (split_on (of_char (CHR '';'')) s)))"

definition response_data :: "request_env \<Rightarrow> response \<Rightarrow> request \<Rightarrow> eio_data result" where
  "response_data env resp r =
     (if mime_type resp = Some (lit ''application/octet-stream'')
      then (case body resp of Some bs \<Rightarrow> Inr (Buffer bs) | None \<Rightarrow> bindE (body_text resp) (\<lambda>s. Inr (Text s)))
      else if \<not> req_supportsBinary (ropts r) then bindE (body_text resp) (\<lambda>s. Inr (Text s))
      else
        let bs = (case body resp of Some bs \<Rightarrow> bs | None \<Rightarrow> []) in
        case apply_bytes env True bs of
          Inr s \<Rightarrow> Inr (Text s)
        | Inl _ \<Rightarrow> bindE (apply_bytes env False bs) (\<lambda>s. Inr (Text s)))"

definition request_onLoad :: "request_env \<Rightarrow> response \<Rightarrow> request \<Rightarrow> request" where
  "request_onLoad env resp r =
     (case response_data env resp r of
        Inl e \<Rightarrow> request_onError env (Thrown e) r
      | Inr d \<Rightarrow> request_onData env d r)"

subsection \<open>What the browser does\<close>

datatype request_input =
    Ready nat nat response       \<comment> \<open>\<open>onreadystatechange\<close>\<close>
  | Load response                \<comment> \<open>\<open>onload\<close> of an \<open>XDomainRequest\<close>\<close>
  | Failed jsstr                 \<comment> \<open>its \<open>onerror\<close>\<close>
  | Tick                         \<comment> \<open>the first timer\<close>
  | Abort

definition onreadystatechange :: "request_env \<Rightarrow> nat \<Rightarrow> nat \<Rightarrow> response \<Rightarrow> request \<Rightarrow> request" where
  "onreadystatechange env rs status resp r =
     (if rs \<noteq> 4 then r
      else if status = 200 \<or> status = 1223 then request_onLoad env resp r
      else r\<lparr>error_timers := error_timers r @ [Status status]\<rparr>)"

definition listens :: "xhr_listeners \<Rightarrow> request \<Rightarrow> bool" where
  "listens l r = (case xhr r of None \<Rightarrow> False | Some x \<Rightarrow> on_events x = l)"

fun request_step :: "request_env \<Rightarrow> request_input \<Rightarrow> request \<Rightarrow> request" where
  "request_step env (Ready rs status resp) r = (if listens On_readystate r then onreadystatechange env rs status resp r else r)"
| "request_step env (Load resp) r = (if listens On_load r then request_onLoad env resp r else r)"
| "request_step env (Failed s) r = (if listens On_load r then request_onError env (Response_text s) r else r)"
| "request_step env Tick r =
     (case error_timers r of [] \<Rightarrow> r | e # es \<Rightarrow> request_onError env e (r\<lparr>error_timers := es\<rparr>))"
| "request_step env Abort r = request_abort env r"

text \<open>When the page is left every registered request is aborted.\<close>

definition unloadHandler :: "request_env \<Rightarrow> request list \<Rightarrow> request list" where
  "unloadHandler env rs = map (\<lambda>r. if registered r then request_abort env r else r) rs"

text \<open>The listeners of \<open>doPoll\<close> and of \<open>doWrite\<close>.\<close>

definition poll_hears :: "browser \<Rightarrow> 'w transport_hook \<Rightarrow> request_event \<Rightarrow> 'w transport_scheme \<Rightarrow> 'w transport_scheme result" where
  "poll_hears b h ev t = (case ev of
     R_data d \<Rightarrow> polling_onData b h d t
   | R_error _ \<Rightarrow> Inr (t_onError h (lit ''xhr poll error'') t)
   | R_success \<Rightarrow> Inr t)"

definition post_hears :: "'w transport_hook \<Rightarrow> request_event \<Rightarrow> 'w transport_scheme \<Rightarrow> 'w transport_scheme" where
  "post_hears h ev t = (case ev of
     R_success \<Rightarrow> write_done h t
   | R_error _ \<Rightarrow> t_onError h (lit ''xhr post error'') t
   | R_data _ \<Rightarrow> t)"

subsection \<open>A request settles once\<close>

fun completes :: "request_input \<Rightarrow> bool" where
  "completes (Ready rs _ _) \<longleftrightarrow> rs = 4"
| "completes (Load _) \<longleftrightarrow> True"
| "completes (Failed _) \<longleftrightarrow> True"
| "completes _ \<longleftrightarrow> False"

definition outcome :: "request_event list \<Rightarrow> bool" where
  "outcome evs \<longleftrightarrow> (\<exists>e. evs = [R_error e]) \<or> (\<exists>d. evs = [R_data d, R_success])"

text \<open>\<open>n\<close> completions may still come.\<close>

definition request_inv :: "request_env \<Rightarrow> nat \<Rightarrow> request \<Rightarrow> bool" where
  "request_inv env n r \<longleftrightarrow> length (error_timers r) + n \<le> 1 \<and> (registered r \<longrightarrow> has_document env \<and> xhr r \<noteq> None) \<and>
     (emitted r = [] \<or> outcome (emitted r) \<and> xhr r = None \<and> error_timers r = [])"

lemma inv_cleanup:
  assumes "registered r \<longrightarrow> has_document env \<and> xhr r \<noteq> None" "outcome (emitted r)" "error_timers r = []" "n \<le> 1"
  shows "request_inv env n (request_cleanup env c r)"
  using assms by (auto simp: request_inv_def request_cleanup_def Let_def split: option.split)

lemma inv_settles:
  assumes "request_inv env (Suc n) r" "xhr r \<noteq> None"
  shows "request_inv env n (request_onError env e r)" "request_inv env n (request_onData env d r)"
proof -
  have r: "emitted r = []" "error_timers r = []" "n = 0" "registered r \<longrightarrow> has_document env \<and> xhr r \<noteq> None"
    using assms by (auto simp: request_inv_def)
  show "request_inv env n (request_onError env e r)" "request_inv env n (request_onData env d r)"
    unfolding request_onError_def request_onData_def request_onSuccess_def
    by (rule inv_cleanup; use r in \<open>simp add: req_emit_def outcome_def\<close>)+
qed

lemma inv_onLoad: "request_inv env (Suc n) r \<Longrightarrow> xhr r \<noteq> None \<Longrightarrow> request_inv env n (request_onLoad env resp r)"
  by (simp add: request_onLoad_def inv_settles split: sum.split)

lemma inv_tick: "request_inv env n r \<Longrightarrow> request_inv env n (request_step env Tick r)"
proof (cases "error_timers r")
  case (Cons e es)
  assume "request_inv env n r"
  then have r: "emitted r = []" "es = []" "n = 0" "registered r \<longrightarrow> has_document env \<and> xhr r \<noteq> None"
    using Cons by (auto simp: request_inv_def)
  show ?thesis
    unfolding request_step.simps Cons list.case request_onError_def
    by (rule inv_cleanup) (use r in \<open>simp_all add: req_emit_def outcome_def\<close>)
qed simp

lemma inv_abort: "request_inv env n r \<Longrightarrow> request_inv env n (request_abort env r)"
  by (auto simp: request_inv_def request_abort_def request_cleanup_def Let_def split: option.split)

lemma inv_step:
  assumes "request_inv env (n + (if completes i then 1 else 0)) r"
  shows "request_inv env n (request_step env i r)"
proof -
  have less: "request_inv env n r" using assms by (auto simp: request_inv_def split: if_splits)
  have hears: "xhr r \<noteq> None" if "listens l r" for l using that by (cases "xhr r") (simp_all add: listens_def)
  show ?thesis
  proof (cases i)
    case (Ready rs status resp)
    show ?thesis
    proof (cases "listens On_readystate r \<and> rs = 4")
      case True
      then have inv: "request_inv env (Suc n) r" using assms Ready by simp
      have "request_inv env n (r\<lparr>error_timers := error_timers r @ [Status status]\<rparr>)"
        using inv True hears [of On_readystate] by (auto simp: request_inv_def)
      then show ?thesis
        using Ready True inv_onLoad [OF inv] hears by (auto simp: onreadystatechange_def)
    next
      case False
      then show ?thesis using Ready less by (auto simp: onreadystatechange_def)
    qed
  next
    case (Load resp)
    then show ?thesis using assms less inv_onLoad hears by auto
  next
    case (Failed s)
    then show ?thesis using assms less inv_settles(1) hears by auto
  qed (use less inv_tick inv_abort in auto)
qed

lemma inv_steps:
  "request_inv env (length (filter completes ins)) r \<Longrightarrow> request_inv env 0 (fold (request_step env) ins r)"
proof (induction ins arbitrary: r)
  case (Cons i ins)
  have "request_inv env (length (filter completes ins)) (request_step env i r)"
    by (rule inv_step) (use Cons.prems in \<open>simp split: if_splits\<close>)
  then show ?case using Cons.IH by simp
qed simp

text \<open>A request that is not aborted settles when it has completed.\<close>

definition will_settle :: "request \<Rightarrow> bool" where
  "will_settle r \<longleftrightarrow> emitted r \<noteq> [] \<or> error_timers r \<noteq> []"

lemma settles_step: "will_settle r \<Longrightarrow> will_settle (request_step env i r)"
  by (cases i)
    (auto simp: will_settle_def onreadystatechange_def request_onLoad_def request_onError_def request_onData_def request_onSuccess_def
      request_abort_def request_cleanup_def req_emit_def Let_def split: option.split sum.split list.split)

lemma settles_steps: "will_settle r \<Longrightarrow> will_settle (fold (request_step env) ins r)"
  by (induction ins arbitrary: r) (simp_all add: settles_step del: request_step.simps)

lemma settles_completion: "listens On_readystate r \<Longrightarrow> will_settle (request_step env (Ready 4 status resp) r)"
  by (auto simp: will_settle_def onreadystatechange_def request_onLoad_def request_onError_def request_onData_def request_onSuccess_def
      request_cleanup_def req_emit_def Let_def split: option.split sum.split)

lemma listens_on:
  assumes "listens On_readystate r" "error_timers r = []" "\<not> completes i" "i \<noteq> Abort"
  shows "listens On_readystate (request_step env i r) \<and> error_timers (request_step env i r) = []"
  using assms by (cases i) (auto simp: onreadystatechange_def listens_def split: option.splits)

text \<open>
  C21. Whatever the browser reports, in whatever order timers and aborts come between, a request emits one outcome at
  most, the data followed by the success or one error; from then on it has let go of its \<open>XMLHttpRequest\<close>, is not registered and has no timer left.
  The browser is taken to complete a request once, and not to complete one it did not send.
\<close>

theorem request_settles_once:
  assumes "length (filter completes ins) \<le> (if error_timers (new_request env opts) = [] then 1 else 0)"
    and r: "r = fold (request_step env) ins (new_request env opts)"
  shows "emitted r = [] \<or> outcome (emitted r) \<and> xhr r = None \<and> \<not> registered r \<and> error_timers r = []"
proof -
  have "request_inv env (length (filter completes ins)) (new_request env opts)"
    using assms(1) by (auto simp: new_request_def request_create_def request_inv_def split: option.splits if_splits)
  from inv_steps [OF this] show ?thesis by (auto simp: r request_inv_def)
qed

text \<open>
  C22. A request that has been sent and is not aborted does not stay open: when it has completed, with whatever status and content, and
  the next timer has fired, its outcome has been reported.
\<close>

theorem request_reports:
  assumes "error_timers (new_request env opts) = []" "\<not> hasXDR env (new_request env opts)"
    and "list_all (\<lambda>i. \<not> completes i \<and> i \<noteq> Abort) before" "length (filter completes later) = 0"
    and r: "r = request_step env Tick (fold (request_step env) (before @ Ready 4 status resp # later) (new_request env opts))"
  shows "outcome (emitted r)"
proof -
  let ?r0 = "new_request env opts"
  have r0: "listens On_readystate ?r0" "error_timers ?r0 = []"
    using assms(1,2) by (auto simp: new_request_def request_create_def listens_def opened_def hasXDR_def split: option.splits)
  have "listens On_readystate (fold (request_step env) before s)" if "listens On_readystate s" "error_timers s = []" for s
    using that assms(3)
  proof (induction before arbitrary: s)
    case (Cons i before)
    then show ?case using listens_on [of s i env] by simp
  qed simp
  note open_before = this [OF r0]
  let ?s = "fold (request_step env) (before @ Ready 4 status resp # later) ?r0"
  have "will_settle ?s"
    using settles_steps [OF settles_completion [OF open_before]] by simp
  then have will: "will_settle r" unfolding r by (rule settles_step)
  have "length (filter completes before) = 0" using assms(3) by (induction before) simp_all
  then have "request_inv env (length (filter completes (before @ Ready 4 status resp # later))) ?r0"
    using assms(1,4) by (auto simp: new_request_def request_create_def request_inv_def split: option.splits)
  from inv_steps [OF this] have inv: "request_inv env 0 ?s" .
  then have "request_inv env 0 r" unfolding r by (rule inv_tick)
  moreover have "error_timers r = []"
    using inv unfolding r
    by (cases "error_timers ?s") (auto simp: request_inv_def request_onError_def request_cleanup_def req_emit_def Let_def split: option.split)
  ultimately show ?thesis using will by (auto simp: request_inv_def will_settle_def)
qed

text \<open>
  An aborted request still reports an error when the timer that was to report it was already set: \<open>abort\<close> takes the listeners off the
  \<open>XMLHttpRequest\<close> but does not clear the timer.
\<close>

lemma aborted_request_reports:
  assumes "listens On_readystate r" "error_timers r = []" "emitted r = []" "status \<notin> {200, 1223}"
  shows "emitted (fold (request_step env) [Ready 4 status resp, Abort, Tick] r) = [R_error (Status status)]"
  using assms
  by (auto simp: onreadystatechange_def request_abort_def request_onError_def request_cleanup_def req_emit_def Let_def split: option.split)

text \<open>
  A response that is too long for the arguments of a function is an error, although the code has a second way to
  make the string of it: that way applies the same function to as many arguments.
\<close>

lemma long_response_fails:
  assumes "mime_type resp \<noteq> Some (lit ''application/octet-stream'')" "req_supportsBinary (ropts r)" "body resp = Some bs"
    "apply_limit env < length bs"
  shows "response_data env resp r = Inl (Error ''RangeError'')"
  using assms by (simp add: response_data_def apply_bytes_def)

definition sample_env :: request_env where
  "sample_env = \<lparr>xdr_defined = False, has_document = True, open_throws = None, headers_throw = False, send_throws = None,
     with_credentials = True, apply_limit = 65535, apply_typed = True\<rparr>"

definition sample_request :: request_opts where
  "sample_request = \<lparr>req_post = False, req_uri = lit ''http://h/engine.io/'', req_xs = False, req_data = None, req_isBinary = False,
     req_supportsBinary = True, req_enablesXDR = False, req_timeout = None\<rparr>"

definition sample_response :: response where
  "sample_response = \<lparr>header = Some (lit ''text/plain; charset=UTF-8''), body = Some [50, 58, 52, 104], body_text = Inl TypeError\<rparr>"

theorem request_settles_once_witness:
  "let r = fold (request_step sample_env) [Ready 2 200 sample_response, Ready 4 200 sample_response, Tick, Abort]
       (new_request sample_env sample_request) in
   emitted r = [] \<or> outcome (emitted r) \<and> xhr r = None \<and> \<not> registered r \<and> error_timers r = []"
  unfolding Let_def
  by (rule request_settles_once [OF _ refl]) (simp add: new_request_def request_create_def sample_env_def)

theorem request_reports_witness:
  "outcome (emitted (request_step sample_env Tick (fold (request_step sample_env)
     ([Ready 2 200 sample_response] @ Ready 4 502 sample_response # [Tick]) (new_request sample_env sample_request))))"
  by (rule request_reports [OF _ _ _ _ refl]) (simp_all add: new_request_def request_create_def sample_env_def hasXDR_def)

end
