(* ===== verification/Jsonp.thy ===== *)
theory Jsonp
  imports Transport
begin

text \<open>
  The elements of the JSONP transport (module 39): the script a poll puts into the page, and the form, text area and
  iframe with which it posts, with the escaping of line feeds. \<open>transport\<close> keeps of them whether the script and the form exist;
  here is what is in them.
\<close>

subsection \<open>Escaping\<close>

text \<open>\<open>data.replace(/\n/g, ...)\<close> for the escape sequence and for the line feed itself.\<close>

fun replace_escaped :: "jsstr \<Rightarrow> jsstr" where
  "replace_escaped (c # d # s) =
     (if c = 92 \<and> d = 110 then 92 # 10 # replace_escaped s else c # replace_escaped (d # s))"
| "replace_escaped s = s"

definition replace_newlines :: "jsstr \<Rightarrow> jsstr" where
  "replace_newlines s = concat (map (\<lambda>c. if c = 10 then [92, 110] else [c]) s)"

definition jsonp_escape :: "jsstr \<Rightarrow> jsstr" where
  "jsonp_escape data = replace_newlines (replace_escaped data)"

subsection \<open>The elements\<close>

record jsonp_form =
  form_action :: jsstr
  area :: jsstr                   \<comment> \<open>\<open>area.value\<close>\<close>
  frames_in :: "jsstr list"       \<comment> \<open>the iframes that are children of the form, by name\<close>

record jsonp_dom =
  jindex :: nat
  iframeId :: jsstr
  script_src :: "jsstr option"    \<comment> \<open>\<open>this.script\<close>\<close>
  jform :: "jsonp_form option"
  iframe :: "jsstr option"
  scripts_in_page :: "jsstr list"
  forms_in_page :: nat
  submitted :: "(jsstr \<times> jsstr) list"

definition new_dom :: "nat \<Rightarrow> jsonp_dom" where
  "new_dom i = \<lparr>jindex = i, iframeId = [], script_src = None, jform = None, iframe = None, scripts_in_page = [], forms_in_page = 0,
     submitted = []\<rparr>"

definition remove_script :: "jsonp_dom \<Rightarrow> jsonp_dom" where
  "remove_script d = (case script_src d of
     None \<Rightarrow> d
   | Some src \<Rightarrow> d\<lparr>scripts_in_page := remove1 src (scripts_in_page d), script_src := None\<rparr>)"

definition jsonp_doPoll :: "jsstr \<Rightarrow> jsonp_dom \<Rightarrow> jsonp_dom" where
  "jsonp_doPoll uri d =
     (let d = remove_script d in d\<lparr>scripts_in_page := uri # scripts_in_page d, script_src := Some uri\<rparr>)"

definition jsonp_dom_close :: "jsonp_dom \<Rightarrow> jsonp_dom" where
  "jsonp_dom_close d =
     (let d = remove_script d in
      case jform d of None \<Rightarrow> d | Some _ \<Rightarrow> d\<lparr>forms_in_page := forms_in_page d - 1, jform := None, iframe := None\<rparr>)"

text \<open>An iframe that is no child of the form cannot be removed from it: \<open>removeChild\<close> throws, which is an error of the transport.\<close>

definition initIframe :: "jsonp_dom \<Rightarrow> jsonp_dom \<times> bool" where
  "initIframe d =
     (case jform d of
        None \<Rightarrow> (d, True)
      | Some f \<Rightarrow>
          let failed = (case iframe d of None \<Rightarrow> False | Some i \<Rightarrow> i \<notin> set (frames_in f));
              f = (case iframe d of None \<Rightarrow> f | Some i \<Rightarrow> f\<lparr>frames_in := remove1 i (frames_in f)\<rparr>)
          in (d\<lparr>jform := Some (f\<lparr>frames_in := frames_in f @ [iframeId d]\<rparr>), iframe := Some (iframeId d)\<rparr>, failed))"

definition jsonp_doWrite :: "jsstr \<Rightarrow> jsstr \<Rightarrow> jsonp_dom \<Rightarrow> jsonp_dom \<times> bool" where
  "jsonp_doWrite uri data d =
     (let d = (case jform d of
                 Some _ \<Rightarrow> d
               | None \<Rightarrow> d\<lparr>iframeId := lit ''eio_iframe_'' @ js_String (js_nat (jindex d)), forms_in_page := forms_in_page d + 1,
                   jform := Some \<lparr>form_action = [], area = [], frames_in = []\<rparr>\<rparr>);
          d = d\<lparr>jform := map_option (\<lambda>f. f\<lparr>form_action := uri\<rparr>) (jform d)\<rparr>;
          (d, failed) = initIframe d;
          d = d\<lparr>jform := map_option (\<lambda>f. f\<lparr>area := jsonp_escape data\<rparr>) (jform d)\<rparr>
      in (d\<lparr>submitted := submitted d @ [(uri, jsonp_escape data)]\<rparr>, failed))"

text \<open>The iframe has loaded the answer: a fresh one takes its place and the write is done.\<close>

definition jsonp_complete :: "jsonp_dom \<Rightarrow> jsonp_dom \<times> bool" where
  "jsonp_complete d = initIframe d"

subsection \<open>What the server reads\<close>

text \<open>The server reads an escape sequence behind a backslash as the sequence, and any other as a line feed.\<close>

fun jsonp_unescape :: "jsstr \<Rightarrow> jsstr" where
  "jsonp_unescape (a # b # c # s) =
     (if a = 92 \<and> b = 92 \<and> c = 110 then 92 # 110 # jsonp_unescape s
      else if a = 92 \<and> b = 110 then 10 # jsonp_unescape (c # s)
      else a # jsonp_unescape (b # c # s))"
| "jsonp_unescape [a, b] = (if a = 92 \<and> b = 110 then [10] else [a, b])"
| "jsonp_unescape s = s"

text \<open>No line feed comes right behind a backslash.\<close>

fun unambiguous :: "jsstr \<Rightarrow> bool" where
  "unambiguous (c # d # s) \<longleftrightarrow> \<not> (c = 92 \<and> d = 10) \<and> unambiguous (d # s)"
| "unambiguous _ \<longleftrightarrow> True"

lemma escape_simps:
  "jsonp_escape [] = []"
  "jsonp_escape (92 # 110 # s) = 92 # 92 # 110 # jsonp_escape s"
  "c \<noteq> 92 \<or> take 1 s \<noteq> [110] \<Longrightarrow> jsonp_escape (c # s) = (if c = 10 then [92, 110] else [c]) @ jsonp_escape s"
  by (simp_all add: jsonp_escape_def replace_newlines_def) (cases s; auto)

lemma unescape_other:
  assumes "a \<noteq> 92 \<or> take 1 s \<noteq> [110] \<and> take 2 s \<noteq> [92, 110]"
  shows "jsonp_unescape (a # s) = a # jsonp_unescape s"
proof (cases s rule: list.exhaust)
  case (Cons b s')
  then show ?thesis using assms by (cases s') auto
qed simp

lemma unescape_newline: "jsonp_unescape (92 # 110 # s) = 10 # jsonp_unescape s"
  by (cases s) auto

lemma unescape_sequence: "jsonp_unescape (92 # 92 # 110 # s) = 92 # 110 # jsonp_unescape s"
  by simp

lemma escape_first:
  obtains (empty) "s = []" "jsonp_escape s = []"
    | (sequence) s' where "s = 92 # 110 # s'" "jsonp_escape s = 92 # 92 # 110 # jsonp_escape s'"
    | (newline) s' where "s = 10 # s'" "jsonp_escape s = 92 # 110 # jsonp_escape s'"
    | (other) x s' where "s = x # s'" "x \<noteq> 10" "x \<noteq> 92 \<or> take 1 s' \<noteq> [110]" "jsonp_escape s = x # jsonp_escape s'"
proof (cases s)
  case Nil
  then show thesis using empty by (simp add: escape_simps(1))
next
  case (Cons x s')
  show thesis
  proof (cases "x = 92 \<and> take 1 s' = [110]")
    case True
    then obtain s'' where "s' = 110 # s''" by (cases s') auto
    then show thesis using sequence Cons True by (simp add: escape_simps(2))
  next
    case False
    then show thesis using newline other escape_simps(3) [of x s'] Cons by (cases "x = 10") auto
  qed
qed

lemma escape_110: "take 1 (jsonp_escape s) = [110] \<Longrightarrow> take 1 s = [110]"
  by (cases s rule: escape_first) auto

lemma escape_head:
  assumes "take 1 s \<noteq> [110]" "take 1 s \<noteq> [10]"
  shows "take 1 (jsonp_escape s) \<noteq> [110] \<and> take 2 (jsonp_escape s) \<noteq> [92, 110]"
proof -
  have "take 2 (jsonp_escape s) \<noteq> [92, 110]"
  proof (cases s rule: escape_first)
    case (other x s')
    then show ?thesis using escape_110 [of s'] by (cases "jsonp_escape s'") auto
  qed (use assms in auto)
  then show ?thesis using assms(1) escape_110 by blast
qed

lemma unescape_escape: "unambiguous s \<Longrightarrow> jsonp_unescape (jsonp_escape s) = s"
proof (induction s rule: replace_escaped.induct)
  case (1 c d s)
  show ?case
  proof (cases "c = 92 \<and> d = 110")
    case True
    then show ?thesis using 1 by (cases s) (auto simp: escape_simps(2))
  next
    case False
    then have e: "jsonp_escape (c # d # s) = (if c = 10 then [92, 110] else [c]) @ jsonp_escape (d # s)"
      by (intro escape_simps(3)) auto
    have IH: "jsonp_unescape (jsonp_escape (d # s)) = d # s" using 1 False by simp
    show ?thesis
    proof (cases "c = 10")
      case True
      then have "jsonp_escape (c # d # s) = 92 # 110 # jsonp_escape (d # s)" using e by simp
      then show ?thesis using IH True by (simp only: unescape_newline)
    next
      case c: False
      have "c \<noteq> 92 \<or> take 1 (jsonp_escape (d # s)) \<noteq> [110] \<and> take 2 (jsonp_escape (d # s)) \<noteq> [92, 110]"
        using escape_head [of "d # s"] False 1(3) by auto
      from unescape_other [OF this] show ?thesis using c by (simp add: e IH)
    qed
  qed
qed (simp_all add: jsonp_escape_def replace_newlines_def)

subsection \<open>Properties\<close>

text \<open>
  The server can undo the escaping of line feeds in what a form posts, so two different messages are not posted as the same,
  as long as they have no line feed right behind a backslash.
\<close>

theorem jsonp_escape_injective:
  assumes "unambiguous s" "unambiguous t"
  shows "jsonp_escape s = jsonp_escape t \<longleftrightarrow> s = t"
  using unescape_escape [OF assms(1)] unescape_escape [OF assms(2)] by metis

theorem jsonp_escape_injective_witness: "jsonp_escape [97, 10, 92, 110] \<noteq> jsonp_escape [97, 92, 110, 10]"
  by (subst jsonp_escape_injective) simp_all

text \<open>With one they are: a backslash and a line feed are posted like the two characters of an escape sequence.\<close>

lemma jsonp_escape_ambiguous: "jsonp_escape [92, 10] = jsonp_escape [92, 110]"
  by code_simp

text \<open>
  A form never holds more than one iframe, and the transport never more than one script and one form, however polls, writes
  and their completions follow each other.
\<close>

datatype jsonp_input = J_poll jsstr | J_write jsstr jsstr | J_complete | J_close

fun jsonp_step :: "jsonp_input \<Rightarrow> jsonp_dom \<Rightarrow> jsonp_dom" where
  "jsonp_step (J_poll uri) d = jsonp_doPoll uri d"
| "jsonp_step (J_write uri data) d = fst (jsonp_doWrite uri data d)"
| "jsonp_step J_complete d = fst (jsonp_complete d)"
| "jsonp_step J_close d = jsonp_dom_close d"

definition dom_ok :: "jsonp_dom \<Rightarrow> bool" where
  "dom_ok d \<longleftrightarrow> scripts_in_page d = (case script_src d of None \<Rightarrow> [] | Some s \<Rightarrow> [s]) \<and>
     (case jform d of None \<Rightarrow> forms_in_page d = 0 \<and> iframe d = None
      | Some f \<Rightarrow> forms_in_page d = 1 \<and> iframe d = Some (iframeId d) \<and> frames_in f = [iframeId d])"

lemma dom_ok_step: "dom_ok d \<Longrightarrow> dom_ok (jsonp_step i d)"
proof (cases i)
  case (J_write uri data)
  assume "dom_ok d"
  then show ?thesis
    by (cases "jform d") (simp_all add: J_write dom_ok_def jsonp_doWrite_def initIframe_def Let_def)
qed (auto simp: dom_ok_def jsonp_doPoll_def remove_script_def jsonp_dom_close_def jsonp_complete_def initIframe_def Let_def
    split: option.splits)


end
