(* ===== verification/Regex.thy ===== *)
theory Regex
  imports Prelude
begin

text \<open>
  Regular expressions as the language matches them: a backtracking matcher in continuation-passing style. An expression is
  given what is to be matched after it; a choice and a greedy repetition try their next way only when the continuation fails.
  Captured groups are strings; \<open>None\<close> is the group that took no part in the match.
\<close>

subsection \<open>Matching\<close>

type_synonym captures = "nat \<Rightarrow> jsstr option"

datatype regex =
    Epsilon
  | At_end                        \<comment> \<open>\<open>$\<close>\<close>
  | Char "jschar \<Rightarrow> bool"         \<comment> \<open>a character or a class\<close>
  | Sequence regex regex
  | Choice regex regex
  | Greedy regex                  \<comment> \<open>\<open>*\<close>\<close>
  | Optional regex                \<comment> \<open>\<open>?\<close>\<close>
  | Group nat regex
  | Not_ahead regex               \<comment> \<open>\<open>(?!...)\<close>\<close>

type_synonym continuation = "jsstr \<Rightarrow> captures \<Rightarrow> captures option"

function match :: "regex \<Rightarrow> continuation \<Rightarrow> continuation" where
  "match Epsilon k s c = k s c"
| "match At_end k s c = (if s = [] then k s c else None)"
| "match (Char p) k s c = (case s of [] \<Rightarrow> None | x # s' \<Rightarrow> if p x then k s' c else None)"
| "match (Sequence r1 r2) k s c = match r1 (match r2 k) s c"
| "match (Choice r1 r2) k s c = (case match r1 k s c of Some m \<Rightarrow> Some m | None \<Rightarrow> match r2 k s c)"
| "match (Greedy r) k s c =
     (case match r (\<lambda>s' c'. if length s' < length s then match (Greedy r) k s' c' else None) s c of
        Some m \<Rightarrow> Some m | None \<Rightarrow> k s c)"
| "match (Optional r) k s c =
     (case match r (\<lambda>s' c'. if length s' < length s then k s' c' else None) s c of Some m \<Rightarrow> Some m | None \<Rightarrow> k s c)"
| "match (Group n r) k s c = match r (\<lambda>s' c'. k s' (c'(n := Some (take (length s - length s') s)))) s c"
| "match (Not_ahead r) k s c = (case match r (\<lambda>_ c'. Some c') s c of Some _ \<Rightarrow> None | None \<Rightarrow> k s c)"
  by pat_completeness auto
termination
  by (relation "inv_image (less_than <*lex*> less_than) (\<lambda>(r, k, s, c). (size r, length s))") auto

fun consumes :: "regex \<Rightarrow> jschar \<Rightarrow> bool" where
  "consumes (Char p) x = p x"
| "consumes (Sequence r1 r2) x = (consumes r1 x \<or> consumes r2 x)"
| "consumes (Choice r1 r2) x = (consumes r1 x \<or> consumes r2 x)"
| "consumes (Greedy r) x = consumes r x"
| "consumes (Optional r) x = consumes r x"
| "consumes (Group n r) x = consumes r x"
| "consumes _ x = False"

text \<open>How often a character comes at least in what an expression matches.\<close>

fun demands :: "jschar \<Rightarrow> regex \<Rightarrow> nat" where
  "demands ch (Char p) = (if \<forall>x. p x \<longrightarrow> x = ch then 1 else 0)"
| "demands ch (Sequence r1 r2) = demands ch r1 + demands ch r2"
| "demands ch (Choice r1 r2) = min (demands ch r1) (demands ch r2)"
| "demands ch (Group n r) = demands ch r"
| "demands ch _ = 0"

definition regex_reads :: "regex \<Rightarrow> continuation \<Rightarrow> jsstr \<Rightarrow> captures \<Rightarrow> jschar \<Rightarrow> bool" where
  "regex_reads r k s m ch \<longleftrightarrow> (\<exists>u s' c'. s = u @ s' \<and> list_all (consumes r) u \<and> demands ch r \<le> count_list u ch \<and> k s' c' = Some m)"

lemma regex_readsI:
  "s = u @ s' \<Longrightarrow> list_all (consumes r) u \<Longrightarrow> demands ch r \<le> count_list u ch \<Longrightarrow> k s' c' = Some m \<Longrightarrow> regex_reads r k s m ch"
  unfolding regex_reads_def by blast

lemma match_reads: "match r k s c = Some m \<Longrightarrow> regex_reads r k s m ch"
proof (induction r arbitrary: k s c m)
  case (Char p)
  then obtain x s' where "s = x # s'" "p x" "k s' c = Some m" by (auto split: list.splits if_splits)
  then show ?case by (intro regex_readsI [of s "[x]" s' _ _ _ c]) auto
next
  case (Sequence r1 r2)
  then obtain u s' c' where u: "s = u @ s'" "list_all (consumes r1) u" "demands ch r1 \<le> count_list u ch" "match r2 k s' c' = Some m"
    unfolding regex_reads_def match.simps by blast
  obtain v s'' c'' where v: "s' = v @ s''" "list_all (consumes r2) v" "demands ch r2 \<le> count_list v ch" "k s'' c'' = Some m"
    using Sequence.IH(2) [OF u(4)] unfolding regex_reads_def by blast
  show ?case
    by (rule regex_readsI [of s "u @ v" s'' _ _ _ c'']) (use u v in \<open>auto simp: list_all_iff\<close>)
next
  case (Choice r1 r2)
  then consider "match r1 k s c = Some m" | "match r2 k s c = Some m" by (auto split: option.splits)
  then show ?case
  proof cases
    case 1
    then obtain u s' c' where "s = u @ s'" "list_all (consumes r1) u" "demands ch r1 \<le> count_list u ch" "k s' c' = Some m"
      using Choice.IH(1) unfolding regex_reads_def by blast
    then show ?thesis by (intro regex_readsI [of s u s' _ _ _ c']) (auto simp: list_all_iff)
  next
    case 2
    then obtain u s' c' where "s = u @ s'" "list_all (consumes r2) u" "demands ch r2 \<le> count_list u ch" "k s' c' = Some m"
      using Choice.IH(2) unfolding regex_reads_def by blast
    then show ?thesis by (intro regex_readsI [of s u s' _ _ _ c']) (auto simp: list_all_iff)
  qed
next
  case (Greedy r)
  show ?case
    using Greedy.prems
  proof (induction "length s" arbitrary: s c rule: less_induct)
    case less
    let ?k = "\<lambda>s' c'. if length s' < length s then match (Greedy r) k s' c' else None"
    show ?case
    proof (cases "match r ?k s c")
      case None
      then have "k s c = Some m" using less.prems by simp
      then show ?thesis by (intro regex_readsI [of s "[]" s _ _ _ c]) auto
    next
      case (Some m')
      then have "match r ?k s c = Some m" using less.prems by simp
      from Greedy.IH [OF this] obtain u s' c' where u: "s = u @ s'" "list_all (consumes r) u" "?k s' c' = Some m"
        unfolding regex_reads_def by blast
      then have "length s' < length s" "match (Greedy r) k s' c' = Some m" by (simp_all split: if_splits)
      from less.hyps [OF this] obtain v s'' c'' where v: "s' = v @ s''" "list_all (consumes (Greedy r)) v" "k s'' c'' = Some m"
        unfolding regex_reads_def by blast
      show ?thesis by (rule regex_readsI [of s "u @ v" s'' _ _ _ c'']) (use u v in \<open>auto simp: list_all_iff\<close>)
    qed
  qed
next
  case (Optional r)
  let ?k = "\<lambda>s' c'. if length s' < length s then k s' c' else None"
  show ?case
  proof (cases "match r ?k s c")
    case None
    then have "k s c = Some m" using Optional.prems by simp
    then show ?thesis by (intro regex_readsI [of s "[]" s _ _ _ c]) auto
  next
    case (Some m')
    then have "match r ?k s c = Some m" using Optional.prems by simp
    from Optional.IH [OF this] obtain u s' c' where u: "s = u @ s'" "list_all (consumes r) u" "?k s' c' = Some m"
      unfolding regex_reads_def by blast
    show ?thesis by (rule regex_readsI [of s u s' _ _ _ c']) (use u in \<open>auto simp: list_all_iff split: if_splits\<close>)
  qed
next
  case (Group n r)
  then obtain u s' c' where u: "s = u @ s'" "list_all (consumes r) u" "demands ch r \<le> count_list u ch"
    "k s' (c'(n := Some (take (length s - length s') s))) = Some m"
    unfolding regex_reads_def match.simps by blast
  show ?case
    unfolding regex_reads_def
    by (rule exI [of _ u], rule exI [of _ s'], rule exI [of _ "c'(n := Some (take (length s - length s') s))"])
      (use u in \<open>simp_all add: list_all_iff\<close>)
next
  case Epsilon
  then show ?case by (intro regex_readsI [of s "[]" s _ _ _ c]) auto
next
  case (Not_ahead r)
  then have "k s c = Some m" by (auto split: option.splits)
  then show ?case by (intro regex_readsI [of s "[]" s _ _ _ c]) auto
qed (auto simp: regex_reads_def split: if_splits)

text \<open>What an expression cannot find it does not match.\<close>

lemma match_none:
  assumes "\<And>u s'. s = u @ s' \<Longrightarrow> list_all (consumes r) u \<Longrightarrow> count_list u ch < demands ch r"
  shows "match r k s c = None"
proof (cases "match r k s c")
  case (Some m)
  from match_reads [OF this, of ch] obtain u s' where "s = u @ s'" "list_all (consumes r) u" "demands ch r \<le> count_list u ch"
    unfolding regex_reads_def by blast
  with assms [of u s'] show ?thesis by simp
qed simp

lemma match_absent: "count_list s ch < demands ch r \<Longrightarrow> match r k s c = None"
  by (rule match_none [where ch = ch]) auto

text \<open>Greedy classes take all they can when what follows can then be matched.\<close>

lemma greedy_class:
  "k (dropWhile p s) c = Some m \<Longrightarrow> match (Greedy (Char p)) k s c = Some m"
proof (induction s)
  case (Cons a s)
  show ?case
  proof (cases "p a")
    case True
    then have "match (Greedy (Char p)) k s c = Some m" using Cons by simp
    then show ?thesis using True by (simp del: match.simps(6) add: match.simps(6) [of _ _ "a # s"])
  next
    case False
    then show ?thesis using Cons.prems by simp
  qed
qed simp

lemma take_length_diff [simp]: "take (length s - length (dropWhile p s)) s = takeWhile p s"
  by (metis length_append takeWhile_dropWhile_id add_diff_cancel_right' append_eq_conv_conj)

lemma captured_class:
  "k (dropWhile p s) (c(n := Some (takeWhile p s))) = Some m \<Longrightarrow> match (Group n (Greedy (Char p))) k s c = Some m"
  unfolding match.simps(8) by (rule greedy_class) simp

text \<open>A repeated class whose every character must not be followed by something.\<close>

fun walk :: "(jschar \<Rightarrow> bool) \<Rightarrow> (jsstr \<Rightarrow> bool) \<Rightarrow> jsstr \<Rightarrow> jsstr" where
  "walk p found [] = []"
| "walk p found (x # s) = (if p x \<and> \<not> found s then walk p found s else x # s)"

lemma greedy_walk:
  assumes "\<And>s c. match r (\<lambda>_ c'. Some c') s c = None \<longleftrightarrow> \<not> found s" "k (walk p found s) c = Some m"
  shows "match (Greedy (Sequence (Char p) (Not_ahead r))) k s c = Some m"
  using assms(2)
proof (induction s)
  case (Cons x s)
  show ?case
  proof (cases "p x \<and> \<not> found s")
    case True
    then have "match (Greedy (Sequence (Char p) (Not_ahead r))) k s c = Some m" using Cons by simp
    moreover have "match r (\<lambda>_ c'. Some c') s c = None" using assms(1) True by simp
    ultimately show ?thesis
      using True by (simp del: match.simps(6) add: match.simps(6) [of _ _ "x # s"])
  next
    case False
    then have "walk p found (x # s) = x # s" by auto
    then have "k (x # s) c = Some m" using Cons.prems by (simp only:)
    moreover have "p x \<Longrightarrow> \<exists>m'. match r (\<lambda>_ c'. Some c') s c = Some m'" using assms(1) [of s c] False by auto
    ultimately show ?thesis by (auto split: option.split)
  qed
qed simp

lemma walk_ends:
  assumes "walk p found s = x # s'"
  shows "\<not> p x \<or> found s'"
  using assms by (induction s) (auto split: if_splits)

lemma dropWhile_walk: "(\<And>x. p x \<Longrightarrow> q x) \<Longrightarrow> dropWhile q (walk p found s) = dropWhile q s"
  by (induction s) auto

lemma suffix_walk: "\<exists>u. s = u @ walk p found s"
  by (induction s) (auto intro: exI [of _ "[]"] exI [of _ "_ # _"])

text \<open>Expressions that can match nothing, whatever comes, so that they never fail by themselves.\<close>

fun skippable :: "regex \<Rightarrow> bool" where
  "skippable Epsilon = True"
| "skippable (Sequence r1 r2) = (skippable r1 \<and> skippable r2)"
| "skippable (Choice r1 r2) = (skippable r1 \<or> skippable r2)"
| "skippable (Greedy r) = True"
| "skippable (Optional r) = True"
| "skippable (Group n r) = skippable r"
| "skippable _ = False"

lemma match_skippable:
  assumes "skippable r" "\<And>s c. k s c \<noteq> None"
  shows "match r k s c \<noteq> None"
  using assms
proof (induction r arbitrary: k s c)
  case (Greedy r)
  show ?case using Greedy.prems(2) by (subst match.simps(6)) (simp split: option.split)
next
  case (Choice r1 r2)
  then have "match r1 k s c \<noteq> None \<or> match r2 k s c \<noteq> None" by auto
  then show ?case by (auto split: option.split)
qed (auto split: option.split)

declare match.simps(6) [simp del]

subsection \<open>Writing expressions down\<close>

definition one_of :: "string \<Rightarrow> regex" where
  "one_of cs = Char (\<lambda>x. x \<in> set (lit cs))"

definition none_of :: "string \<Rightarrow> regex" where
  "none_of cs = Char (\<lambda>x. x \<notin> set (lit cs))"

primrec word :: "string \<Rightarrow> regex" where
  "word [] = Epsilon"
| "word (ch # cs) = Sequence (Char (\<lambda>x. x = of_char ch)) (word cs)"

definition plus :: "regex \<Rightarrow> regex" where
  "plus r = Sequence r (Greedy r)"

primrec up_to :: "nat \<Rightarrow> regex \<Rightarrow> regex" where
  "up_to 0 r = Epsilon"
| "up_to (Suc n) r = Optional (Sequence r (up_to n r))"

text \<open>\<open>exec\<close> of an expression that is anchored at the beginning.\<close>

definition exec :: "regex \<Rightarrow> jsstr \<Rightarrow> captures option" where
  "exec r s = match (Group 0 r) (\<lambda>_ c. Some c) s (\<lambda>_. None)"

end
