(* ===== verification/Parseuri.thy ===== *)
theory Parseuri
  imports Regex
begin

text \<open>
  parseuri (module 2): the regular expression that takes a URI apart, its groups by number, and the treatment of
  addresses in brackets.
\<close>

subsection \<open>The regular expression\<close>

definition user_ahead :: regex where
  "user_ahead = Sequence (plus (none_of '':@'')) (Sequence (word '':'') (Sequence (Greedy (none_of '':@/'')) (word ''@'')))"

definition protocol_re :: regex where
  "protocol_re = Sequence (Not_ahead user_ahead) (Sequence
     (Group 1 (Choice (word ''http'') (Choice (word ''https'') (Choice (word ''ws'') (word ''wss''))))) (word ''://''))"

definition user_re :: regex where
  "user_re = Sequence (Optional (Group 3 (Sequence (Group 4 (Greedy (none_of '':@'')))
     (Optional (Sequence (word '':'') (Group 5 (Greedy (none_of '':@''))))))))  (word ''@'')"

definition hex_part :: regex where
  "hex_part = up_to 4 (one_of ''abcdef0123456789'')"

definition ipv6_re :: regex where
  "ipv6_re = (let part = Sequence hex_part (word '':'') in Sequence part (Sequence part (Sequence (up_to 5 part) hex_part)))"

definition host_re :: regex where
  "host_re = Group 6 (Choice ipv6_re (Greedy (none_of '':/?#'')))"

definition port_re :: regex where
  "port_re = Optional (Sequence (word '':'') (Group 7 (Greedy (one_of ''0123456789''))))"

definition file_ahead :: regex where
  "file_ahead = Sequence (Greedy (none_of ''?#/'')) (Sequence (word ''.'') (Sequence (plus (none_of ''?#/.''))
     (Choice (one_of ''?#'') At_end)))"

definition path_re :: regex where
  "path_re = Group 9 (Sequence
     (Optional (Group 10 (Sequence (word ''/'') (Sequence (Greedy (Sequence (none_of ''?#'') (Not_ahead file_ahead))) (Optional (word ''/''))))))
     (Group 11 (Greedy (none_of ''?#/''))))"

definition line_terminator :: "jschar \<Rightarrow> bool" where
  "line_terminator x \<longleftrightarrow> x \<in> {10, 13, 0x2028, 0x2029}"

definition query_re :: regex where
  "query_re = Optional (Sequence (word ''?'') (Group 12 (Greedy (none_of ''#''))))"

definition anchor_re :: regex where
  "anchor_re = Optional (Sequence (word ''#'') (Group 13 (Greedy (Char (\<lambda>x. \<not> line_terminator x)))))"

definition relative_re :: regex where
  "relative_re = Group 8 (Sequence path_re (Sequence query_re anchor_re))"

definition uri_re :: regex where
  "uri_re = Sequence (Optional protocol_re) (Sequence (Group 2 (Sequence (Optional user_re) (Sequence host_re port_re))) relative_re)"

subsection \<open>Parsing\<close>

record uri =
  u_source :: jsstr
  u_protocol :: jsstr
  u_authority :: jsstr
  u_userInfo :: jsstr
  u_user :: jsstr
  u_password :: jsstr
  u_host :: jsstr
  u_port :: jsstr
  u_relative :: jsstr
  u_path :: jsstr
  u_directory :: jsstr
  u_file :: jsstr
  u_query :: jsstr
  u_anchor :: jsstr
  ipv6uri :: bool

definition index_of :: "char \<Rightarrow> jsstr \<Rightarrow> nat option" where
  "index_of ch s = (if of_char ch \<in> set s then Some (length (takeWhile (\<lambda>x. x \<noteq> of_char ch) s)) else None)"

text \<open>\<open>substring\<close> exchanges its arguments when they are in the wrong order.\<close>

definition substring :: "jsstr \<Rightarrow> nat \<Rightarrow> nat \<Rightarrow> jsstr" where
  "substring s i j = take (max i j - min i j) (drop (min i j) s)"

definition replace_all :: "char \<Rightarrow> char \<Rightarrow> jsstr \<Rightarrow> jsstr" where
  "replace_all a b s = map (\<lambda>x. if x = of_char a then of_char b else x) s"

text \<open>\<open>replace\<close> with a string replaces its first occurrence.\<close>

definition remove_first :: "char \<Rightarrow> jsstr \<Rightarrow> jsstr" where
  "remove_first ch s = remove1 (of_char ch) s"

definition part :: "captures \<Rightarrow> nat \<Rightarrow> jsstr" where
  "part m n = (case m n of None \<Rightarrow> [] | Some s \<Rightarrow> s)"

definition uri_of :: "captures \<Rightarrow> uri" where
  "uri_of m = \<lparr>u_source = part m 0, u_protocol = part m 1, u_authority = part m 2, u_userInfo = part m 3, u_user = part m 4,
     u_password = part m 5, u_host = part m 6, u_port = part m 7, u_relative = part m 8, u_path = part m 9,
     u_directory = part m 10, u_file = part m 11, u_query = part m 12, u_anchor = part m 13, ipv6uri = False\<rparr>"

definition parseuri :: "jsstr \<Rightarrow> uri result" where
  "parseuri str =
     (let b = index_of (CHR ''['') str; e = index_of (CHR '']'') str;
          brackets = (b \<noteq> None \<and> e \<noteq> None);
          text = (if brackets
            then substring str 0 (the b) @ replace_all (CHR '':'') (CHR '';'') (substring str (the b) (the e)) @
              substring str (the e) (length str)
            else str)
      in case exec uri_re text of
           None \<Rightarrow> Inl TypeError
         | Some m \<Rightarrow>
             let u = uri_of m in
             Inr (if brackets then u\<lparr>u_source := str,
                    u_host := replace_all (CHR '';'') (CHR '':'') (substring (u_host u) 1 (length (u_host u) - 1)),
                    u_authority := replace_all (CHR '';'') (CHR '':'') (remove_first (CHR '']'') (remove_first (CHR ''['') (u_authority u))),
                    ipv6uri := True\<rparr>
                  else u))"

text \<open>The expression matches every string, so \<open>m[i]\<close> never reads from \<open>null\<close>.\<close>

lemma uri_re_skippable: "skippable (Group 0 uri_re)"
  by (simp add: uri_re_def host_re_def none_of_def port_re_def relative_re_def path_re_def query_re_def anchor_re_def)

lemma exec_uri_re: "\<exists>m. exec uri_re s = Some m"
proof -
  have "exec uri_re s \<noteq> None" unfolding exec_def by (rule match_skippable [OF uri_re_skippable]) simp
  then show ?thesis by simp
qed

lemma parseuri_total: "\<exists>u. parseuri str = Inr u"
proof -
  define s where "s = (if index_of (CHR ''['') str \<noteq> None \<and> index_of (CHR '']'') str \<noteq> None
    then substring str 0 (the (index_of (CHR ''['') str)) @
      replace_all (CHR '':'') (CHR '';'') (substring str (the (index_of (CHR ''['') str)) (the (index_of (CHR '']'') str))) @
      substring str (the (index_of (CHR '']'') str)) (length str)
    else str)"
  obtain m where "exec uri_re s = Some m" using exec_uri_re by blast
  then show ?thesis unfolding parseuri_def Let_def s_def [symmetric] by simp
qed

subsection \<open>The parts of a URI\<close>

lemma in_lit [simp]: "x \<in> set (lit cs) \<longleftrightarrow> (\<exists>ch \<in> set cs. x = of_char ch)"
  by (auto simp: lit_def)

text \<open>A continuation that always succeeds and leaves the groups that matter alone.\<close>

definition matters :: "nat set" where
  "matters = {1, 6, 7, 9, 12}"

definition agreeing :: "captures \<Rightarrow> captures \<Rightarrow> bool" where
  "agreeing m c \<longleftrightarrow> (\<forall>n \<in> matters. m n = c n)"

definition total :: "continuation \<Rightarrow> bool" where
  "total k \<longleftrightarrow> (\<forall>s c. \<exists>m. k s c = Some m \<and> agreeing m c)"

lemma totalE:
  assumes "total k"
  obtains m where "k s c = Some m" "agreeing m c"
  using assms unfolding total_def by blast

lemma agreeing_upd: "n \<notin> matters \<Longrightarrow> agreeing m (c(n := x)) \<longleftrightarrow> agreeing m c"
  by (auto simp: agreeing_def)

definition query_text :: "jsstr \<Rightarrow> jsstr option" where
  "query_text s = (case s of x # q \<Rightarrow> if x = 63 then Some (takeWhile (\<lambda>x. x \<noteq> 35) q) else None | [] \<Rightarrow> None)"

lemma anchor_match:
  assumes "total k"
  shows "\<exists>m. match anchor_re k s c = Some m \<and> agreeing m c"
proof -
  obtain m where m: "k s c = Some m" "agreeing m c" by (rule totalE [OF assms])
  show ?thesis
  proof (cases "\<exists>s'. s = 35 # s'")
    case False
    then have "match anchor_re k s c = Some m" using m(1) by (auto simp: anchor_re_def split: list.split)
    then show ?thesis using m(2) by blast
  next
    case True
    then obtain s' where s: "s = 35 # s'" by blast
    let ?p = "\<lambda>x. \<not> line_terminator x"
    obtain m' where m': "k (dropWhile ?p s') (c(13 := Some (takeWhile ?p s'))) = Some m'" "agreeing m' (c(13 := Some (takeWhile ?p s')))"
      by (rule totalE [OF assms])
    have "match (Group 13 (Greedy (Char ?p))) (\<lambda>t d. if length t < length s then k t d else None) s' c = Some m'"
      by (rule captured_class) (use m'(1) length_dropWhile_le [of ?p s'] in \<open>simp add: s le_imp_less_Suc\<close>)
    then have "match anchor_re k s c = Some m'" by (simp add: s anchor_re_def)
    then show ?thesis using m'(2) by (auto simp: agreeing_upd matters_def)
  qed
qed

lemma query_match:
  assumes "total k"
  shows "\<exists>m. match query_re (match anchor_re k) s c = Some m \<and>
    agreeing m (case query_text s of None \<Rightarrow> c | Some q \<Rightarrow> c(12 := Some q))"
proof (cases "\<exists>q. s = 63 # q")
  case False
  then have "query_text s = None" by (auto simp: query_text_def split: list.split)
  moreover have "match query_re (match anchor_re k) s c = match anchor_re k s c"
    using False by (auto simp: query_re_def split: list.split)
  ultimately show ?thesis using anchor_match [OF assms, of s c] by simp
next
  case True
  then obtain q where s: "s = 63 # q" by blast
  let ?p = "\<lambda>x. x \<notin> set (lit ''#'')"
  have p: "?p = (\<lambda>x. x \<noteq> 35)" by (simp add: fun_eq_iff)
  obtain m where m: "match anchor_re k (dropWhile ?p q) (c(12 := Some (takeWhile ?p q))) = Some m"
    "agreeing m (c(12 := Some (takeWhile ?p q)))"
    using anchor_match [OF assms] by blast
  have "match (Group 12 (Greedy (Char ?p))) (\<lambda>t d. if length t < length s then match anchor_re k t d else None) q c = Some m"
    by (rule captured_class) (use m(1) length_dropWhile_le [of ?p q] in \<open>simp add: s le_imp_less_Suc\<close>)
  then have "match query_re (match anchor_re k) s c = Some m" by (simp add: s query_re_def none_of_def)
  then show ?thesis using m(2) by (auto simp: s query_text_def p)
qed

subsubsection \<open>The path\<close>

definition in_path :: "jschar \<Rightarrow> bool" where
  "in_path x \<longleftrightarrow> x \<noteq> 63 \<and> x \<noteq> 35"

definition in_file :: "jschar \<Rightarrow> bool" where
  "in_file x \<longleftrightarrow> x \<noteq> 63 \<and> x \<noteq> 35 \<and> x \<noteq> 47"

definition file_follows :: "jsstr \<Rightarrow> bool" where
  "file_follows s \<longleftrightarrow> match file_ahead (\<lambda>_ c. Some c) s (\<lambda>_. None) \<noteq> None"

lemma class_simps: "none_of ''?#'' = Char in_path" "none_of ''?#/'' = Char in_file"
  by (simp_all add: none_of_def in_path_def [abs_def] in_file_def [abs_def])

text \<open>Whether an expression without groups matches does not depend on the groups before it.\<close>

lemma match_captures:
  assumes "\<And>s c c'. k s c = None \<longleftrightarrow> k' s c' = None"
  shows "match r k s c = None \<longleftrightarrow> match r k' s c' = None"
  using assms
proof (induction r arbitrary: k k' s c c')
  case (Sequence r1 r2)
  show ?case unfolding match.simps by (intro Sequence.IH Sequence.prems)
next
  case (Choice r1 r2)
  have "match r1 k s c = None \<longleftrightarrow> match r1 k' s c' = None" by (rule Choice.IH(1)) (rule Choice.prems)
  moreover have "match r2 k s c = None \<longleftrightarrow> match r2 k' s c' = None" by (rule Choice.IH(2)) (rule Choice.prems)
  ultimately show ?case by (auto split: option.split)
next
  case (Greedy r)
  show ?case
  proof (induction "length s" arbitrary: s c c' rule: less_induct)
    case less
    have "match r (\<lambda>s' c'. if length s' < length s then match (Greedy r) k s' c' else None) s c = None \<longleftrightarrow>
      match r (\<lambda>s' c'. if length s' < length s then match (Greedy r) k' s' c' else None) s c' = None"
      by (rule Greedy.IH) (use less in auto)
    then show ?case
      using Greedy.prems [of s c c'] by (auto simp: match.simps(6) [of r _ s] split: option.split)
  qed
next
  case (Optional r)
  have "match r (\<lambda>s' c'. if length s' < length s then k s' c' else None) s c = None \<longleftrightarrow>
      match r (\<lambda>s' c'. if length s' < length s then k' s' c' else None) s c' = None"
    by (rule Optional.IH) (use Optional.prems in auto)
  then show ?case using Optional.prems [of s c c'] by (auto split: option.split)
next
  case (Group n r)
  show ?case unfolding match.simps by (rule Group.IH) (rule Group.prems)
next
  case (Not_ahead r)
  have "match r (\<lambda>_ c'. Some c') s c = None \<longleftrightarrow> match r (\<lambda>_ c'. Some c') s c' = None" by (rule Not_ahead.IH) simp
  then show ?case using Not_ahead.prems [of s c c'] by (auto split: option.split)
qed (auto split: list.split)

lemma file_follows: "match file_ahead (\<lambda>_ c. Some c) s c = None \<longleftrightarrow> \<not> file_follows s"
  using match_captures [of "\<lambda>_ c. Some c" "\<lambda>_ c. Some c" file_ahead s c "\<lambda>_. None"] by (simp add: file_follows_def)

lemma dropWhile_file:
  assumes "list_all in_file u" "s' = [] \<or> hd s' = 63 \<or> hd s' = 35"
  shows "dropWhile in_file (u @ s') = dropWhile in_path (u @ s')"
  using assms
proof (induction u)
  case Nil
  then show ?case by (cases s') (auto simp: in_file_def in_path_def)
next
  case (Cons x u)
  then have "in_file x" "in_path x" by (simp_all add: in_file_def in_path_def)
  then show ?case using Cons by simp
qed

lemma file_to_end:
  assumes "file_follows s"
  shows "dropWhile in_file s = dropWhile in_path s"
proof -
  let ?fin = "Choice (one_of ''?#'') At_end"
  let ?k = "\<lambda>_ c. Some c"
  let ?ext = "Sequence (plus (none_of ''?#/.'')) ?fin"
  obtain m where "match file_ahead ?k s (\<lambda>_. None) = Some m" using assms by (auto simp: file_follows_def)
  then have "match (Greedy (Char in_file)) (match (Sequence (word ''.'') ?ext) ?k) s (\<lambda>_. None) = Some m"
    by (simp only: file_ahead_def class_simps match.simps(4))
  from match_reads [OF this, of 0] obtain u s1 c1 where u: "s = u @ s1" "list_all in_file u" "match (Sequence (word ''.'') ?ext) ?k s1 c1 = Some m"
    unfolding regex_reads_def consumes.simps by blast
  then obtain s2 where s2: "s1 = 46 # s2" "match (plus (none_of ''?#/.'')) (match ?fin ?k) s2 c1 = Some m"
    by (auto split: list.splits if_splits)
  from match_reads [OF s2(2), of 0] obtain v s3 c3 where v: "s2 = v @ s3" "list_all (consumes (plus (none_of ''?#/.''))) v" "match ?fin ?k s3 c3 = Some m"
    unfolding regex_reads_def by blast
  have "list_all in_file (u @ 46 # v)"
    using u(2) v(2) by (auto simp: list_all_iff plus_def none_of_def in_file_def)
  moreover have "s3 = [] \<or> hd s3 = 63 \<or> hd s3 = 35"
    using v(3) by (auto simp: one_of_def split: list.splits if_splits)
  ultimately have "dropWhile in_file ((u @ 46 # v) @ s3) = dropWhile in_path ((u @ 46 # v) @ s3)" by (rule dropWhile_file)
  then show ?thesis by (simp add: u(1) s2(1) v(1))
qed

lemma word_match:
  "match (word [ch]) k (x # s) c = (if x = of_char ch then k s c else None)"
  "match (word [ch]) k [] c = None"
  by simp_all

lemma file_match:
  assumes "\<And>s c. \<exists>m. k s c = Some m"
  shows "match (Group 11 (Greedy (Char in_file))) k s c = k (dropWhile in_file s) (c(11 := Some (takeWhile in_file s)))"
proof -
  obtain m where m: "k (dropWhile in_file s) (c(11 := Some (takeWhile in_file s))) = Some m" using assms(1) by blast
  have "match (Group 11 (Greedy (Char in_file))) k s c = Some m" by (rule captured_class) (rule m)
  then show ?thesis using m by simp
qed

lemma directory_match:
  assumes "\<And>s c. length s \<le> length t \<Longrightarrow> \<exists>m. k s c = Some m"
  shows "\<exists>u w. t = u @ w \<and> dropWhile in_file w = dropWhile in_path t \<and>
    match (Sequence (Greedy (Sequence (Char in_path) (Not_ahead file_ahead))) (Optional (word ''/''))) k t c = k w c"
proof -
  let ?w = "walk in_path file_follows t"
  obtain u where t: "t = u @ ?w" using suffix_walk by blast
  have same: "dropWhile in_path ?w = dropWhile in_path t" by (rule dropWhile_walk) simp
  have len: "length ?w \<le> length t" using t by (metis le_add2 length_append)
  have step: "match (Sequence (Greedy (Sequence (Char in_path) (Not_ahead file_ahead))) (Optional (word ''/''))) k t c = k w c"
    if w: "match (Optional (word ''/'')) k ?w c = k w c" "length w \<le> length t" for w
  proof -
    obtain m where "k w c = Some m" using assms [OF w(2)] by blast
    then show ?thesis using greedy_walk [OF file_follows, of "match (Optional (word ''/'')) k" in_path t c m] w(1) by simp
  qed
  show ?thesis
  proof (cases "\<exists>w. ?w = 47 # w")
    case True
    then obtain w where w: "?w = 47 # w" by blast
    have "file_follows w" using walk_ends [OF w] by (simp add: in_path_def)
    then have "dropWhile in_file w = dropWhile in_path t"
      using file_to_end same w by (simp add: in_path_def)
    moreover have "match (Optional (word ''/'')) k ?w c = k w c"
      using assms [of w c] len by (auto simp: w)
    moreover have "t = (u @ [47]) @ w" using t w by simp
    moreover have "length w \<le> length t" using len w by simp
    ultimately show ?thesis using step by blast
  next
    case False
    have "dropWhile in_file ?w = dropWhile in_path ?w"
    proof (cases ?w)
      case (Cons x w)
      have "x \<noteq> 47" using False Cons by blast
      then show ?thesis using walk_ends [OF Cons] file_to_end [of w] Cons by (auto simp: in_file_def in_path_def)
    qed simp
    moreover have "match (Optional (word ''/'')) k ?w c = k ?w c" using False by (auto split: list.split)
    ultimately show ?thesis using step [OF _ len] same t by metis
  qed
qed

lemma path_match:
  assumes "\<And>s c. \<exists>m. k s c = Some m" "s = [] \<or> hd s \<in> {47, 63, 35}"
  shows "\<exists>c'. agreeing c' c \<and> match path_re k s c = k (dropWhile in_path s) (c'(9 := Some (takeWhile in_path s)))"
proof -
  let ?k = "\<lambda>s' c'. k s' (c'(9 := Some (take (length s - length s') s)))"
  let ?file = "Group 11 (Greedy (Char in_file))"
  let ?dir = "Sequence (Greedy (Sequence (Char in_path) (Not_ahead file_ahead))) (Optional (word ''/''))"
  have k: "\<exists>m. ?k s c = Some m" for s c using assms(1) .
  have path: "match path_re k s c = match (Optional (Group 10 (Sequence (word ''/'') ?dir))) (match ?file ?k) s c"
    by (simp only: path_re_def match.simps(4,8) class_simps)
  show ?thesis
  proof (cases "\<exists>t. s = 47 # t")
    case True
    then obtain t where s: "s = 47 # t" by blast
    let ?k2 = "\<lambda>s' c'. if length s' < length s then match ?file ?k s' c' else None"
    let ?k3 = "\<lambda>s' c'. ?k2 s' (c'(10 := Some (take (length s - length s') s)))"
    have k3: "\<exists>m. ?k3 s' c' = Some m" if "length s' \<le> length t" for s' c'
      using that k file_match [of ?k, OF k] by (simp add: s le_imp_less_Suc del: match.simps)
    from directory_match [of t ?k3 c, OF k3] obtain u w where w: "t = u @ w" "dropWhile in_file w = dropWhile in_path t"
      "match ?dir ?k3 t c = ?k3 w c" by blast
    let ?c = "c(10 := Some (take (length s - length w) s), 11 := Some (takeWhile in_file w))"
    have "?k3 w c = ?k (dropWhile in_path t) ?c"
      using file_match [of ?k, OF k] w(1,2) by (simp add: s del: match.simps)
    moreover have "match (Group 10 (Sequence (word ''/'') ?dir)) ?k2 s c = match ?dir ?k3 t c"
    proof -
      have "match (Group 10 (Sequence (word ''/'') ?dir)) ?k2 s c = match (word ''/'') (match ?dir ?k3) s c"
        by (simp only: match.simps(4,8))
      also have "\<dots> = match (word ''/'') (match ?dir ?k3) (47 # t) c" by (rule arg_cong [OF s])
      also have "\<dots> = match ?dir ?k3 t c" unfolding word_match(1) by (rule if_P) simp
      finally show ?thesis .
    qed
    ultimately have "match (Group 10 (Sequence (word ''/'') ?dir)) ?k2 s c = ?k (dropWhile in_path t) ?c" using w(3) by simp
    moreover have "match path_re k s c = (case match (Group 10 (Sequence (word ''/'') ?dir)) ?k2 s c of
        Some m \<Rightarrow> Some m | None \<Rightarrow> match ?file ?k s c)"
      unfolding path by (simp only: match.simps(7))
    moreover obtain m where "?k (dropWhile in_path t) ?c = Some m" using k by blast
    ultimately have "match path_re k s c = ?k (dropWhile in_path t) ?c" by simp
    moreover have "dropWhile in_path s = dropWhile in_path t" by (simp add: s in_path_def)
    ultimately show ?thesis
      using take_length_diff [of s in_path] by (intro exI [of _ ?c]) (simp add: agreeing_def matters_def)
  next
    case False
    then have "match path_re k s c = match ?file ?k s c"
      unfolding path by (auto split: list.split)
    moreover have ends: "dropWhile in_file s = dropWhile in_path s" "dropWhile in_path s = s"
      using assms(2) False by (cases s; auto simp: in_file_def in_path_def)+
    ultimately have "match path_re k s c = ?k (dropWhile in_path s) (c(11 := Some (takeWhile in_file s)))"
      using file_match [of ?k s c, OF k] by simp
    then show ?thesis by (intro exI [of _ "c(11 := Some (takeWhile in_file s))"]) (simp add: agreeing_def matters_def)
  qed
qed

subsubsection \<open>Protocol and authority\<close>

lemma relative_match:
  assumes "total k" "s = [] \<or> hd s \<in> {47, 63, 35}"
  shows "\<exists>m. match relative_re k s c = Some m \<and>
    agreeing m (case query_text (dropWhile in_path s) of
        None \<Rightarrow> c(9 := Some (takeWhile in_path s))
      | Some q \<Rightarrow> c(9 := Some (takeWhile in_path s), 12 := Some q))"
proof -
  let ?k = "\<lambda>s' c'. k s' (c'(8 := Some (take (length s - length s') s)))"
  let ?fin = "match (Sequence query_re anchor_re) ?k"
  have "total ?k"
    unfolding total_def
  proof (intro allI)
    fix s' c'
    obtain m where "k s' (c'(8 := Some (take (length s - length s') s))) = Some m"
      "agreeing m (c'(8 := Some (take (length s - length s') s)))"
      by (rule totalE [OF assms(1)])
    then show "\<exists>m. ?k s' c' = Some m \<and> agreeing m c'" by (simp add: agreeing_upd matters_def)
  qed
  note fin = query_match [OF this]
  then have tot: "\<exists>m. ?fin s c = Some m" for s c using fin [of s c] by auto
  have "\<exists>c'. agreeing c' c \<and> match path_re ?fin s c = ?fin (dropWhile in_path s) (c'(9 := Some (takeWhile in_path s)))"
    by (rule path_match [OF tot assms(2)])
  then obtain c' where c': "agreeing c' c"
    "match path_re ?fin s c = ?fin (dropWhile in_path s) (c'(9 := Some (takeWhile in_path s)))" by blast
  from fin [of "dropWhile in_path s" "c'(9 := Some (takeWhile in_path s))"] obtain m where
    m: "?fin (dropWhile in_path s) (c'(9 := Some (takeWhile in_path s))) = Some m"
    "agreeing m (case query_text (dropWhile in_path s) of None \<Rightarrow> c'(9 := Some (takeWhile in_path s))
       | Some q \<Rightarrow> c'(9 := Some (takeWhile in_path s), 12 := Some q))"
    by auto
  have "match relative_re k s c = Some m"
    using c'(2) m(1) by (simp only: relative_re_def match.simps(4,8))
  moreover have "agreeing m (case query_text (dropWhile in_path s) of None \<Rightarrow> c(9 := Some (takeWhile in_path s))
      | Some q \<Rightarrow> c(9 := Some (takeWhile in_path s), 12 := Some q))"
    using m(2) c'(1) by (auto simp: agreeing_def split: option.splits)
  ultimately show ?thesis by blast
qed

definition host_char :: "jschar \<Rightarrow> bool" where
  "host_char x \<longleftrightarrow> x \<notin> {58, 47, 63, 35, 64, 91}"

definition port_digit :: "jschar \<Rightarrow> bool" where
  "port_digit x \<longleftrightarrow> x \<in> set (lit ''0123456789'')"

definition port_text :: "jsstr option \<Rightarrow> jsstr" where
  "port_text p = (case p of None \<Rightarrow> [] | Some ds \<Rightarrow> 58 # ds)"

definition tail_ok :: "jsstr \<Rightarrow> bool" where
  "tail_ok s \<longleftrightarrow> s = [] \<or> hd s \<in> {47, 63, 35}"

lemma protocol_match:
  assumes "proto \<in> {''http'', ''https'', ''ws'', ''wss''}" "64 \<notin> set rest" "k rest (c(1 := Some (lit proto))) = Some m"
  shows "match protocol_re k (lit proto @ lit ''://'' @ rest) c = Some m"
proof -
  let ?s = "lit proto @ lit ''://'' @ rest"
  have "count_list ?s 64 = 0" using assms(1,2) by (auto simp: lit_def count_list_0_iff)
  then have "match user_ahead (\<lambda>_ c. Some c) ?s c = None"
    by (intro match_absent [where ch = 64]) (simp add: user_ahead_def)
  then show ?thesis
    using assms(1,3) by (auto simp: protocol_re_def lit_def)
qed

lemma no_user:
  assumes "64 \<notin> set s"
  shows "match (Optional user_re) k s c = k s c"
proof -
  have "match user_re (\<lambda>s' c'. if length s' < length s then k s' c' else None) s c = None"
    using assms by (intro match_absent [where ch = 64]) (simp add: user_re_def count_list_0_iff)
  then show ?thesis by simp
qed

lemma count_prefix: "s = u @ s' \<Longrightarrow> list_all p u \<Longrightarrow> count_list u x \<le> count_list (takeWhile p s) x"
  by (induction u arbitrary: s) (auto simp: count_list_append)

lemma takeWhile_stop: "w = [] \<or> \<not> p (hd w) \<Longrightarrow> takeWhile p (v @ w) = takeWhile p v"
proof (induction v)
  case Nil
  then show ?case by (cases w) auto
qed simp

lemma consumes_up_to [simp]: "consumes (up_to n r) x \<longleftrightarrow> 0 < n \<and> consumes r x"
  by (induction n) auto

lemma demands_up_to [simp]: "demands ch (up_to n r) = 0"
  by (cases n) auto

lemma count_takeWhile: "count_list (takeWhile p s) x \<le> count_list s x"
  by (metis count_list_append le_add1 takeWhile_dropWhile_id)

lemma no_ipv6:
  assumes "list_all host_char h" "list_all port_digit (case port of None \<Rightarrow> [] | Some ds \<Rightarrow> ds)" "tail_ok w"
  shows "match ipv6_re k (h @ port_text port @ w) c = None"
proof (rule match_none [where ch = 58])
  fix u s' assume u: "h @ port_text port @ w = u @ s'" "list_all (consumes ipv6_re) u"
  have stop: "w = [] \<or> \<not> consumes ipv6_re (hd w)"
    using assms(3) by (auto simp: tail_ok_def ipv6_re_def hex_part_def one_of_def Let_def)
  have none: "count_list xs 58 = 0" if "list_all port_digit xs \<or> list_all host_char xs" for xs
    using that by (auto simp: count_list_0_iff list_all_iff port_digit_def host_char_def)
  have "count_list u 58 \<le> count_list (takeWhile (consumes ipv6_re) ((h @ port_text port) @ w)) 58"
    by (rule count_prefix [OF _ u(2)]) (use u(1) in simp)
  also have "\<dots> \<le> count_list (h @ port_text port) 58"
    unfolding takeWhile_stop [of w "consumes ipv6_re" "h @ port_text port", OF stop] by (rule count_takeWhile)
  also have "\<dots> \<le> 1"
    using none [of h] none [of "case port of None \<Rightarrow> [] | Some ds \<Rightarrow> ds"] assms(1,2)
    by (auto simp: port_text_def count_list_append split: option.splits)
  finally show "count_list u 58 < demands 58 ipv6_re"
    by (simp add: ipv6_re_def hex_part_def Let_def)
qed

lemma host_match:
  assumes "list_all host_char h" "list_all port_digit (case port of None \<Rightarrow> [] | Some ds \<Rightarrow> ds)" "tail_ok w"
    "k (port_text port @ w) (c(6 := Some h)) = Some m"
  shows "match host_re k (h @ port_text port @ w) c = Some m"
proof -
  let ?s = "h @ port_text port @ w" and ?p = "\<lambda>x. x \<notin> set (lit '':/?#'')"
  let ?k = "\<lambda>s' c'. k s' (c'(6 := Some (take (length ?s - length s') ?s)))"
  have "dropWhile ?p (port_text port @ w) = port_text port @ w"
    using assms(3) by (cases w) (auto simp: port_text_def tail_ok_def split: option.split)
  moreover have "\<forall>x \<in> set h. ?p x" using assms(1) by (auto simp: list_all_iff host_char_def)
  ultimately have rest: "dropWhile ?p ?s = port_text port @ w" by (simp add: dropWhile_append2)
  have "match (Greedy (Char ?p)) ?k ?s c = Some m"
    by (rule greedy_class) (simp only: rest, use assms(4) in simp)
  then show ?thesis
    using no_ipv6 [OF assms(1-3)] by (simp only: host_re_def none_of_def match.simps(5,8) option.case)
qed

lemma port_match:
  assumes "list_all port_digit (case port of None \<Rightarrow> [] | Some ds \<Rightarrow> ds)" "tail_ok w"
    "k w (case port of None \<Rightarrow> c | Some ds \<Rightarrow> c(7 := Some ds)) = Some m"
  shows "match port_re k (port_text port @ w) c = Some m"
proof (cases port)
  case None
  then show ?thesis using assms(2,3) by (auto simp: port_re_def port_text_def tail_ok_def split: list.split)
next
  case (Some ds)
  have p: "one_of ''0123456789'' = Char port_digit" by (simp add: one_of_def port_digit_def [abs_def])
  have "\<forall>x \<in> set ds. port_digit x" using assms(1) Some by (simp add: list_all_iff)
  moreover have "takeWhile port_digit w = []" "dropWhile port_digit w = w"
    using assms(2) by (cases w; auto simp: tail_ok_def port_digit_def)+
  ultimately have "takeWhile port_digit (ds @ w) = ds" "dropWhile port_digit (ds @ w) = w"
    by (simp_all add: takeWhile_append2 dropWhile_append2)
  note ends = this
  let ?s = "58 # ds @ w" and ?digits = "Group 7 (Greedy (Char port_digit))"
  let ?k = "\<lambda>s' c'. if length s' < length ?s then k s' c' else None"
  have "match ?digits ?k (ds @ w) c = Some m"
    by (rule captured_class) (use ends assms(3) Some in simp)
  then have "match (Sequence (word '':'') ?digits) ?k ?s c = Some m"
    unfolding match.simps(4) word_match(1) by simp
  then have "match port_re k ?s c = Some m"
    by (simp only: port_re_def p match.simps(7) option.case)
  then show ?thesis by (simp add: Some port_text_def)
qed

lemma total_exec: "total (\<lambda>s' c'. Some (c'(0 := Some (f s'))))"
  by (simp add: total_def agreeing_def matters_def)

lemma exec_uri:
  assumes "proto \<in> {''http'', ''https'', ''ws'', ''wss''}" "list_all host_char h"
    "list_all port_digit (case port of None \<Rightarrow> [] | Some ds \<Rightarrow> ds)" "tail_ok w" "64 \<notin> set w"
  shows "\<exists>m. exec uri_re (lit proto @ lit ''://'' @ h @ port_text port @ w) = Some m \<and> part m 1 = lit proto \<and> part m 6 = h \<and>
    part m 7 = (case port of None \<Rightarrow> [] | Some ds \<Rightarrow> ds) \<and> part m 9 = takeWhile in_path w \<and>
    part m 12 = (case query_text (dropWhile in_path w) of None \<Rightarrow> [] | Some q \<Rightarrow> q)"
proof -
  let ?rest = "h @ port_text port @ w"
  let ?s = "lit proto @ lit ''://'' @ ?rest"
  let ?k0 = "\<lambda>s' c'. Some (c'(0 := Some (take (length ?s - length s') ?s)))"
  define c1 :: captures where "c1 = (\<lambda>_. None)(1 := Some (lit proto))"
  define B where "B = Sequence (Optional user_re) (Sequence host_re port_re)"
  let ?k2 = "\<lambda>s' c'. match relative_re ?k0 s' (c'(2 := Some (take (length ?rest - length s') ?rest)))"
  define c3 where "c3 = (case port of None \<Rightarrow> c1(6 := Some h) | Some ds \<Rightarrow> c1(6 := Some h, 7 := Some ds))"
  define c4 where "c4 = c3(2 := Some (take (length ?rest - length w) ?rest))"
  have at: "64 \<notin> set ?rest"
    using assms(2,3,5) by (auto simp: list_all_iff host_char_def port_digit_def port_text_def split: option.splits)
  have "total ?k0" by (rule total_exec)
  from relative_match [OF this, of w c4] obtain m where m: "match relative_re ?k0 w c4 = Some m"
    "agreeing m (case query_text (dropWhile in_path w) of
        None \<Rightarrow> c4(9 := Some (takeWhile in_path w)) | Some q \<Rightarrow> c4(9 := Some (takeWhile in_path w), 12 := Some q))"
    using assms(4) unfolding tail_ok_def by blast
  have c3: "c3 = (case port of None \<Rightarrow> (c1(6 := Some h)) | Some ds \<Rightarrow> (c1(6 := Some h))(7 := Some ds))"
    by (simp add: c3_def)
  have "match port_re ?k2 (port_text port @ w) (c1(6 := Some h)) = Some m"
    by (rule port_match [OF assms(3,4)]) (use m(1) in \<open>simp only: c4_def c3\<close>)
  then have "match host_re (match port_re ?k2) ?rest c1 = Some m" by (rule host_match [OF assms(2-4)])
  then have "match (Sequence (Group 2 B) relative_re) ?k0 ?rest c1 = Some m"
    by (simp only: B_def match.simps(4,8) no_user [OF at])
  then have "match protocol_re (\<lambda>s' c'. if length s' < length ?s then match (Sequence (Group 2 B) relative_re) ?k0 s' c' else None) ?s (\<lambda>_. None) = Some m"
    by (intro protocol_match [OF assms(1) at]) (simp add: c1_def lit_def del: match.simps)
  then have "exec uri_re ?s = Some m"
    by (simp only: exec_def uri_re_def B_def match.simps(4,7,8) option.case)
  moreover have "agreeing m (case query_text (dropWhile in_path w) of
        None \<Rightarrow> c3(9 := Some (takeWhile in_path w)) | Some q \<Rightarrow> c3(9 := Some (takeWhile in_path w), 12 := Some q))"
    using m(2) by (auto simp: agreeing_def matters_def c4_def split: option.splits)
  ultimately show ?thesis
    by (intro exI [of _ m]) (auto simp: agreeing_def matters_def part_def c3_def c1_def split: option.splits)
qed

subsection \<open>Properties\<close>

definition query_string :: "jsstr option \<Rightarrow> jsstr" where
  "query_string q = (case q of None \<Rightarrow> [] | Some q \<Rightarrow> 63 # q)"

lemma parse_parts:
  assumes "proto \<in> {''http'', ''https'', ''ws'', ''wss''}" "list_all host_char h"
    and "list_all port_digit (case port of None \<Rightarrow> [] | Some ds \<Rightarrow> ds)"
    and "p = [] \<or> hd p = 47" "list_all in_path p" "35 \<notin> set (case q of None \<Rightarrow> [] | Some q \<Rightarrow> q)"
    and "64 \<notin> set (p @ query_string q)" "91 \<notin> set (p @ query_string q)"
  shows "\<exists>u. parseuri (lit proto @ lit ''://'' @ h @ port_text port @ p @ query_string q) = Inr u \<and>
    u_protocol u = lit proto \<and> u_host u = h \<and> u_port u = (case port of None \<Rightarrow> [] | Some ds \<Rightarrow> ds) \<and>
    u_path u = p \<and> u_query u = (case q of None \<Rightarrow> [] | Some q \<Rightarrow> q)"
proof -
  let ?w = "p @ query_string q"
  let ?s = "lit proto @ lit ''://'' @ h @ port_text port @ ?w"
  have "tail_ok ?w" using assms(4) by (cases p) (auto simp: tail_ok_def query_string_def split: option.split)
  from exec_uri [OF assms(1-3) this assms(7)] obtain m where m: "exec uri_re ?s = Some m" "part m 1 = lit proto" "part m 6 = h"
    "part m 7 = (case port of None \<Rightarrow> [] | Some ds \<Rightarrow> ds)" "part m 9 = takeWhile in_path ?w"
    "part m 12 = (case query_text (dropWhile in_path ?w) of None \<Rightarrow> [] | Some q \<Rightarrow> q)" by blast
  have "\<forall>x \<in> set p. in_path x" using assms(5) by (simp add: list_all_iff)
  then have path: "takeWhile in_path ?w = p" "dropWhile in_path ?w = query_string q"
    by (auto simp: query_string_def in_path_def split: option.split)
  have "takeWhile (\<lambda>x. x \<noteq> 35) r = r" if "35 \<notin> set r" for r :: jsstr
    using that by (induction r) auto
  then have query: "(case query_text (query_string q) of None \<Rightarrow> [] | Some q \<Rightarrow> q) = (case q of None \<Rightarrow> [] | Some q \<Rightarrow> q)"
    using assms(6) by (auto simp: query_text_def query_string_def split: option.splits)
  have "91 \<notin> set ?s"
    using assms(1-3,8)
    by (auto simp: lit_def list_all_iff host_char_def port_digit_def port_text_def split: option.splits)
  then have "index_of (CHR ''['') ?s = None" by (simp add: index_of_def)
  then have "parseuri ?s = Inr (uri_of m)" using m(1) by (simp add: parseuri_def Let_def)
  then show ?thesis using m(2-) by (simp add: uri_of_def path query)
qed

text \<open>
  C24. A URI is taken apart into what it was put together from: its protocol, host, port, path and query, for every host, path and query that
  need no escaping.
\<close>

theorem parseuri_parts:
  assumes "proto \<in> {''http'', ''https'', ''ws'', ''wss''}" "list_all host_char h"
    and "list_all port_digit (case port of None \<Rightarrow> [] | Some ds \<Rightarrow> ds)"
    and "p = [] \<or> hd p = 47" "list_all in_path p" "35 \<notin> set (case q of None \<Rightarrow> [] | Some q \<Rightarrow> q)"
    and "64 \<notin> set (p @ query_string q)" "91 \<notin> set (p @ query_string q)"
  shows "\<exists>u. parseuri (lit proto @ lit ''://'' @ h @ port_text port @ p @ query_string q) = Inr u \<and>
    u_protocol u = lit proto \<and> u_host u = h \<and> u_port u = (case port of None \<Rightarrow> [] | Some ds \<Rightarrow> ds) \<and>
    u_path u = p \<and> u_query u = (case q of None \<Rightarrow> [] | Some q \<Rightarrow> q)"
  using assms by (rule parse_parts)

theorem parseuri_parts_witness:
  "\<exists>u. parseuri (lit ''https'' @ lit ''://'' @ lit ''cafe.org'' @ port_text (Some (lit ''8080'')) @ lit ''/chat/a.b/c'' @
      query_string (Some (lit ''x=1:2'')))
      = Inr u \<and> u_protocol u = lit ''https'' \<and> u_host u = lit ''cafe.org'' \<and>
    u_port u = (case Some (lit ''8080'') of None \<Rightarrow> [] | Some ds \<Rightarrow> ds) \<and>
    u_path u = lit ''/chat/a.b/c'' \<and> u_query u = (case Some (lit ''x=1:2'') of None \<Rightarrow> [] | Some q \<Rightarrow> q)"
  by (rule parseuri_parts) (simp_all add: lit_def host_char_def port_digit_def in_path_def query_string_def)

text \<open>An at sign in the path or the query is taken for the end of a user name, and what follows it for the host.\<close>

definition wrong_host :: bool where
  "wrong_host = (case parseuri (lit ''ws://h/?@c'') of Inr u \<Rightarrow> u_host u = lit ''c'' | Inl _ \<Rightarrow> False)"

lemma at_sign_moves_host: wrong_host
  unfolding wrong_host_def by code_simp

end
