(* ===== verification/Lookup.thy ===== *)
theory Lookup
  imports Parseuri Emitter ManagerInv EngineFlow
begin

text \<open>
  The entry of the client: url (module 1), which completes a URI from the page's location and gives it the id of its
  server, and lookup (module 0), which keeps one manager for each server in a cache and opens the sockets of its namespaces on it.
\<close>

subsection \<open>Completing a URI\<close>

record page =
  loc_protocol :: jsstr
  loc_host :: jsstr
  loc_port :: jsstr

record located_uri = uri +
  l_id :: jsstr
  href :: jsstr

definition absolute_re :: regex where
  "absolute_re = Sequence (Choice (Sequence (word ''http'') (Optional (word ''s''))) (Sequence (word ''ws'') (Optional (word ''s''))))
     (word ''://'')"

definition from_page :: "page option \<Rightarrow> (page \<Rightarrow> jsstr) \<Rightarrow> jsstr result" where
  "from_page loc f = (case loc of None \<Rightarrow> Inl TypeError | Some l \<Rightarrow> Inr (f l))"

definition char_at :: "nat \<Rightarrow> jsstr \<Rightarrow> jsstr" where
  "char_at n s = take 1 (drop n s)"

definition resolve :: "page option \<Rightarrow> jsstr option \<Rightarrow> jsstr result" where
  "resolve loc uri =
     bindE (case uri of None \<Rightarrow> from_page loc (\<lambda>l. loc_protocol l @ lit ''//'' @ loc_host l) | Some s \<Rightarrow> Inr s) (\<lambda>s.
     bindE (if char_at 0 s = lit ''/''
            then if char_at 1 s = lit ''/'' then from_page loc (\<lambda>l. loc_protocol l @ s) else from_page loc (\<lambda>l. loc_host l @ s)
            else Inr s) (\<lambda>s.
     Inr (if exec absolute_re s \<noteq> None then s
          else (case loc of Some l \<Rightarrow> loc_protocol l @ lit ''//'' @ s | None \<Rightarrow> lit ''https://'' @ s))))"

definition complete_port :: "uri \<Rightarrow> uri" where
  "complete_port u =
     (if u_port u \<noteq> [] then u
      else if u_protocol u \<in> {lit ''http'', lit ''ws''} then u\<lparr>u_port := lit ''80''\<rparr>
      else if u_protocol u \<in> {lit ''https'', lit ''wss''} then u\<lparr>u_port := lit ''443''\<rparr>
      else u)"

definition complete_path :: "uri \<Rightarrow> uri" where
  "complete_path u = (if u_path u = [] then u\<lparr>u_path := lit ''/''\<rparr> else u)"

definition bracketed :: "jsstr \<Rightarrow> jsstr" where
  "bracketed h = (if index_of (CHR '':'') h \<noteq> None then lit ''['' @ h @ lit '']'' else h)"

definition server :: "uri \<Rightarrow> jsstr" where
  "server u = u_protocol u @ lit ''://'' @ bracketed (u_host u)"

definition url :: "page option \<Rightarrow> jsstr option \<Rightarrow> located_uri result" where
  "url loc uri =
     bindE (resolve loc uri) (\<lambda>s.
     bindE (parseuri s) (\<lambda>u.
       let u = complete_path (complete_port u) in
       Inr (uri.extend u (located_uri.fields (server u @ lit '':'' @ u_port u)
         (server u @ (if loc \<noteq> None \<and> loc_port (the loc) = u_port u then [] else lit '':'' @ u_port u))))))"

subsection \<open>The cache of managers\<close>

record lookup_opts =
  lo_manager :: manager_opts
  forceNew :: bool              \<comment> \<open>\<open>forceNew\<close> or \<open>'force new connection'\<close>\<close>
  multiplex :: "bool option"

text \<open>Every manager that was made, and the cache from the id of a server to its manager.\<close>

record 'w client =
  cache :: "(jsstr \<times> nat) list"
  managers :: "'w manager_scheme list"

text \<open>\<open>path in nsps\<close> also finds what every object inherits.\<close>

definition has_namespace :: "jsstr \<Rightarrow> 'w manager_scheme \<Rightarrow> bool" where
  "has_namespace p m \<longleftrightarrow> map_of (nsps m) p \<noteq> None \<or> map_of object_prototype p \<noteq> None"

definition cached :: "'w client \<Rightarrow> jsstr \<Rightarrow> nat option" where
  "cached c i = map_of (cache c) i"

definition newConnection :: "lookup_opts \<Rightarrow> jsstr \<Rightarrow> jsstr \<Rightarrow> 'w client \<Rightarrow> bool" where
  "newConnection opts i p c \<longleftrightarrow> forceNew opts \<or> multiplex opts = Some False \<or>
     (case cached c i of None \<Rightarrow> False | Some k \<Rightarrow> has_namespace p (managers c ! k))"

text \<open>The engine takes its URI apart by itself.\<close>

definition engine_uri :: "uri \<Rightarrow> parsed_uri" where
  "engine_uri u = \<lparr>uri_host = u_host u, uri_protocol = u_protocol u, uri_port = u_port u, uri_query = u_query u\<rparr>"

text \<open>\<open>Manager(source, opts)\<close>; what its constructor throws leaves \<open>lookup\<close>.\<close>

definition create_manager ::
  "browser \<Rightarrow> jsstr \<Rightarrow> manager_opts \<Rightarrow> (nat \<Rightarrow> rat) \<Rightarrow> 'w \<Rightarrow> 'w client \<Rightarrow> nat result \<times> 'w client" where
  "create_manager b source mo random w c =
     (case parseuri source of
        Inl e \<Rightarrow> (Inl e, c)
      | Inr u \<Rightarrow>
          let m = new_manager b (Some (engine_uri u)) mo random w in
          (case thrown m of
             Some e \<Rightarrow> (Inl e, c)
           | None \<Rightarrow> (Inr (length (managers c)), c\<lparr>managers := managers c @ [m]\<rparr>)))"

definition find_manager ::
  "browser \<Rightarrow> located_uri \<Rightarrow> lookup_opts \<Rightarrow> (nat \<Rightarrow> rat) \<Rightarrow> 'w \<Rightarrow> 'w client \<Rightarrow> (nat \<times> bool) result \<times> 'w client" where
  "find_manager b l opts random w c =
     (if newConnection opts (l_id l) (u_path l) c
      then case create_manager b (u_source l) (lo_manager opts) random w c of
             (Inl e, c) \<Rightarrow> (Inl e, c) | (Inr k, c) \<Rightarrow> (Inr (k, True), c)
      else case cached c (l_id l) of
             Some k \<Rightarrow> (Inr (k, False), c)
           | None \<Rightarrow> (case create_manager b (u_source l) (lo_manager opts) random w c of
               (Inl e, c) \<Rightarrow> (Inl e, c) | (Inr k, c) \<Rightarrow> (Inr (k, True), c\<lparr>cache := cache c @ [(l_id l, k)]\<rparr>)))"

text \<open>
  The options of a manager are the object that was given to \<open>lookup\<close>: the constructor of an engine may have put the query of the URI
  into it, and what \<open>lookup\<close> then stores the manager will use.
\<close>

definition query_after :: "bool \<Rightarrow> located_uri \<Rightarrow> lookup_opts \<Rightarrow> jsstr + (jsstr \<times> jsval) list" where
  "query_after opened l opts = (if opened \<and> u_query l \<noteq> [] then Inl (u_query l) else so_query (mo_engine (lo_manager opts)))"

definition lookup_query :: "located_uri \<Rightarrow> jsstr + (jsstr \<times> jsval) list \<Rightarrow> jsstr result" where
  "lookup_query l q =
     (if u_query l \<noteq> [] \<and> q = Inl [] then Inr (u_query l)
      else case q of Inl s \<Rightarrow> Inr s | Inr kvs \<Rightarrow> encodeQueryString kvs)"

definition upd_manager :: "nat \<Rightarrow> ('w manager_scheme \<Rightarrow> 'w manager_scheme) \<Rightarrow> 'w client \<Rightarrow> 'w client" where
  "upd_manager k f c = c\<lparr>managers := (managers c)[k := f (managers c ! k)]\<rparr>"

definition io_socket_of :: "browser \<Rightarrow> jsstr \<Rightarrow> jsstr \<Rightarrow> nat \<Rightarrow> 'w client \<Rightarrow> (nat \<times> nat option) \<times> 'w client" where
  "io_socket_of b p q k c =
     (if map_of (nsps (managers c ! k)) p = None \<and> map_of object_prototype p \<noteq> None then ((k, None), c)
      else case manager_socket b p (Some q) (managers c ! k) of (h, m) \<Rightarrow> ((k, Some h), c\<lparr>managers := (managers c)[k := m]\<rparr>))"

definition lookup ::
  "browser \<Rightarrow> page option \<Rightarrow> jsstr option \<Rightarrow> lookup_opts \<Rightarrow> (nat \<Rightarrow> rat) \<Rightarrow> 'w \<Rightarrow> 'w client \<Rightarrow> (nat \<times> nat option) result \<times> 'w client" where
  "lookup b loc uri opts random w c =
     (case url loc uri of
        Inl e \<Rightarrow> (Inl e, c)
      | Inr l \<Rightarrow>
          (case find_manager b l opts random w c of
             (Inl e, c) \<Rightarrow> (Inl e, c)
           | (Inr (k, created), c) \<Rightarrow>
               (case lookup_query l (query_after (created \<and> engine_no (managers c ! k) > 0) l opts) of
                  Inl e \<Rightarrow> (Inl e, c)
                | Inr q \<Rightarrow>
                    let c = (if created then upd_manager k (\<lambda>m. m\<lparr>m_opts := (m_opts m)\<lparr>so_query := Inl q\<rparr>\<rparr>) c else c);
                        (r, c) = io_socket_of b (u_path l) q k c
                    in (Inr r, c))))"

subsection \<open>The id of a server\<close>

lemma absolute_test:
  assumes "proto \<in> {''http'', ''https'', ''ws'', ''wss''}"
  shows "exec absolute_re (lit proto @ lit ''://'' @ r) \<noteq> None"
  using assms by (auto simp: exec_def absolute_re_def lit_def)

lemma resolve_absolute:
  assumes "proto \<in> {''http'', ''https'', ''ws'', ''wss''}"
  shows "resolve loc (Some (lit proto @ lit ''://'' @ r)) = Inr (lit proto @ lit ''://'' @ r)"
proof -
  have "char_at 0 (lit proto @ lit ''://'' @ r) \<noteq> lit ''/''"
    using assms by (auto simp: char_at_def lit_def)
  then show ?thesis using absolute_test [OF assms] by (simp add: resolve_def)
qed

text \<open>The port a URI stands for.\<close>

definition effective_port :: "string \<Rightarrow> jsstr option \<Rightarrow> jsstr" where
  "effective_port proto pt =
     (case pt of Some (d # ds) \<Rightarrow> d # ds | _ \<Rightarrow> if proto \<in> {''http'', ''ws''} then lit ''80'' else lit ''443'')"

definition plain_uri :: "string \<Rightarrow> jsstr \<Rightarrow> jsstr option \<Rightarrow> jsstr \<Rightarrow> jsstr option \<Rightarrow> bool" where
  "plain_uri proto h pt p q \<longleftrightarrow> proto \<in> {''http'', ''https'', ''ws'', ''wss''} \<and> list_all host_char h \<and>
     list_all port_digit (case pt of None \<Rightarrow> [] | Some ds \<Rightarrow> ds) \<and> (p = [] \<or> hd p = 47) \<and> list_all in_path p \<and>
     35 \<notin> set (case q of None \<Rightarrow> [] | Some q \<Rightarrow> q) \<and> 64 \<notin> set (p @ query_string q) \<and> 91 \<notin> set (p @ query_string q)"

definition uri_text :: "string \<Rightarrow> jsstr \<Rightarrow> jsstr option \<Rightarrow> jsstr \<Rightarrow> jsstr option \<Rightarrow> jsstr" where
  "uri_text proto h pt p q = lit proto @ lit ''://'' @ h @ port_text pt @ p @ query_string q"

lemma url_plain:
  assumes "plain_uri proto h pt p q"
  obtains l where "url loc (Some (uri_text proto h pt p q)) = Inr l"
    "l_id l = lit proto @ lit ''://'' @ h @ lit '':'' @ effective_port proto pt"
    "u_path l = (if p = [] then lit ''/'' else p)" "u_query l = (case q of None \<Rightarrow> [] | Some q \<Rightarrow> q)"
    "u_protocol l = lit proto" "u_host l = h" "u_port l = effective_port proto pt"
proof -
  note a = assms [unfolded plain_uri_def]
  let ?s = "lit proto @ lit ''://'' @ h @ port_text pt @ p @ query_string q"
  obtain u where u: "parseuri ?s = Inr u" "u_protocol u = lit proto" "u_host u = h"
    "u_port u = (case pt of None \<Rightarrow> [] | Some ds \<Rightarrow> ds)" "u_path u = p" "u_query u = (case q of None \<Rightarrow> [] | Some q \<Rightarrow> q)"
    using parse_parts [of proto h pt p q] a by blast
  define v where "v = complete_path (complete_port u)"
  have pt: "u_port v = effective_port proto pt"
    using a u(2,4)
    by (auto simp: v_def complete_path_def complete_port_def effective_port_def lit_def split: option.splits list.splits)
  have rest: "u_protocol v = lit proto" "u_host v = h" "u_path v = (if p = [] then lit ''/'' else p)"
    "u_query v = (case q of None \<Rightarrow> [] | Some q \<Rightarrow> q)"
    using u by (simp_all add: v_def complete_path_def complete_port_def)
  have "58 \<notin> set h" using a by (auto simp: list_all_iff host_char_def)
  then have "bracketed h = h" by (simp add: bracketed_def index_of_def)
  then have "server v = lit proto @ lit ''://'' @ h" by (simp add: server_def rest)
  moreover have "resolve loc (Some (uri_text proto h pt p q)) = Inr ?s"
    using resolve_absolute [of proto loc] a by (simp add: uri_text_def)
  ultimately show ?thesis
    using that [of "uri.extend v (located_uri.fields (server v @ lit '':'' @ u_port v)
         (server v @ (if loc \<noteq> None \<and> loc_port (the loc) = u_port v then [] else lit '':'' @ u_port v)))"] u(1) pt rest
    by (simp add: url_def Let_def v_def [symmetric] uri.defs located_uri.defs)
qed

subsection \<open>One manager for each server\<close>

lemma manager_socket_new:
  assumes "map_of (nsps s) n = None"
  shows "fst (manager_socket b n q s) = length (sockets s)" "nsps (snd (manager_socket b n q s)) = nsps s @ [(n, length (sockets s))]"
proof -
  have "nsps (onConnecting k t) = nsps t" for k and t :: "'a manager_scheme" by (simp add: onConnecting_def)
  then show "fst (manager_socket b n q s) = length (sockets s)" "nsps (snd (manager_socket b n q s)) = nsps s @ [(n, length (sockets s))]"
    using assms by (simp_all add: manager_socket_def Let_def ensure_open_pool)
qed

lemma new_manager_pool [simp]: "nsps (new_manager b u mo random w) = []" "sockets (new_manager b u mo random w) = []"
  by (simp_all add: new_manager_def blank_engine_def Let_def manager.defs engine.defs transport.defs)

lemma slash_not_inherited:
  assumes "p \<noteq> []" "hd p = 47"
  shows "map_of object_prototype p = None"
proof -
  have "\<forall>k \<in> set (map fst object_prototype). hd k \<noteq> 47" by code_simp
  then show ?thesis using assms by (auto simp: map_of_eq_None_iff)
qed

definition client_inv :: "'w client \<Rightarrow> bool" where
  "client_inv c \<longleftrightarrow> distinct (map fst (cache c)) \<and> (\<forall>(i, k) \<in> set (cache c). k < length (managers c)) \<and>
     list_all well_formed (managers c)"

definition shares :: "lookup_opts \<Rightarrow> bool" where
  "shares opts \<longleftrightarrow> \<not> forceNew opts \<and> multiplex opts \<noteq> Some False"

definition opened :: "'w client \<Rightarrow> nat \<Rightarrow> nat option \<Rightarrow> jsstr \<Rightarrow> bool" where
  "opened c k s p \<longleftrightarrow> (\<exists>j. s = Some j \<and> map_of (nsps (managers c ! k)) p = Some j)"

lemma create_manager_Inr:
  assumes "create_manager b source mo random w c = (Inr k, c')"
  obtains m where "k = length (managers c)" "c' = c\<lparr>managers := managers c @ [m]\<rparr>" "nsps m = []" "sockets m = []" "well_formed m"
  using assms well_formed_new_manager
  by (force simp: create_manager_def Let_def split: sum.splits option.splits)

lemma create_manager_Inl: "create_manager b source mo random w c = (Inl e, c') \<Longrightarrow> c' = c"
  by (auto simp: create_manager_def Let_def split: sum.splits option.splits)

lemma find_manager_Inr:
  assumes "find_manager b l opts random w c = (Inr (k, created), c')"
  obtains
    (old) "\<not> created" "c' = c" "cached c (l_id l) = Some k" "\<not> newConnection opts (l_id l) (u_path l) c"
  | (made) m where "created" "k = length (managers c)" "managers c' = managers c @ [m]" "nsps m = []" "sockets m = []" "well_formed m"
      "cache c' = (if newConnection opts (l_id l) (u_path l) c then cache c else cache c @ [(l_id l, k)])"
      "newConnection opts (l_id l) (u_path l) c \<or> cached c (l_id l) = None"
  using assms
  by (auto simp: find_manager_def split: if_splits prod.splits sum.splits option.splits elim!: create_manager_Inr)

lemma find_manager_Inl: "find_manager b l opts random w c = (Inl e, c') \<Longrightarrow> c' = c"
  by (auto simp: find_manager_def split: if_splits prod.splits sum.splits option.splits dest: create_manager_Inl)

text \<open>A lookup that succeeds: the manager it finds, with options that may have changed, and the socket it opens on it.\<close>

lemma lookup_Inr:
  assumes "lookup b loc uri opts random w c = (Inr (k, s), c')" "url loc uri = Inr l" "map_of object_prototype (u_path l) = None"
  obtains created c1 m q where "find_manager b l opts random w c = (Inr (k, created), c1)"
    "nsps m = nsps (managers c1 ! k)" "sockets m = sockets (managers c1 ! k)" "well_formed m = well_formed (managers c1 ! k)"
    "s = Some (fst (manager_socket b (u_path l) (Some q) m))"
    "c' = c1\<lparr>managers := (managers c1)[k := snd (manager_socket b (u_path l) (Some q) m)]\<rparr>"
proof -
  obtain created c1 where f: "find_manager b l opts random w c = (Inr (k, created), c1)"
    using assms by (auto simp: lookup_def io_socket_of_def Let_def split: prod.splits sum.splits if_splits)
  obtain q where q: "lookup_query l (query_after (created \<and> engine_no (managers c1 ! k) > 0) l opts) = Inr q"
    using assms f by (auto simp: lookup_def split: sum.splits)
  have wf: "well_formed (t\<lparr>m_opts := x\<rparr>) = well_formed t" for t :: "'a manager_scheme" and x
    by (simp add: well_formed_def manager_inv_def queue_free_def pool_ok_def engine_inv_def pause_pending_def)
  have k: "k < length (managers c1) \<or> \<not> created"
    by (rule find_manager_Inr [OF f]) auto
  define m where "m = (if created then (managers c1 ! k)\<lparr>m_opts := (m_opts (managers c1 ! k))\<lparr>so_query := Inl q\<rparr>\<rparr> else managers c1 ! k)"
  have "s = Some (fst (manager_socket b (u_path l) (Some q) m))"
    "c' = c1\<lparr>managers := (managers c1)[k := snd (manager_socket b (u_path l) (Some q) m)]\<rparr>"
    using assms f q k
    by (auto simp: lookup_def io_socket_of_def Let_def upd_manager_def m_def split: prod.splits if_splits)
  moreover have "nsps m = nsps (managers c1 ! k)" "sockets m = sockets (managers c1 ! k)" "well_formed m = well_formed (managers c1 ! k)"
    by (simp_all add: m_def wf)
  ultimately show ?thesis using that f by blast
qed

text \<open>Looking up keeps the cache sound and its managers well-formed.\<close>

lemma client_inv_find:
  assumes "client_inv c" "find_manager b l opts random w c = (Inr (k, created), c1)"
  shows "client_inv c1" "k < length (managers c1)"
proof -
  have "client_inv c1 \<and> k < length (managers c1)"
    using assms(2)
  proof (cases rule: find_manager_Inr)
    case old
    then show ?thesis using assms(1) map_of_SomeD [of "cache c" "l_id l" k] by (auto simp: client_inv_def cached_def)
  next
    case (made m)
    then show ?thesis using assms(1) by (auto simp: client_inv_def cached_def map_of_eq_None_iff intro: less_SucI)
  qed
  then show "client_inv c1" "k < length (managers c1)" by blast+
qed

lemma client_inv_lookup:
  assumes "client_inv c" "lookup b loc uri opts random w c = (Inr (k, s), c')" "url loc uri = Inr l"
    "map_of object_prototype (u_path l) = None"
  shows "client_inv c'"
proof -
  obtain created c1 m q where f: "find_manager b l opts random w c = (Inr (k, created), c1)"
    "well_formed m = well_formed (managers c1 ! k)"
    "c' = c1\<lparr>managers := (managers c1)[k := snd (manager_socket b (u_path l) (Some q) m)]\<rparr>"
    by (rule lookup_Inr [OF assms(2-4)]) blast
  have c1: "client_inv c1" "k < length (managers c1)" by (rule client_inv_find [OF assms(1) f(1)])+
  then have "well_formed (managers c1 ! k)" by (auto simp: client_inv_def list_all_length)
  then have "well_formed (snd (manager_socket b (u_path l) (Some q) m))" using f(2) by (simp add: well_formed_manager_socket)
  then show ?thesis using c1 f(3) by (auto simp: client_inv_def list_all_length nth_list_update)
qed

lemma lookup_first:
  assumes "client_inv c" "shares opts" "cached c (l_id l) = None"
    "lookup b loc uri opts random w c = (Inr (k, s), c')" "url loc uri = Inr l" "map_of object_prototype (u_path l) = None"
  shows "k = length (managers c)" "length (managers c') = k + 1" "cached c' (l_id l) = Some k" "s = Some 0"
    "nsps (managers c' ! k) = [(u_path l, 0)]"
proof -
  obtain created c1 m q where f: "find_manager b l opts random w c = (Inr (k, created), c1)"
    "nsps m = nsps (managers c1 ! k)" "sockets m = sockets (managers c1 ! k)"
    "s = Some (fst (manager_socket b (u_path l) (Some q) m))"
    "c' = c1\<lparr>managers := (managers c1)[k := snd (manager_socket b (u_path l) (Some q) m)]\<rparr>"
    by (rule lookup_Inr [OF assms(4-6)]) blast
  have new: "\<not> newConnection opts (l_id l) (u_path l) c" using assms(2,3) by (simp add: newConnection_def shares_def)
  from f(1) obtain m' where m': "k = length (managers c)" "managers c1 = managers c @ [m']" "nsps m' = []" "sockets m' = []"
    "cache c1 = cache c @ [(l_id l, k)]"
    by (cases rule: find_manager_Inr) (use assms(3) new in auto)
  then show "k = length (managers c)" "length (managers c') = k + 1" "cached c' (l_id l) = Some k" "s = Some 0"
    "nsps (managers c' ! k) = [(u_path l, 0)]"
    using f assms(3) by (auto simp: cached_def manager_socket_new map_add_def)
qed

lemma lookup_again:
  assumes "client_inv c" "shares opts" "cached c (l_id l) = Some k0"
    "lookup b loc uri opts random w c = (Inr (k, s), c')" "url loc uri = Inr l" "map_of object_prototype (u_path l) = None"
  shows "k = (if map_of (nsps (managers c ! k0)) (u_path l) = None then k0 else length (managers c))"
    "opened c' k s (u_path l)" "k0 \<noteq> k \<Longrightarrow> managers c' ! k0 = managers c ! k0"
    "k0 = k \<Longrightarrow> length (managers c') = length (managers c) \<and>
       nsps (managers c' ! k) = nsps (managers c ! k) @ [(u_path l, length (sockets (managers c ! k)))]"
proof -
  obtain created c1 m q where f: "find_manager b l opts random w c = (Inr (k, created), c1)"
    "nsps m = nsps (managers c1 ! k)" "sockets m = sockets (managers c1 ! k)"
    "s = Some (fst (manager_socket b (u_path l) (Some q) m))"
    "c' = c1\<lparr>managers := (managers c1)[k := snd (manager_socket b (u_path l) (Some q) m)]\<rparr>"
    by (rule lookup_Inr [OF assms(4-6)]) (rule that, assumption+)
  have "(l_id l, k0) \<in> set (cache c)" using assms(3) by (simp add: cached_def map_of_SomeD)
  then have k0: "k0 < length (managers c)" using assms(1) by (auto simp: client_inv_def)
  have new: "newConnection opts (l_id l) (u_path l) c \<longleftrightarrow> map_of (nsps (managers c ! k0)) (u_path l) \<noteq> None"
    using assms(2,3,6) by (simp add: newConnection_def shares_def has_namespace_def)
  let ?known = "map_of (nsps (managers c ! k0)) (u_path l)"
  have "k = (if ?known = None then k0 else length (managers c)) \<and> opened c' k s (u_path l) \<and>
    (k0 \<noteq> k \<longrightarrow> managers c' ! k0 = managers c ! k0) \<and>
    (k0 = k \<longrightarrow> length (managers c') = length (managers c) \<and>
       nsps (managers c' ! k) = nsps (managers c ! k) @ [(u_path l, length (sockets (managers c ! k)))])"
    using f(1)
  proof (cases rule: find_manager_Inr)
    case old
    then have "k = k0" "c1 = c" "?known = None" using assms(3) new by auto
    then show ?thesis using f(2-) k0 by (simp add: opened_def manager_socket_new map_add_def)
  next
    case (made m')
    then have "?known \<noteq> None" using assms(3) new by simp
    moreover have "map_of (nsps m) (u_path l) = None" using made f(2) by simp
    ultimately show ?thesis using made f(2-) k0 by (simp add: opened_def manager_socket_new nth_append)
  qed
  then show "k = (if ?known = None then k0 else length (managers c))" "opened c' k s (u_path l)"
    "k0 \<noteq> k \<Longrightarrow> managers c' ! k0 = managers c ! k0"
    "k0 = k \<Longrightarrow> length (managers c') = length (managers c) \<and>
       nsps (managers c' ! k) = nsps (managers c ! k) @ [(u_path l, length (sockets (managers c ! k)))]"
    by blast+
qed

text \<open>A manager that does not connect by itself is made without an exception.\<close>

lemma lookup_succeeds:
  assumes "mo_autoConnect (lo_manager opts) = Some False" "so_query (mo_engine (lo_manager opts)) = Inl q"
    "url loc uri = Inr l" "map_of object_prototype (u_path l) = None"
  obtains k s c' where "lookup b loc uri opts random w c = (Inr (k, s), c')"
proof -
  have "thrown (new_manager b u (lo_manager opts) random w) = None" for u
    using assms(1) by (simp add: new_manager_def blank_engine_def Let_def manager.defs engine.defs transport.defs)
  moreover obtain u where "parseuri (u_source l) = Inr u" using parseuri_total by blast
  ultimately obtain k0 c0 where "create_manager b (u_source l) (lo_manager opts) random w c = (Inr k0, c0)"
    by (simp add: create_manager_def Let_def)
  then have "\<exists>k created c1. find_manager b l opts random w c = (Inr (k, created), c1)"
    by (cases "cached c (l_id l)") (simp_all add: find_manager_def ex_bool_eq)
  then obtain k created c1 where "find_manager b l opts random w c = (Inr (k, created), c1)" by blast
  moreover have "\<exists>q'. lookup_query l (query_after o' l opts) = Inr q'" for o'
    using assms(2) by (simp add: lookup_query_def query_after_def)
  ultimately obtain q' where q: "find_manager b l opts random w c = (Inr (k, created), c1)"
    "lookup_query l (query_after (created \<and> engine_no (managers c1 ! k) > 0) l opts) = Inr q'" by blast
  define c2 where "c2 = (if created then upd_manager k (\<lambda>m. m\<lparr>m_opts := (m_opts m)\<lparr>so_query := Inl q'\<rparr>\<rparr>) c1 else c1)"
  obtain s c' where "io_socket_of b (u_path l) q' k c2 = ((k, s), c')"
    using assms(4) that by (cases "manager_socket b (u_path l) (Some q') (managers c2 ! k)") (simp add: io_socket_of_def)
  then have "lookup b loc uri opts random w c = (Inr (k, s), c')"
    using assms(3) q unfolding lookup_def by (simp add: c2_def Let_def)
  then show ?thesis using that by blast
qed

definition namespace_of :: "jsstr \<Rightarrow> jsstr" where
  "namespace_of p = (if p = [] then lit ''/'' else p)"

lemma namespace_not_inherited: "plain_uri proto h pt p q \<Longrightarrow> map_of object_prototype (namespace_of p) = None"
  using slash_not_inherited [of p] slash_not_inherited [of "lit ''/''"]
  by (auto simp: plain_uri_def namespace_of_def lit_def)

text \<open>
  C23. Two lookups of a server, its default port written or not, each open a socket for their namespace, on one manager exactly when the
  namespaces differ: the second lookup of a namespace gets a manager of its own.
\<close>

theorem lookup_shares:
  assumes "plain_uri proto h pt1 p1 q1" "plain_uri proto h pt2 p2 q2" "effective_port proto pt1 = effective_port proto pt2"
    and "shares o1" "shares o2" "client_inv c" "cached c (lit proto @ lit ''://'' @ h @ lit '':'' @ effective_port proto pt1) = None"
    and "lookup b loc (Some (uri_text proto h pt1 p1 q1)) o1 r1 w1 c = (Inr (k1, s1), c1)"
    and "lookup b loc (Some (uri_text proto h pt2 p2 q2)) o2 r2 w2 c1 = (Inr (k2, s2), c2)"
  shows "opened c2 k1 s1 (namespace_of p1) \<and> opened c2 k2 s2 (namespace_of p2) \<and>
    (k1 = k2 \<longleftrightarrow> namespace_of p1 \<noteq> namespace_of p2) \<and> client_inv c2"
proof -
  obtain l1 where l1: "url loc (Some (uri_text proto h pt1 p1 q1)) = Inr l1"
    "l_id l1 = lit proto @ lit ''://'' @ h @ lit '':'' @ effective_port proto pt1" "u_path l1 = namespace_of p1"
    unfolding namespace_of_def by (rule url_plain [OF assms(1)])
  obtain l2 where l2: "url loc (Some (uri_text proto h pt2 p2 q2)) = Inr l2"
    "l_id l2 = lit proto @ lit ''://'' @ h @ lit '':'' @ effective_port proto pt1" "u_path l2 = namespace_of p2"
    unfolding namespace_of_def assms(3) by (rule url_plain [OF assms(2)])
  have path: "map_of object_prototype (u_path l1) = None" "map_of object_prototype (u_path l2) = None"
    using namespace_not_inherited assms(1,2) l1(3) l2(3) by simp_all
  note first = lookup_first [OF assms(6,4) assms(7) [folded l1(2)] assms(8) l1(1) path(1)]
  have inv: "client_inv c1" by (rule client_inv_lookup [OF assms(6,8) l1(1) path(1)])
  have "cached c1 (l_id l2) = Some k1" using first(3) l1(2) l2(2) by simp
  note again = lookup_again [OF inv assms(5) this assms(9) l2(1) path(2)]
  have same: "k1 = k2 \<longleftrightarrow> namespace_of p1 \<noteq> namespace_of p2"
    using again(1) first(2,5) l1(3) l2(3) by auto
  have "opened c2 k1 s1 (namespace_of p1)"
  proof (cases "k1 = k2")
    case True
    then show ?thesis using again(4) first(4,5) l1(3) by (simp add: opened_def)
  next
    case False
    then show ?thesis using again(3) first(4,5) l1(3) by (simp add: opened_def)
  qed
  then show ?thesis using same again(2) l2(3) client_inv_lookup [OF inv assms(9) l2(1) path(2)] by simp
qed

definition sample_lookup_opts :: lookup_opts where
  "sample_lookup_opts = \<lparr>lo_manager = \<lparr>mo_engine = sample_socket_opts\<lparr>so_query := Inl []\<rparr>, mo_reconnection = None, mo_attempts = None,
     mo_delay = None, mo_delayMax = None, mo_factor = None, mo_timeout = None, mo_autoConnect = Some False\<rparr>,
     forceNew = False, multiplex = None\<rparr>"

definition sample_lookup :: "jsstr option \<Rightarrow> string \<Rightarrow> unit client \<Rightarrow> (nat \<times> nat option) result \<times> unit client" where
  "sample_lookup pt p = lookup full_browser None (Some (uri_text ''http'' (lit ''h'') pt (lit p) None)) sample_lookup_opts (\<lambda>_. 0) ()"

lemma sample_uri: "p \<in> {''/a'', ''/b''} \<Longrightarrow> pt \<in> {None, Some (lit ''80'')} \<Longrightarrow> plain_uri ''http'' (lit ''h'') pt (lit p) None"
  by (auto simp: plain_uri_def lit_def host_char_def port_digit_def in_path_def query_string_def)

lemma sample_lookup_succeeds:
  assumes "p \<in> {''/a'', ''/b''}" "pt \<in> {None, Some (lit ''80'')}"
  obtains k s c' where "sample_lookup pt p c = (Inr (k, s), c')"
proof -
  obtain l where "url None (Some (uri_text ''http'' (lit ''h'') pt (lit p) None)) = Inr l" "u_path l = namespace_of (lit p)"
    unfolding namespace_of_def by (rule url_plain [OF sample_uri [OF assms]])
  moreover have "map_of object_prototype (namespace_of (lit p)) = None"
    by (rule namespace_not_inherited [OF sample_uri [OF assms]])
  ultimately show ?thesis
    using that unfolding sample_lookup_def
    by (elim lookup_succeeds [of sample_lookup_opts "[]", rotated 2]) (simp_all add: sample_lookup_opts_def)
qed

theorem lookup_shares_witness:
  "\<exists>k1 s1 c1 s2 c2. sample_lookup None ''/a'' \<lparr>cache = [], managers = []\<rparr> = (Inr (k1, s1), c1) \<and>
    sample_lookup (Some (lit ''80'')) ''/b'' c1 = (Inr (k1, s2), c2) \<and>
    opened c2 k1 s1 (lit ''/a'') \<and> opened c2 k1 s2 (lit ''/b'')"
proof -
  let ?c = "\<lparr>cache = [], managers = []\<rparr> :: unit client"
  obtain k1 s1 c1 where 1: "sample_lookup None ''/a'' ?c = (Inr (k1, s1), c1)"
    by (rule sample_lookup_succeeds [of "''/a''" None ?c]) simp_all
  obtain k2 s2 c2 where 2: "sample_lookup (Some (lit ''80'')) ''/b'' c1 = (Inr (k2, s2), c2)"
    by (rule sample_lookup_succeeds [of "''/b''" "Some (lit ''80'')" c1]) simp_all
  have "opened c2 k1 s1 (namespace_of (lit ''/a'')) \<and> opened c2 k2 s2 (namespace_of (lit ''/b'')) \<and>
    (k1 = k2 \<longleftrightarrow> namespace_of (lit ''/a'') \<noteq> namespace_of (lit ''/b'')) \<and> client_inv c2"
    by (rule lookup_shares [OF sample_uri sample_uri _ _ _ _ _ 1 [unfolded sample_lookup_def] 2 [unfolded sample_lookup_def]])
      (simp_all add: effective_port_def lit_def shares_def sample_lookup_opts_def client_inv_def cached_def)
  moreover have "namespace_of (lit ''/a'') = lit ''/a''" "namespace_of (lit ''/b'') = lit ''/b''" "lit ''/a'' \<noteq> lit ''/b''"
    by (simp_all add: namespace_of_def lit_def)
  ultimately show ?thesis using 1 2 by metis
qed

end
