(* ===== verification/JsonDate.thy ===== *)
theory JsonDate
  imports Json Complex_Main
begin

text \<open>
  The dates of JSON 3 (module 11): what \<open>serialize\<close> writes for a date when the \<open>getUTC*\<close> methods of the browser
  are buggy, and the Gregorian calendar it is compared with. A date is its time value, the integer of milliseconds since 1970. Its quotients are
  exact here: the number of days is far below the precision of the language's numbers, and the loops that follow the two estimates only
  need them not to be too large.
\<close>

subsection \<open>Computing the date\<close>

definition Months :: "int list" where
  "Months = [0, 31, 59, 90, 120, 151, 181, 212, 243, 273, 304, 334]"

text \<open>\<open>Months[12]\<close> is \<open>undefined\<close> and the sum then \<open>NaN\<close>, which is not below anything.\<close>

definition getDay :: "int \<Rightarrow> nat \<Rightarrow> int option" where
  "getDay year month =
     (let late = (if month > 1 then 1 else 0) in
      if month < length Months
      then Some (Months ! month + 365 * (year - 1970) + (year - 1969 + late) div 4 - (year - 1901 + late) div 100 + (year - 1601 + late) div 400)
      else None)"

definition not_after :: "int option \<Rightarrow> int \<Rightarrow> bool" where
  "not_after d date = (case d of None \<Rightarrow> False | Some d \<Rightarrow> d \<le> date)"

definition year_start :: "int \<Rightarrow> int" where
  "year_start year = the (getDay year 0)"

lemma year_start_eq:
  "year_start year = 365 * (year - 1970) + (year - 1969) div 4 - (year - 1901) div 100 + (year - 1601) div 400"
  by (simp add: year_start_def getDay_def Months_def)

lemma getDay_0: "getDay year 0 = Some (year_start year)"
  by (simp add: year_start_def getDay_def Months_def)

text \<open>The Gregorian calendar.\<close>

definition leap :: "int \<Rightarrow> bool" where
  "leap year \<longleftrightarrow> 4 dvd year \<and> (\<not> 100 dvd year \<or> 400 dvd year)"

definition year_length :: "int \<Rightarrow> int" where
  "year_length year = (if leap year then 366 else 365)"

definition month_length :: "int \<Rightarrow> nat \<Rightarrow> int" where
  "month_length year month =
     (if month = 1 then (if leap year then 29 else 28) else if month \<in> {3, 5, 8, 10} then 30 else 31)"

lemma div_next:
  fixes x k :: int
  assumes "1 < k"
  shows "(x + 1) div k = x div k + (if k dvd x + 1 then 1 else 0)"
proof -
  define q r where "q = x div k" and "r = x mod k"
  have x: "x = q * k + r" "0 \<le> r" "r < k" using assms by (simp_all add: q_def r_def)
  show ?thesis
  proof (cases "r + 1 = k")
    case True
    then have "x + 1 = (q + 1) * k" using x by (simp add: distrib_right)
    then show ?thesis using assms by (simp add: q_def [symmetric])
  next
    case False
    then have "0 \<le> r + 1" "r + 1 < k" using x by simp_all
    then have small: "(r + 1) div k = 0" "(r + 1) mod k = r + 1" by (simp_all add: div_pos_pos_trivial mod_pos_pos_trivial)
    have "(r + 1 + q * k) div k = q + (r + 1) div k" using assms by (intro div_mult_self1) simp
    moreover have "(r + 1 + q * k) mod k = (r + 1) mod k" by (rule mod_mult_self1)
    moreover have "x + 1 = r + 1 + q * k" using x by simp
    ultimately have "(x + 1) div k = q \<and> (x + 1) mod k = r + 1" using small by (metis add_0_right)
    moreover have "r + 1 \<noteq> 0" using x(2) by simp
    ultimately have "(x + 1) div k = q" "\<not> k dvd x + 1" by (simp_all add: dvd_eq_mod_eq_0)
    then show ?thesis by (simp add: q_def)
  qed
qed

lemma div_shift:
  fixes y k j j' :: int
  assumes "1 < k" "k dvd j" "j' = j + 1"
  shows "(y - j) div k = (y - j') div k + (if k dvd y then 1 else 0)"
proof -
  have "k dvd y - j \<longleftrightarrow> k dvd y" using assms(2) by (metis diff_add_cancel dvd_add dvd_diff)
  moreover have "y - j' + 1 = y - j" using assms(3) by simp
  ultimately show ?thesis using div_next [OF assms(1), of "y - j'"] by presburger
qed

lemma leap_days:
  fixes y :: int
  shows "(y - 1968) div 4 - (y - 1900) div 100 + (y - 1600) div 400 =
    (y - 1969) div 4 - (y - 1901) div 100 + (y - 1601) div 400 + (if leap y then 1 else 0)"
proof -
  have sum: "a = a' + p \<Longrightarrow> b = b' + q \<Longrightarrow> c = c' + r \<Longrightarrow> p - q + r = s \<Longrightarrow> a - b + c = a' - b' + c' + s"
    for a a' b b' c c' p q r s :: int by simp
  have "400 dvd y \<Longrightarrow> 100 dvd y" "100 dvd y \<Longrightarrow> 4 dvd y"
    by (auto intro: dvd_trans [of 100 400] dvd_trans [of 4 100])
  then have "(if 4 dvd y then 1 else 0) - (if 100 dvd y then 1 else 0) + (if 400 dvd y then 1 else 0) = (if leap y then 1 else (0 :: int))"
    unfolding leap_def by (cases "4 dvd y"; cases "100 dvd y"; cases "400 dvd y") simp_all
  from sum [OF div_shift div_shift div_shift this] show ?thesis by simp
qed

lemma year_start_next: "year_start (year + 1) = year_start year + year_length year"
proof -
  have "year + 1 - 1969 = year - 1968" "year + 1 - 1901 = year - 1900" "year + 1 - 1601 = year - 1600" "year + 1 - 1970 = year - 1970 + 1"
    by simp_all
  then have "year_start (year + 1) = 365 * (year - 1970) + 365 + ((year - 1968) div 4 - (year - 1900) div 100 + (year - 1600) div 400)"
    unfolding year_start_eq by (simp only: distrib_left)
  moreover have "x + 365 + (a - b + c + l) = x + a - b + c + (365 + l)" for x a b c l :: int by simp
  moreover have "year_length year = 365 + (if leap year then 1 else 0)" by (simp add: year_length_def)
  ultimately show ?thesis unfolding leap_days year_start_eq by (simp only:)
qed

lemma getDay_month:
  assumes "month < 12"
  shows "getDay year month = Some (year_start year + Months ! month + (if month > 1 \<and> leap year then 1 else 0))"
proof (cases "month > 1")
  case True
  have "year - 1969 + 1 = year - 1968" "year - 1901 + 1 = year - 1900" "year - 1601 + 1 = year - 1600" by simp_all
  then have "getDay year month = Some (Months ! month + 365 * (year - 1970) +
      ((year - 1968) div 4 - (year - 1900) div 100 + (year - 1600) div 400))"
    using assms True unfolding getDay_def Let_def by (simp only: if_True) (simp add: Months_def)
  then show ?thesis unfolding leap_days year_start_eq using True by (cases "leap year") simp_all
next
  case False
  then show ?thesis using assms unfolding getDay_def Let_def year_start_eq by (simp add: Months_def)
qed

lemma getDay_13: "getDay year (month + 1) = None" if "month \<ge> 11"
  using that by (simp add: getDay_def Months_def)

lemma year_length_bounds: "365 \<le> year_length y" "year_length y \<le> 366"
  by (simp_all add: year_length_def)

function year_loop :: "int \<Rightarrow> int \<Rightarrow> int" where
  "year_loop date year = (if not_after (getDay (year + 1) 0) date then year_loop date (year + 1) else year)"
  by pat_completeness auto
termination
proof (relation "measure (\<lambda>(date, year). nat (date + 1 - year_start year))")
  fix date year
  assume "not_after (getDay (year + 1) 0) date"
  then have "year_start year + year_length year \<le> date" by (simp add: not_after_def getDay_0 year_start_next)
  then show "((date, year + 1), (date, year)) \<in> measure (\<lambda>(date, year). nat (date + 1 - year_start year))"
    using year_length_bounds [of year] by (simp add: year_start_next)
qed simp

function month_loop :: "int \<Rightarrow> int \<Rightarrow> nat \<Rightarrow> nat" where
  "month_loop date year month = (if not_after (getDay year (month + 1)) date then month_loop date year (month + 1) else month)"
  by pat_completeness auto
termination
proof (relation "measure (\<lambda>(date, year, month). 12 - month)")
  fix date year month
  assume "not_after (getDay year (month + 1)) date"
  then have "month < 11" using getDay_13 [of month year] by (cases "month < 11") (simp_all add: not_after_def)
  then show "((date, year, month + 1), (date, year, month)) \<in> measure (\<lambda>(date, year, month). 12 - month)" by simp
qed simp

declare year_loop.simps [simp del] month_loop.simps [simp del]

definition first_year :: "int \<Rightarrow> int" where
  "first_year date = floor (of_int date / (3652425 / 10000 :: rat)) + 1970 - 1"

definition first_month :: "int \<Rightarrow> nat" where
  "first_month days = nat (floor (of_int days / (3042 / 100 :: rat)))"

definition civil_date :: "int \<Rightarrow> int \<times> nat \<times> int" where
  "civil_date date =
     (let year = year_loop date (first_year date);
          month = month_loop date year (first_month (date - the (getDay year 0)))
      in (year, month, 1 + date - the (getDay year month)))"

lemma floor_quotient: "floor (of_int a / (of_int b / of_int c :: rat)) = (a * c) div b"
proof -
  have "of_int a / (of_int b / of_int c :: rat) = of_int (a * c) / of_int b" by simp
  then show ?thesis by (simp only: floor_divide_of_int_eq)
qed

lemma first_year_eq: "first_year date = (date * 10000) div 3652425 + 1969"
  using floor_quotient [of date 3652425 10000] by (simp add: first_year_def)

lemma first_month_eq: "first_month days = nat ((days * 100) div 3042)"
  using floor_quotient [of days 3042 100] by (simp add: first_month_def)

declare first_year_eq [code] first_month_eq [code]

text \<open>The first estimate is never too late.\<close>

lemma div_bounds: "0 < k \<Longrightarrow> k * (x div k) \<le> x \<and> x < k * (x div k) + k" for x k :: int
  by (metis add.commute add_less_cancel_left minus_mult_div_eq_mod mult_div_mod_eq pos_mod_bound pos_mod_sign le_add_same_cancel1 diff_ge_0_iff_ge)

lemma year_estimate: "year_start (first_year date) \<le> date"
proof -
  define n where "n = (date * 10000) div 3652425"
  have n: "3652425 * n \<le> date * 10000" using div_bounds [of 3652425 "date * 10000"] by (simp add: n_def)
  have "first_year date - 1970 = n - 1" "first_year date - 1969 = n" "first_year date - 1901 = n + 68" "first_year date - 1601 = n + 368"
    by (simp_all add: first_year_eq n_def)
  moreover define a b c where abc: "a = n div 4" "b = (n + 68) div 100" "c = (n + 368) div 400"
  ultimately have "year_start (first_year date) = 365 * (n - 1) + a - b + c"
    unfolding year_start_eq by (simp only:)
  moreover have "4 * a \<le> n" "n + 68 < 100 * b + 100" "400 * c \<le> n + 368"
    using div_bounds [of 4 n] div_bounds [of 100 "n + 68"] div_bounds [of 400 "n + 368"] by (simp_all add: abc)
  ultimately have "400 * year_start (first_year date) \<le> 146097 * n" by (simp add: algebra_simps)
  moreover have "146097 * n \<le> 400 * date" using n by linarith
  ultimately show ?thesis by linarith
qed

lemma year_start_mono: "y \<le> y' \<Longrightarrow> year_start y + 365 * (y' - y) \<le> year_start y'"
proof (induction y' rule: int_ge_induct)
  case (step y')
  then show ?case using year_length_bounds [of y'] by (simp add: year_start_next)
qed simp

lemma year_loop_correct:
  assumes "year_start year \<le> date"
  shows "year_start (year_loop date year) \<le> date \<and> date < year_start (year_loop date year + 1)"
  using assms
proof (induction date year rule: year_loop.induct)
  case (1 date year)
  then show ?case
    by (subst (1 2) year_loop.simps) (auto simp: not_after_def getDay_0)
qed

text \<open>The estimate of the month is the month or an earlier one: 30.42 days are more than the average of every beginning of a year.\<close>

lemma month_estimate:
  assumes "0 \<le> days" "days < year_length year"
  shows "first_month days < 12" "Months ! first_month days + (if first_month days > 1 \<and> leap year then 1 else 0) \<le> days"
proof -
  define e where "e = (days * 100) div 3042"
  have e: "3042 * e \<le> days * 100" "days * 100 < 3042 * e + 3042"
    using div_bounds [of 3042 "days * 100"] by (simp_all add: e_def)
  have "0 \<le> e" using e(2) assms(1) by linarith
  moreover have "e < 12" using e(1) assms(2) year_length_bounds(2) [of year] by linarith
  ultimately have "0 \<le> e" "e < 12" by simp_all
  then obtain m where m: "e = int m" "m < 12" by (metis int_nat_eq nat_less_iff of_nat_numeral zero_le_numeral nonneg_int_cases of_nat_less_iff)
  have f: "first_month days = m" by (simp add: first_month_eq e_def [symmetric] m)
  have "m \<in> set [0..<12]" using m(2) by simp
  then have "Months ! m + (if m > 1 then 1 else 0) \<le> days"
    using e assms(1) m(1) by (auto simp: upt_rec Months_def)
  then show "first_month days < 12" "Months ! first_month days + (if first_month days > 1 \<and> leap year then 1 else 0) \<le> days"
    using m(2) by (auto simp: f split: if_splits)
qed

lemma month_loop_correct:
  assumes "month < 12" "the (getDay year month) \<le> date"
  shows "month_loop date year month < 12 \<and> the (getDay year (month_loop date year month)) \<le> date \<and>
    \<not> not_after (getDay year (month_loop date year month + 1)) date"
  using assms
proof (induction date year month rule: month_loop.induct)
  case (1 date year month)
  show ?case
  proof (cases "not_after (getDay year (month + 1)) date")
    case True
    then have "month < 11" using getDay_13 [of month year] by (cases "month < 11") (simp_all add: not_after_def)
    moreover have "the (getDay year (month + 1)) \<le> date" using True by (simp add: not_after_def split: option.splits)
    ultimately show ?thesis using 1(1) [OF True] True by (subst (1 2 3) month_loop.simps) simp
  next
    case False
    then show ?thesis using 1(2,3) by (subst (1 2 3) month_loop.simps) simp
  qed
qed

subsection \<open>The calendar\<close>

definition valid_date :: "int \<Rightarrow> nat \<Rightarrow> int \<Rightarrow> bool" where
  "valid_date year month day \<longleftrightarrow> month < 12 \<and> 1 \<le> day \<and> day \<le> month_length year month"

text \<open>The days between the first of January 1970 and a date, by counting years, months and days.\<close>

definition day_number :: "int \<Rightarrow> nat \<Rightarrow> int \<Rightarrow> int" where
  "day_number year month day =
     (if 1970 \<le> year then \<Sum>y \<in> {1970..<year}. year_length y else - (\<Sum>y \<in> {year..<1970}. year_length y)) +
     (\<Sum>m < month. month_length year m) + (day - 1)"

lemma year_start_sum:
  "year_start year = (if 1970 \<le> year then \<Sum>y \<in> {1970..<year}. year_length y else - (\<Sum>y \<in> {year..<1970}. year_length y))"
proof (induction year rule: int_induct [where k = 1970])
  case base
  then show ?case by (simp add: year_start_eq)
next
  case (step1 y)
  have "{1970..<y + 1} = insert y {1970..<y}" using step1(1) by auto
  then show ?case using step1 by (simp add: year_start_next)
next
  case (step2 y)
  have "{y - 1..<1970} = insert (y - 1) {y..<1970}" using step2(1) by auto
  moreover have "year_start y = year_start (y - 1) + year_length (y - 1)" using year_start_next [of "y - 1"] by simp
  ultimately show ?case using step2 by (cases "y = 1970") simp_all
qed

lemma month_sum: "month < 12 \<Longrightarrow> (\<Sum>m < month. month_length year m) = Months ! month + (if month > 1 \<and> leap year then 1 else 0)"
proof -
  assume "month < 12"
  then have "month \<in> set [0..<12]" by simp
  then show ?thesis by (auto simp: upt_rec Months_def month_length_def lessThan_Suc eval_nat_numeral)
qed

lemma month_end: "month < 11 \<Longrightarrow> the (getDay year (month + 1)) = the (getDay year month) + month_length year month"
proof -
  assume m: "month < 11"
  then have "(\<Sum>k < month + 1. month_length year k) = (\<Sum>k < month. month_length year k) + month_length year month" by simp
  then show ?thesis using m by (simp add: getDay_month month_sum del: sum.lessThan_Suc)
qed

lemma civil_date_parts:
  assumes "civil_date date = (year, month, day)"
  shows "valid_date year month day" "day_number year month day = date"
proof -
  define days where "days = date - year_start year"
  have year: "year = year_loop date (first_year date)"
    and month: "month = month_loop date year (first_month days)"
    and day: "day = 1 + date - the (getDay year month)"
    using assms by (auto simp: civil_date_def Let_def days_def getDay_0)
  have "year_start year \<le> date" "date < year_start (year + 1)"
    using year_loop_correct [OF year_estimate [of date]] by (simp_all add: year)
  then have d: "0 \<le> days" "days < year_length year" by (simp_all add: days_def year_start_next)
  have "the (getDay year (first_month days)) \<le> date"
    using month_estimate [OF d] by (simp add: getDay_month days_def)
  from month_loop_correct [OF month_estimate(1) [OF d] this]
  have m: "month < 12" "the (getDay year month) \<le> date" "\<not> not_after (getDay year (month + 1)) date"
    by (simp_all add: month)
  have "date < the (getDay year month) + month_length year month"
  proof (cases "month = 11")
    case True
    then show ?thesis using d(2) by (simp add: getDay_month days_def Months_def month_length_def year_length_def split: if_splits)
  next
    case False
    then have "month < 11" using m(1) by simp
    then have "date < the (getDay year (month + 1))" using m(3) by (simp add: not_after_def getDay_month)
    then show ?thesis using month_end [OF \<open>month < 11\<close>, of year] by simp
  qed
  then show "valid_date year month day" using m by (simp add: valid_date_def day)
  show "day_number year month day = date"
    using m(1) by (simp add: day_number_def year_start_sum [symmetric] month_sum day getDay_month)
qed

subsection \<open>The time of the day\<close>

text \<open>\<open>%\<close> has the sign of its first operand.\<close>

definition js_rem :: "int \<Rightarrow> int \<Rightarrow> int" where
  "js_rem a b = sgn a * (\<bar>a\<bar> mod b)"

definition day_time :: "int \<Rightarrow> int" where
  "day_time value = js_rem (js_rem value 86400000 + 86400000) 86400000"

record iso_fields =
  f_year :: int
  f_month :: nat
  f_date :: int
  f_hours :: int
  f_minutes :: int
  f_seconds :: int
  f_milliseconds :: int

definition date_fields :: "int \<Rightarrow> iso_fields" where
  "date_fields value =
     (case civil_date (value div 86400000) of (year, month, date) \<Rightarrow>
        let time = day_time value in
        \<lparr>f_year = year, f_month = month, f_date = date,
         f_hours = js_rem (time div 3600000) 24, f_minutes = js_rem (time div 60000) 60,
         f_seconds = js_rem (time div 1000) 60, f_milliseconds = js_rem time 1000\<rparr>)"

lemma js_rem_mod: "0 \<le> a \<Longrightarrow> js_rem a b = a mod b"
  by (cases "a = 0") (simp_all add: js_rem_def sgn_if)

lemma day_time_mod: "day_time value = value mod 86400000"
proof -
  have r: "\<bar>js_rem value 86400000\<bar> < 86400000" by (simp add: js_rem_def abs_mult sgn_if)
  have "value mod 86400000 = (js_rem value 86400000) mod 86400000"
  proof (cases "value \<ge> 0")
    case True
    then show ?thesis by (simp add: js_rem_mod)
  next
    case False
    then have "js_rem value 86400000 = - ((- value) mod 86400000)" by (simp add: js_rem_def)
    then show ?thesis by (simp add: mod_minus_eq)
  qed
  moreover have "day_time value = (js_rem value 86400000 + 86400000) mod 86400000"
    using r unfolding day_time_def by (intro js_rem_mod) simp
  ultimately show ?thesis by simp
qed

text \<open>The time value that the fields stand for.\<close>

definition valid_fields :: "iso_fields \<Rightarrow> bool" where
  "valid_fields f \<longleftrightarrow> valid_date (f_year f) (f_month f) (f_date f) \<and> 0 \<le> f_hours f \<and> f_hours f < 24 \<and> 0 \<le> f_minutes f \<and> f_minutes f < 60 \<and>
     0 \<le> f_seconds f \<and> f_seconds f < 60 \<and> 0 \<le> f_milliseconds f \<and> f_milliseconds f < 1000"

definition time_value :: "iso_fields \<Rightarrow> int" where
  "time_value f = (((day_number (f_year f) (f_month f) (f_date f) * 24 + f_hours f) * 60 + f_minutes f) * 60 + f_seconds f) * 1000 + f_milliseconds f"

lemma split_time:
  fixes t :: int
  assumes "0 \<le> t" "t < 86400000"
  shows "((((t div 3600000) mod 24) * 60 + (t div 60000) mod 60) * 60 + (t div 1000) mod 60) * 1000 + t mod 1000 = t"
proof -
  have "t div 60000 = t div 1000 div 60" "t div 3600000 = t div 1000 div 60 div 60"
    by (simp_all add: zdiv_zmult2_eq [symmetric])
  moreover have "t div 1000 div 60 div 60 < 24" "0 \<le> t div 1000 div 60 div 60"
    using assms by (simp_all add: zdiv_zmult2_eq [symmetric] div_int_pos_iff)
  ultimately show ?thesis
    by (simp add: mod_pos_pos_trivial)
qed

lemma date_fields_correct: "valid_fields (date_fields value)" "time_value (date_fields value) = value"
proof -
  obtain year month date where c: "civil_date (value div 86400000) = (year, month, date)" by (cases "civil_date (value div 86400000)")
  define t where "t = day_time value"
  have t: "0 \<le> t" "t < 86400000" "value = value div 86400000 * 86400000 + t" by (simp_all add: t_def day_time_mod)
  define H M S L where time: "H = (t div 3600000) mod 24" "M = (t div 60000) mod 60" "S = (t div 1000) mod 60" "L = t mod 1000"
  have f: "date_fields value = \<lparr>f_year = year, f_month = month, f_date = date, f_hours = H, f_minutes = M, f_seconds = S, f_milliseconds = L\<rparr>"
    using t(1) by (simp add: date_fields_def c Let_def t_def [symmetric] js_rem_mod pos_imp_zdiv_nonneg_iff time)
  have range: "0 \<le> H" "H < 24" "0 \<le> M" "M < 60" "0 \<le> S" "S < 60" "0 \<le> L" "L < 1000" by (simp_all add: time)
  have sum: "((H * 60 + M) * 60 + S) * 1000 + L = t" unfolding time by (rule split_time [OF t(1,2)])
  have "time_value (date_fields value) = value div 86400000 * 86400000 + (((H * 60 + M) * 60 + S) * 1000 + L)"
    by (simp add: time_value_def f civil_date_parts(2) [OF c])
  then show "time_value (date_fields value) = value" using t(3) sum by simp
  show "valid_fields (date_fields value)"
    using civil_date_parts(1) [OF c] range by (simp add: f valid_fields_def)
qed

subsection \<open>The text\<close>

definition padded :: "nat \<Rightarrow> int \<Rightarrow> jsstr" where
  "padded width value = toPaddedString width (nat_digits (nat value))"

definition year_text :: "int \<Rightarrow> jsstr" where
  "year_text year =
     (if year \<le> 0 \<or> year \<ge> 10000 then (if year < 0 then lit ''-'' else lit ''+'') @ padded 6 \<bar>year\<bar>
      else padded 4 year)"

definition date_text :: "int \<Rightarrow> jsstr" where
  "date_text value =
     (let f = date_fields value in
      year_text (f_year f) @ lit ''-'' @ padded 2 (int (f_month f) + 1) @ lit ''-'' @ padded 2 (f_date f) @
      lit ''T'' @ padded 2 (f_hours f) @ lit '':'' @ padded 2 (f_minutes f) @ lit '':'' @ padded 2 (f_seconds f) @
      lit ''.'' @ padded 3 (f_milliseconds f) @ lit ''Z'')"

text \<open>The feature test of the module, on its four dates.\<close>

lemmas date_eval = date_fields_def civil_date_def day_time_def js_rem_def first_year_eq first_month_eq year_loop.simps month_loop.simps
  getDay_def not_after_def Months_def Let_def

lemmas text_eval = date_text_def year_text_def padded_def toPaddedString_def nat_digits.simps lit_def digit_char_def

lemma date_text_feature_test:
  "date_text (- 8640000000000000) = lit ''-271821-04-20T00:00:00.000Z''"
  "date_text 8640000000000000 = lit ''+275760-09-13T00:00:00.000Z''"
  "date_text (- 62198755200000) = lit ''-000001-01-01T00:00:00.000Z''"
  "date_text (- 1) = lit ''1969-12-31T23:59:59.999Z''"
  by (simp_all add: date_eval text_eval)

text \<open>Different dates are different texts, in the range of time values the language allows.\<close>

lemma padded_digits:
  assumes "0 \<le> v" "v < 10 ^ w" "0 < w" "w \<le> 6"
  shows "length (padded w v) = w" "digits_val (padded w v) = nat v" "list_all is_digit (padded w v)"
proof -
  have "nat v < 10 ^ w" using assms by (simp add: nat_less_iff)
  then have len: "length (nat_digits (nat v)) \<le> w" using assms(3) by (rule length_nat_digits)
  have "lit ''000000'' = zeros 6" by (simp add: lit_def zeros_def digit_char_def eval_nat_numeral)
  then have p: "padded w v = zeros (w - length (nat_digits (nat v))) @ nat_digits (nat v)"
    using len assms(4) by (simp add: padded_def toPaddedString_def Let_def zeros_def)
  show "length (padded w v) = w" using len by (simp add: p zeros_def)
  show "digits_val (padded w v) = nat v" by (simp add: p digits_val_append)
  show "list_all is_digit (padded w v)"
    by (auto simp: p list_all_iff zeros_digits nat_digits_digits)
qed

lemma padded_inject:
  "0 \<le> v \<Longrightarrow> v < 10 ^ w \<Longrightarrow> 0 \<le> v' \<Longrightarrow> v' < 10 ^ w \<Longrightarrow> 0 < w \<Longrightarrow> w \<le> 6 \<Longrightarrow> padded w v = padded w v' \<Longrightarrow> v = v'"
  using padded_digits(2) [of v w] padded_digits(2) [of v' w] by simp

definition extended :: "int \<Rightarrow> bool" where
  "extended y \<longleftrightarrow> y \<le> 0 \<or> y \<ge> 10000"

lemma year_text_extended:
  assumes "extended y" "\<bar>y\<bar> < 1000000"
  shows "year_text y = (if y < 0 then 45 else 43) # padded 6 \<bar>y\<bar>" "length (padded 6 \<bar>y\<bar>) = 6"
  using assms padded_digits(1) [of "\<bar>y\<bar>" 6] by (auto simp: extended_def year_text_def lit_def)

lemma year_text_plain:
  assumes "\<not> extended y"
  shows "year_text y = padded 4 y" "length (padded 4 y) = 4" "hd (padded 4 y) \<notin> {43, 45}"
proof -
  have p: "0 \<le> y" "y < 10 ^ 4" using assms by (simp_all add: extended_def)
  then show "year_text y = padded 4 y" "length (padded 4 y) = 4"
    using assms padded_digits(1) [of y 4] by (simp_all add: extended_def year_text_def)
  then show "hd (padded 4 y) \<notin> {43, 45}"
    using padded_digits(3) [OF p] by (cases "padded 4 y") (auto simp: is_digit_def)
qed

lemma year_text_inject:
  assumes "\<bar>y\<bar> < 1000000" "\<bar>y'\<bar> < 1000000" "year_text y @ s = year_text y' @ s'"
  shows "y = y' \<and> s = s'"
proof (cases "extended y"; cases "extended y'")
  assume e: "extended y" "extended y'"
  then have "(y < 0) = (y' < 0)" "padded 6 \<bar>y\<bar> = padded 6 \<bar>y'\<bar>" "s = s'"
    using assms year_text_extended [of y] year_text_extended [of y'] by (auto split: if_splits)
  then show ?thesis using padded_inject [of "\<bar>y\<bar>" 6 "\<bar>y'\<bar>"] assms(1,2) by auto
next
  assume e: "\<not> extended y" "\<not> extended y'"
  then have "padded 4 y = padded 4 y'" "s = s'"
    using assms year_text_plain [of y] year_text_plain [of y'] by auto
  then show ?thesis using padded_inject [of y 4 y'] e by (auto simp: extended_def)
next
  assume e: "extended y" "\<not> extended y'"
  then have "hd (year_text y @ s) \<in> {43, 45}" "hd (year_text y' @ s') \<notin> {43, 45}"
    using assms(1) year_text_extended [of y] year_text_plain [of y'] by (cases "padded 4 y'"; auto)+
  then show ?thesis using assms(3) by simp
next
  assume e: "\<not> extended y" "extended y'"
  then have "hd (year_text y' @ s') \<in> {43, 45}" "hd (year_text y @ s) \<notin> {43, 45}"
    using assms(2) year_text_extended [of y'] year_text_plain [of y] by (cases "padded 4 y"; auto)+
  then show ?thesis using assms(3) by simp
qed

lemma year_bound:
  assumes "\<bar>value\<bar> \<le> 8640000000000000"
  shows "\<bar>f_year (date_fields value)\<bar> < 1000000"
proof -
  define date where "date = value div 86400000"
  have d: "- 100000000 \<le> date" "date \<le> 100000000" using assms by (auto simp: date_def)
  obtain year month day where c: "civil_date date = (year, month, day)" by (cases "civil_date date")
  then have "year = year_loop date (first_year date)" by (auto simp: civil_date_def Let_def)
  then have y: "year_start year \<le> date" "date < year_start (year + 1)"
    using year_loop_correct [OF year_estimate [of date]] by simp_all
  have "year_start 1970 = 0" by (simp add: year_start_eq)
  then have "year < 1000000" "- 1000000 < year"
    using y d year_start_mono [of 1970 year] year_start_mono [of "year + 1" 1970]
    by (cases "1970 \<le> year"; simp)+
  then show ?thesis using c by (simp add: date_fields_def date_def [symmetric] Let_def)
qed

lemma month_length_le: "month_length year month \<le> 31"
  by (simp add: month_length_def)

lemma padded_next:
  assumes "p @ padded w v @ s = p @ padded w v' @ s'" "0 \<le> v" "v < 10 ^ w" "0 \<le> v'" "v' < 10 ^ w" "0 < w" "w \<le> 6"
  shows "v = v'" "s = s'"
  using assms padded_digits(1) [of v w] padded_digits(1) [of v' w] padded_inject [of v w v'] by simp_all

lemma date_text_inject:
  assumes "\<bar>v\<bar> \<le> 8640000000000000" "\<bar>v'\<bar> \<le> 8640000000000000" "date_text v = date_text v'"
  shows "v = v'"
proof -
  define f f' where "f = date_fields v" and "f' = date_fields v'"
  have ok: "valid_fields f" "valid_fields f'" "time_value f = v" "time_value f' = v'"
    by (simp_all add: f_def f'_def date_fields_correct)
  note r = ok(1,2) [unfolded valid_fields_def valid_date_def]
  have date: "f_date f < 100" "f_date f' < 100"
    using r month_length_le [of "f_year f" "f_month f"] month_length_le [of "f_year f'" "f_month f'"] by simp_all
  have eq: "year_text (f_year f) @ lit ''-'' @ padded 2 (int (f_month f) + 1) @ lit ''-'' @ padded 2 (f_date f) @
      lit ''T'' @ padded 2 (f_hours f) @ lit '':'' @ padded 2 (f_minutes f) @ lit '':'' @ padded 2 (f_seconds f) @
      lit ''.'' @ padded 3 (f_milliseconds f) @ lit ''Z'' =
    year_text (f_year f') @ lit ''-'' @ padded 2 (int (f_month f') + 1) @ lit ''-'' @ padded 2 (f_date f') @
      lit ''T'' @ padded 2 (f_hours f') @ lit '':'' @ padded 2 (f_minutes f') @ lit '':'' @ padded 2 (f_seconds f') @
      lit ''.'' @ padded 3 (f_milliseconds f') @ lit ''Z''"
    using assms(3) unfolding date_text_def Let_def f_def f'_def .
  have year: "\<bar>f_year f\<bar> < 1000000" "\<bar>f_year f'\<bar> < 1000000" using year_bound assms(1,2) by (simp_all add: f_def f'_def)
  note e1 = year_text_inject [OF year eq]
  note e2 = padded_next [OF e1 [THEN conjunct2]]
  note e3 = padded_next [OF e2(2)]
  note e4 = padded_next [OF e3(2)]
  note e5 = padded_next [OF e4(2)]
  note e6 = padded_next [OF e5(2)]
  note e7 = padded_next [OF e6(2)]
  have "f_month f = f_month f'" "f_date f = f_date f'" "f_hours f = f_hours f'" "f_minutes f = f_minutes f'" "f_seconds f = f_seconds f'"
    "f_milliseconds f = f_milliseconds f'"
    using e2(1) e3(1) e4(1) e5(1) e6(1) e7(1) r date by simp_all
  then show ?thesis using e1 ok(3,4) by (simp add: time_value_def)
qed

text \<open>What \<open>serialize\<close> writes for a date; the time value of an invalid date is \<open>NaN\<close>.\<close>

definition serialize_date :: "int option \<Rightarrow> jsstr" where
  "serialize_date value = (case value of None \<Rightarrow> lit ''null'' | Some v \<Rightarrow> quote (date_text v))"

text \<open>
  C28. The date and the time that are computed for a time value are a valid date of the Gregorian calendar and, counting the days of years and
  months from 1970, the time value again.
\<close>

theorem json3_date_correct: "valid_fields (date_fields value) \<and> time_value (date_fields value) = value"
  by (simp add: date_fields_correct)

end
