(* ===== verification/JsonRevive.thy ===== *)
theory JsonRevive
  imports Json
begin

text \<open>
  The \<open>callback\<close> of \<open>parse\<close> in JSON 3 (module 11): \<open>walk\<close> and \<open>update\<close>. A callback is a function on the key, the value and
  a state of its own; it returns the value that takes the place of the old one, and \<open>undefined\<close> deletes it. What it does to the object that holds
  the value is not modelled.
\<close>

subsection \<open>Walking\<close>

type_synonym 's reviver = "jsval \<Rightarrow> jsval \<Rightarrow> 's \<Rightarrow> jsval \<times> 's"

text \<open>\<open>delete\<close> leaves a hole in an array, which reads as \<open>undefined\<close>.\<close>

definition revived :: "(jsstr \<times> jsval) list \<Rightarrow> (jsstr \<times> jsval) list \<Rightarrow> (jsstr \<times> jsval) list" where
  "revived elements kvs = concat (map (\<lambda>(k, v). case map_of elements k of
     None \<Rightarrow> [(k, v)] | Some element \<Rightarrow> if element = JUndef then [] else [(k, element)]) kvs)"

lemma size_constructor_last: "size_list f (constructor_last kvs) = size_list f kvs"
proof (induction kvs)
  case (Cons kv kvs)
  have "size_list f (xs @ kv # ys) = size_list f (xs @ ys) + f kv + 1" for xs ys by (induction xs) simp_all
  then show ?case using Cons by (cases kv) (simp add: constructor_last_def)
qed (simp add: constructor_last_def)

function walk :: "'s reviver \<Rightarrow> jsval \<Rightarrow> jsval \<Rightarrow> 's \<Rightarrow> jsval \<times> 's"
  and walk_elements :: "'s reviver \<Rightarrow> nat \<Rightarrow> jsval list \<Rightarrow> 's \<Rightarrow> jsval list \<times> 's"
  and walk_members :: "'s reviver \<Rightarrow> (jsstr \<times> jsval) list \<Rightarrow> 's \<Rightarrow> (jsstr \<times> jsval) list \<times> 's" where
  "walk callback property value s =
     (case value of
        JArr vs \<Rightarrow> (case walk_elements callback 0 vs s of (vs', s) \<Rightarrow> callback property (JArr vs') s)
      | JObj kvs \<Rightarrow> (case walk_members callback (constructor_last kvs) s of
          (elements, s) \<Rightarrow> callback property (JObj (revived elements kvs)) s)
      | _ \<Rightarrow> callback property value s)"
| "walk_elements callback i [] s = ([], s)"
| "walk_elements callback i (v # vs) s =
     (case walk_elements callback (i + 1) vs s of (vs', s) \<Rightarrow>
      case walk callback (JNum (js_nat i)) v s of (element, s) \<Rightarrow> (element # vs', s))"
| "walk_members callback [] s = ([], s)"
| "walk_members callback (kv # kvs) s =
     (case walk callback (JStr (fst kv)) (snd kv) s of (element, s) \<Rightarrow>
      case walk_members callback kvs s of (elements, s) \<Rightarrow> ((fst kv, element) # elements, s))"
  by pat_completeness auto
termination
  by (relation "measure (\<lambda>x. case x of Inl (_, _, v, _) \<Rightarrow> size v | Inr (Inl (_, _, vs, _)) \<Rightarrow> size_list size vs
      | Inr (Inr (_, kvs, _)) \<Rightarrow> size_list (size_prod (\<lambda>_. 0) size) kvs)")
    (auto simp: size_constructor_last)

declare walk.simps [simp del]

definition json_parse_with :: "'s reviver \<Rightarrow> jsstr \<Rightarrow> 's \<Rightarrow> (jsval \<times> 's) result" where
  "json_parse_with callback source s = bindE (json_parse source) (\<lambda>v. Inr (walk callback (JStr []) v s))"

subsection \<open>What a callback without a state does\<close>

text \<open>Every value is replaced bottom-up, and a member whose replacement is \<open>undefined\<close> is left out.\<close>

function replaced :: "(jsval \<Rightarrow> jsval \<Rightarrow> jsval) \<Rightarrow> jsval \<Rightarrow> jsval \<Rightarrow> jsval" where
  "replaced f p v = f p (case v of
     JArr vs \<Rightarrow> JArr (map (\<lambda>(i, v). replaced f (JNum (js_nat i)) v) (enumerate 0 vs))
   | JObj kvs \<Rightarrow> JObj (filter (\<lambda>(k, v). v \<noteq> JUndef) (map (\<lambda>(k, v). (k, replaced f (JStr k) v)) kvs))
   | _ \<Rightarrow> v)"
  by pat_completeness auto
termination
  by (relation "measure (\<lambda>(_, _, v). size v)")
    (auto simp: in_set_enumerate_eq less_Suc_eq_le intro!: size_list_estimation' [OF nth_mem] elim!: size_list_estimation')

declare replaced.simps [simp del]

fun keys_distinct :: "jsval \<Rightarrow> bool" where
  "keys_distinct (JArr vs) = (\<forall>v \<in> set vs. keys_distinct v)"
| "keys_distinct (JObj kvs) = (distinct (map fst kvs) \<and> (\<forall>(k, v) \<in> set kvs. keys_distinct v))"
| "keys_distinct _ = True"

lemma set_constructor_last [simp]: "set (constructor_last kvs) = set kvs"
  by (auto simp: constructor_last_def)

lemma distinct_constructor_last_keys: "distinct (map fst kvs) \<Longrightarrow> distinct (map fst (constructor_last kvs))"
  by (auto simp: constructor_last_def distinct_map inj_on_def)

lemma revived_all:
  "(\<And>k v. (k, v) \<in> set kvs \<Longrightarrow> map_of elements k = Some (g k v)) \<Longrightarrow>
    revived elements kvs = filter (\<lambda>(k, v). v \<noteq> JUndef) (map (\<lambda>(k, v). (k, g k v)) kvs)"
  by (induction kvs) (force simp: revived_def)+

lemma walk_replaced:
  "cb = (\<lambda>p v s. (f p v, s)) \<Longrightarrow> keys_distinct v \<Longrightarrow> walk cb p v s = (replaced f p v, s)"
  "cb = (\<lambda>p v s. (f p v, s)) \<Longrightarrow> (\<forall>v \<in> set vs. keys_distinct v) \<Longrightarrow>
    walk_elements cb i vs s = (map (\<lambda>(i, v). replaced f (JNum (js_nat i)) v) (enumerate i vs), s)"
  "cb = (\<lambda>p v s. (f p v, s)) \<Longrightarrow> (\<forall>(k, v) \<in> set kvs. keys_distinct v) \<Longrightarrow>
    walk_members cb kvs s = (map (\<lambda>(k, v). (k, replaced f (JStr k) v)) kvs, s)"
proof (induction cb p v s and cb i vs s and cb kvs s rule: walk_walk_elements_walk_members.induct)
  case (1 callback p v s)
  show ?case
  proof (cases v)
    case (JArr vs)
    then have "walk_elements callback 0 vs s = (map (\<lambda>(i, v). replaced f (JNum (js_nat i)) v) (enumerate 0 vs), s)"
      using 1 by simp
    then show ?thesis using 1(3) JArr by (simp add: walk.simps replaced.simps [of f p "JArr vs"])
  next
    case (JObj kvs)
    let ?r = "\<lambda>(k, v). (k, replaced f (JStr k) v)"
    have "walk_members callback (constructor_last kvs) s = (map ?r (constructor_last kvs), s)"
      using 1(2) [OF JObj 1(3)] 1(4) JObj by simp
    moreover have "revived (map ?r (constructor_last kvs)) kvs = filter (\<lambda>(k, v). v \<noteq> JUndef) (map ?r kvs)"
    proof -
      have d: "distinct (map fst (constructor_last kvs))" using 1(4) JObj by (simp add: distinct_constructor_last_keys)
      have "map fst (map ?r (constructor_last kvs)) = map fst (constructor_last kvs)" by (simp add: split_def)
      with d have "map_of (map ?r (constructor_last kvs)) k = Some (replaced f (JStr k) v)" if "(k, v) \<in> set kvs" for k v
        using that by (intro map_of_is_SomeI) (auto simp del: map_map intro: rev_image_eqI)
      then show ?thesis by (rule revived_all)
    qed
    ultimately show ?thesis using 1(3) JObj by (simp add: walk.simps replaced.simps [of f p "JObj kvs"])
  qed (use 1(3) in \<open>simp_all add: walk.simps, (subst replaced.simps, simp)+\<close>)
qed (auto split: prod.splits)

text \<open>What the parser returns has no property twice.\<close>

fun mode_distinct :: "get_mode \<Rightarrow> bool" where
  "mode_distinct (Value tok) = True"
| "mode_distinct (Elements b results) = (\<forall>v \<in> set results. keys_distinct v)"
| "mode_distinct (Members b results) = (distinct (map fst results) \<and> (\<forall>(k, v) \<in> set results. keys_distinct v))"

lemma set_assoc_values: "(\<forall>(k, v) \<in> set kvs. P v) \<Longrightarrow> P v' \<Longrightarrow> (\<forall>(k, v) \<in> set (set_assoc k' v' kvs). P v)"
  by (induction kvs) (auto split: if_splits)

lemma mode_distinct_member:
  "mode_distinct (Members b kvs) \<Longrightarrow> keys_distinct v \<Longrightarrow> mode_distinct (Members True (set_prop k v kvs))"
  using distinct_set_assoc [of kvs k v] set_assoc_values [of kvs keys_distinct v k] by (simp add: set_prop_def)

lemma get_distinct: "get mode s = Inr (v, r) \<Longrightarrow> mode_distinct mode \<Longrightarrow> keys_distinct v"
proof (induction mode s arbitrary: v r rule: get.induct)
  case (7 b acc s)
  note prems = "7.prems"(1) [unfolded get.simps(7) [of b acc s]]
  then obtain item s1 where it: "next_item 93 b s = Inr (item, s1)" by (auto simp: bindE_Inr_iff simp del: get.simps)
  show ?case
  proof (cases item)
    case None
    then show ?thesis using prems "7.prems"(2) it by (auto simp del: get.simps)
  next
    case (Some tok)
    then obtain v1 s2 where g: "tok \<noteq> TPunct 44" "get (Value tok) s1 = Inr (v1, s2)" "get (Elements True (acc @ [v1])) s2 = Inr (v, r)"
      using prems it by (auto simp: bindE_Inr_iff simp del: get.simps split: if_splits)
    have "keys_distinct v1" using "7.IH"(1) [OF it refl Some g(1,2)] by simp
    then show ?thesis using "7.IH"(2) [OF it refl Some g(1,2) refl g(3)] "7.prems"(2) by auto
  qed
next
  case (8 b acc s)
  note prems = "8.prems"(1) [unfolded get.simps(8) [of b acc s]]
  then obtain item s1 where it: "next_item 125 b s = Inr (item, s1)" by (auto simp: bindE_Inr_iff simp del: get.simps)
  show ?case
  proof (cases item)
    case None
    then show ?thesis using prems "8.prems"(2) it by (auto simp del: get.simps)
  next
    case (Some tok)
    then obtain k s2 tok' s3 v1 s4 where g: "tok = TString k" "expect_colon s1 = Inr s2" "lex s2 = Inr (tok', s3)"
      "get (Value tok') s3 = Inr (v1, s4)" "get (Members True (set_prop k v1 acc)) s4 = Inr (v, r)"
      using prems it by (auto simp: bindE_Inr_iff simp del: get.simps split: token.splits)
    have "keys_distinct v1" using "8.IH"(1) [OF it refl Some g(1,2,3) refl g(4)] by simp
    then show ?thesis
      using "8.IH"(2) [OF it refl Some g(1,2,3) refl g(4) refl g(5)] mode_distinct_member "8.prems"(2) by blast
  qed
qed (auto simp del: get.simps(7,8) split: if_splits)

lemma json_reviver:
  "json_parse_with (\<lambda>p v s. (f p v, s)) source s = bindE (json_parse source) (\<lambda>v. Inr (replaced f (JStr []) v, s))"
proof (cases "json_parse source")
  case (Inr v)
  then obtain tok r r' where "get (Value tok) r = Inr (v, r')"
    by (auto simp: json_parse_def bindE_Inr_iff simp del: get.simps split: if_splits)
  then have "keys_distinct v" by (rule get_distinct) simp
  then show ?thesis using Inr by (simp add: json_parse_with_def walk_replaced(1) [OF refl])
qed (simp add: json_parse_with_def)

end
