(* ===== verification/Ticks.thy ===== *)
theory Ticks
  imports Prelude "HOL-Library.Sublist"
begin

text \<open>
  The task queue of the process shim (module 4): \<open>nextTick\<close>, \<open>drainQueue\<close> and \<open>cleanUpNextTick\<close>, which goes on after a task that
  has thrown. A task is what it does: the tasks it passes to \<open>nextTick\<close> itself, and whether it throws in the end. The browser has
  \<open>setTimeout\<close>; what the shim does without it is not modelled.
\<close>

subsection \<open>State\<close>

datatype task = Task (label: nat) (calls: "task list") (throws: bool)

datatype tick_timer = Drain_queue | Clean_up

text \<open>\<open>called\<close> and \<open>started\<close> record all calls of \<open>nextTick\<close> and of \<open>run\<close>.\<close>

record shim =
  queue :: "task list"
  draining :: bool
  currentQueue :: "task list option"
  queueIndex :: int
  tick_timers :: "(nat \<times> tick_timer) list"
  timer_no :: nat
  called :: "task list"
  started :: "task list"

definition new_shim :: shim where
  "new_shim = \<lparr>queue = [], draining = False, currentQueue = None, queueIndex = -1, tick_timers = [], timer_no = 0, called = [], started = []\<rparr>"

subsection \<open>Operations\<close>

definition runTimeout :: "tick_timer \<Rightarrow> shim \<Rightarrow> nat \<times> shim" where
  "runTimeout f s = (timer_no s, s\<lparr>tick_timers := tick_timers s @ [(timer_no s, f)], timer_no := timer_no s + 1\<rparr>)"

definition runClearTimeout :: "nat \<Rightarrow> shim \<Rightarrow> shim" where
  "runClearTimeout marker s = s\<lparr>tick_timers := filter (\<lambda>(i, _). i \<noteq> marker) (tick_timers s)\<rparr>"

definition nextTick :: "task \<Rightarrow> shim \<Rightarrow> shim" where
  "nextTick t s =
     (let s = s\<lparr>queue := queue s @ [t], called := called s @ [t]\<rparr> in
      if length (queue s) = 1 \<and> \<not> draining s then snd (runTimeout Drain_queue s) else s)"

text \<open>\<open>run\<close> tells whether the task has thrown.\<close>

definition run_task :: "task \<Rightarrow> shim \<Rightarrow> bool \<times> shim" where
  "run_task t s = (throws t, fold nextTick (calls t) (s\<lparr>started := started s @ [t]\<rparr>))"

text \<open>The loops of \<open>drainQueue\<close>, from the test of the inner one on; \<open>undefined.run()\<close> throws too.\<close>

fun weight :: "task \<Rightarrow> nat" where
  "weight (Task l cs x) = 1 + sum_list (map weight cs)"

definition load :: "task list \<Rightarrow> nat" where
  "load ts = sum_list (map weight ts)"

lemma load_simps [simp]: "load [] = 0" "load (t # ts) = weight t + load ts" "load (ts @ us) = load ts + load us"
  by (simp_all add: load_def)

lemma weight_calls: "weight t = 1 + load (calls t)"
  by (cases t) (simp add: load_def)

lemma nextTick_simps [simp]:
  "queue (nextTick t s) = queue s @ [t]" "called (nextTick t s) = called s @ [t]" "draining (nextTick t s) = draining s"
  "currentQueue (nextTick t s) = currentQueue s" "queueIndex (nextTick t s) = queueIndex s" "started (nextTick t s) = started s"
  by (simp_all add: nextTick_def runTimeout_def Let_def)

lemma nextTicks [simp]:
  "queue (fold nextTick ts s) = queue s @ ts" "called (fold nextTick ts s) = called s @ ts" "draining (fold nextTick ts s) = draining s"
  "currentQueue (fold nextTick ts s) = currentQueue s" "queueIndex (fold nextTick ts s) = queueIndex s" "started (fold nextTick ts s) = started s"
  by (induction ts arbitrary: s) simp_all

definition remaining :: "nat \<Rightarrow> shim \<Rightarrow> nat" where
  "remaining len s = 2 * (load (queue s) + (case currentQueue s of None \<Rightarrow> nat (int len - queueIndex s - 1) | Some q \<Rightarrow> load (drop (nat (queueIndex s + 1)) q))) +
     (if queueIndex s + 1 < int len then 0 else 1)"

function drain_from :: "nat \<Rightarrow> shim \<Rightarrow> bool \<times> shim" where
  "drain_from len s =
     (let s = s\<lparr>queueIndex := queueIndex s + 1\<rparr> in
      if queueIndex s < int len then
        (case currentQueue s of
           None \<Rightarrow> drain_from len s
         | Some q \<Rightarrow>
             if 0 \<le> queueIndex s \<and> queueIndex s < int (length q) then
               (case run_task (q ! nat (queueIndex s)) s of (thrown, s) \<Rightarrow> if thrown then (True, s) else drain_from len s)
             else (True, s))
      else
        let s = s\<lparr>queueIndex := -1\<rparr>; len = length (queue s) in
        if len \<noteq> 0 then drain_from len (s\<lparr>currentQueue := Some (queue s), queue := []\<rparr>) else (False, s))"
  by pat_completeness auto
termination
proof (relation "measure (\<lambda>(len, s). remaining len s)", goal_cases)
  case (2 len s s')
  then show ?case by (auto simp: remaining_def)
next
  case (3 len s s' q x t)
  define i where "i = nat (queueIndex s + 1)"
  have i: "queueIndex s + 1 = int i" "i < length q" "queueIndex s' = int i" "currentQueue s = Some q" "queueIndex s + 1 < int len"
    using 3 by (auto simp: i_def)
  have "load (drop i q) = weight (q ! i) + load (drop (Suc i) q)"
    using i(2) by (simp add: Cons_nth_drop_Suc [symmetric])
  moreover have "t = fold nextTick (calls (q ! i)) (s'\<lparr>started := started s' @ [q ! i]\<rparr>)" "queue s' = queue s" "currentQueue s' = Some q"
    using 3 i by (auto simp: run_task_def)
  ultimately show ?case
    using i weight_calls [of "q ! i"] by (simp add: remaining_def nat_add_distrib)
next
  case (4 len s x xa xb)
  then show ?case by (auto simp: remaining_def split: option.splits)
qed auto

declare drain_from.simps [simp del]

text \<open>A task that throws leaves \<open>drainQueue\<close> in the middle, with \<open>draining\<close> still set and the timer of \<open>cleanUpNextTick\<close> waiting.\<close>

definition drainQueue :: "shim \<Rightarrow> bool \<times> shim" where
  "drainQueue s =
     (if draining s then (False, s)
      else
        let (marker, s) = runTimeout Clean_up s; s = s\<lparr>draining := True\<rparr>; len = length (queue s);
            (thrown, s) = (if len \<noteq> 0 then drain_from len (s\<lparr>currentQueue := Some (queue s), queue := []\<rparr>) else (False, s))
        in if thrown then (True, s)
           else (False, runClearTimeout marker (s\<lparr>currentQueue := None, draining := False\<rparr>)))"

definition cleanUpNextTick :: "shim \<Rightarrow> bool \<times> shim" where
  "cleanUpNextTick s =
     (case currentQueue s of
        None \<Rightarrow> (False, s)
      | Some q \<Rightarrow>
          if \<not> draining s then (False, s)
          else
            let s = s\<lparr>draining := False\<rparr>;
                s = (if q \<noteq> [] then s\<lparr>queue := q @ queue s\<rparr> else s\<lparr>queueIndex := -1\<rparr>)
            in if queue s \<noteq> [] then drainQueue s else (False, s))"

fun run_timer :: "tick_timer \<Rightarrow> shim \<Rightarrow> bool \<times> shim" where
  "run_timer Drain_queue s = drainQueue s"
| "run_timer Clean_up s = cleanUpNextTick s"

text \<open>Everything that happens: a call from outside, or a timer.\<close>

inductive tick_step :: "shim \<Rightarrow> shim \<Rightarrow> bool" where
  call: "tick_step s (nextTick t s)"
| timer: "(i, f) \<in> set (tick_timers s) \<Longrightarrow> tick_step s (snd (run_timer f (runClearTimeout i s)))"

subsection \<open>Order\<close>

text \<open>The tasks that have not been started.\<close>

definition waiting_tasks :: "shim \<Rightarrow> task list" where
  "waiting_tasks s = (case currentQueue s of None \<Rightarrow> [] | Some q \<Rightarrow> drop (nat (queueIndex s + 1)) q) @ queue s"

definition in_order :: "shim \<Rightarrow> bool" where
  "in_order s \<longleftrightarrow> started s @ waiting_tasks s = called s"

lemma timers_draining [simp]: "draining s \<Longrightarrow> tick_timers (nextTick t s) = tick_timers s \<and> timer_no (nextTick t s) = timer_no s"
  by (simp add: nextTick_def)

lemma timers_nextTicks [simp]:
  "draining s \<Longrightarrow> tick_timers (fold nextTick ts s) = tick_timers s \<and> timer_no (fold nextTick ts s) = timer_no s"
  by (induction ts arbitrary: s) simp_all

definition progress :: "shim \<Rightarrow> shim \<Rightarrow> bool" where
  "progress s t \<longleftrightarrow> prefix (started s) (started t) \<and> (waiting_tasks s \<noteq> [] \<longrightarrow> started t \<noteq> started s)"

definition drained :: "shim \<Rightarrow> bool \<times> shim \<Rightarrow> bool" where
  "drained s r \<longleftrightarrow> (case r of (thrown, t) \<Rightarrow>
     draining t \<and> tick_timers t = tick_timers s \<and> timer_no t = timer_no s \<and> progress s t \<and>
     (if thrown then in_order t \<and> (\<exists>q. currentQueue t = Some q \<and> 0 \<le> queueIndex t \<and> queueIndex t < int (length q))
      else started t = called t \<and> queue t = [] \<and> queueIndex t = -1))"

lemma progress_more: "progress t u \<Longrightarrow> started t = started s @ ts \<Longrightarrow> ts \<noteq> [] \<or> (waiting_tasks s \<noteq> [] \<longrightarrow> waiting_tasks t \<noteq> []) \<Longrightarrow> progress s u"
  by (auto simp: progress_def prefix_def)

lemma drained_trans:
  assumes "drained t r" "tick_timers t = tick_timers s" "timer_no t = timer_no s" "started t = started s @ ts"
    "ts \<noteq> [] \<or> (waiting_tasks s \<noteq> [] \<longrightarrow> waiting_tasks t \<noteq> [])"
  shows "drained s r"
proof (cases r)
  case (Pair x u)
  then have "progress s u" using assms(1) progress_more [OF _ assms(4,5)] by (simp add: drained_def)
  then show ?thesis using Pair assms(1-3) by (simp add: drained_def)
qed

lemma drain_from_drained:
  assumes "draining s" "currentQueue s = Some q" "-1 \<le> queueIndex s" "queueIndex s < int (length q)" "in_order s" "len = length q"
  shows "drained s (drain_from len s)"
  using assms
proof (induction len s arbitrary: q rule: drain_from.induct)
  case (1 len s)
  note p = "1.prems"
  define i where "i = nat (queueIndex s + 1)"
  have i: "queueIndex s + 1 = int i" using p(3) by (simp add: i_def)
  let ?s = "s\<lparr>queueIndex := queueIndex s + 1\<rparr>"
  show ?case
  proof (cases "i < length q")
    case True
    then have drop: "drop i q = q ! i # drop (Suc i) q" by (simp add: Cons_nth_drop_Suc)
    define t where "t = fold nextTick (calls (q ! i)) (s\<lparr>queueIndex := int i, started := started s @ [q ! i]\<rparr>)"
    have run: "run_task (q ! i) ?s = (throws (q ! i), t)" by (simp add: run_task_def t_def i)
    have t: "draining t" "currentQueue t = Some q" "queueIndex t = int i" "tick_timers t = tick_timers s" "timer_no t = timer_no s"
      "started t = started s @ [q ! i]" "queue t = queue s @ calls (q ! i)" "called t = called s @ calls (q ! i)"
      using p(1,2) by (simp_all add: t_def)
    have o: "in_order t" using p(2,5) t i drop by (simp add: in_order_def waiting_tasks_def nat_add_distrib)
    have e: "drain_from len s = (if throws (q ! i) then (True, t) else drain_from len t)"
      using True i p(2,6) run by (subst drain_from.simps) (simp add: Let_def)
    show ?thesis
    proof (cases "throws (q ! i)")
      case True
      then show ?thesis using e t o \<open>i < length q\<close> by (simp add: drained_def progress_def)
    next
      case False
      have "drained t (drain_from len t)"
        by (rule "1.IH"(2) [of ?s q "throws (q ! i)"]) (use \<open>i < length q\<close> i p(2,6) False t o run in simp_all)
      then show ?thesis using e False t(4-6) by (auto intro: drained_trans)
    qed
  next
    case False
    then have w: "waiting_tasks s = queue s" using i p(2) by (simp add: waiting_tasks_def)
    let ?r = "?s\<lparr>queueIndex := -1\<rparr>"
    define t where "t = ?r\<lparr>currentQueue := Some (queue ?r), queue := []\<rparr>"
    have t: "draining t" "currentQueue t = Some (queue s)" "queueIndex t = -1" "queue t = []" "tick_timers t = tick_timers s"
      "timer_no t = timer_no s" "started t = started s" "called t = called s"
      using p(1) by (simp_all add: t_def)
    have e: "drain_from len s = (if queue s \<noteq> [] then drain_from (length (queue s)) t else (False, s\<lparr>queueIndex := -1\<rparr>))"
      using False i p(2,6) by (subst drain_from.simps) (simp add: Let_def t_def)
    show ?thesis
    proof (cases "queue s = []")
      case True
      then show ?thesis using e w p False i by (simp add: drained_def progress_def in_order_def)
    next
      case False
      have wt: "waiting_tasks t = queue s" using t by (simp add: waiting_tasks_def)
      have o: "in_order t" using p(5) w wt t by (simp add: in_order_def)
      have "drained t (drain_from (length (queue s)) t)"
        using "1.IH"(3) [of ?s ?r "length (queue s)" "queue s", folded t_def] \<open>\<not> i < length q\<close> i p(6) False t o by simp
      then have "drained s (drain_from (length (queue s)) t)"
        by (rule drained_trans [where ts = "[]"]) (simp_all add: t wt w)
      then show ?thesis using e False by simp
    qed
  qed
qed

text \<open>Between the steps the shim is idle, or waits for the timer that drains the queue, or for the one that cleans up.\<close>

definition tick_inv :: "shim \<Rightarrow> bool" where
  "tick_inv s \<longleftrightarrow> in_order s \<and>
     (if draining s then \<exists>q i. currentQueue s = Some q \<and> 0 \<le> queueIndex s \<and> queueIndex s < int (length q) \<and> tick_timers s = [(i, Clean_up)]
      else currentQueue s = None \<and> queueIndex s = -1 \<and> (if queue s = [] then tick_timers s = [] else \<exists>i. tick_timers s = [(i, Drain_queue)]))"

lemma tick_inv_new: "tick_inv new_shim"
  by (simp add: tick_inv_def new_shim_def in_order_def waiting_tasks_def)

lemma tick_inv_nextTick: "tick_inv s \<Longrightarrow> tick_inv (nextTick t s)"
  by (auto simp: tick_inv_def in_order_def waiting_tasks_def nextTick_def runTimeout_def Let_def split: if_splits)

text \<open>What \<open>drainQueue\<close> needs: the tasks of the queue behind \<open>queueIndex\<close> are the ones that have not been started.\<close>

lemma drainQueue_drains:
  assumes "\<not> draining s" "-1 \<le> queueIndex s" "queueIndex s < int (length (queue s))" "queue s \<noteq> []" "tick_timers s = []"
    "started s @ drop (nat (queueIndex s + 1)) (queue s) = called s"
  shows "tick_inv (snd (drainQueue s))"
    "prefix (started s) (started (snd (drainQueue s)))"
    "drop (nat (queueIndex s + 1)) (queue s) \<noteq> [] \<Longrightarrow> started (snd (drainQueue s)) \<noteq> started s"
proof -
  define t where "t = s\<lparr>tick_timers := [(timer_no s, Clean_up)], timer_no := timer_no s + 1, draining := True, currentQueue := Some (queue s), queue := []\<rparr>"
  have "in_order t" "waiting_tasks t = drop (nat (queueIndex s + 1)) (queue s)"
    using assms(6) by (simp_all add: t_def in_order_def waiting_tasks_def)
  obtain x u where r: "drain_from (length (queue s)) t = (x, u)" by (cases "drain_from (length (queue s)) t")
  have d: "drained t (drain_from (length (queue s)) t)"
    by (rule drain_from_drained [of t "queue s"]) (use assms \<open>in_order t\<close> in \<open>simp_all add: t_def\<close>)
  have e: "drainQueue s = (if x then (True, u) else (False, runClearTimeout (timer_no s) (u\<lparr>currentQueue := None, draining := False\<rparr>)))"
    using assms(1,4,5) r by (simp add: drainQueue_def runTimeout_def Let_def t_def)
  show "tick_inv (snd (drainQueue s))"
    using d r e by (auto simp: drained_def tick_inv_def in_order_def waiting_tasks_def runClearTimeout_def t_def)
  have "progress t u" "started t = started s" "started (snd (drainQueue s)) = started u"
    using d r e by (simp_all add: drained_def runClearTimeout_def, simp_all add: t_def)
  then show "prefix (started s) (started (snd (drainQueue s)))"
    "drop (nat (queueIndex s + 1)) (queue s) \<noteq> [] \<Longrightarrow> started (snd (drainQueue s)) \<noteq> started s"
    using \<open>waiting_tasks t = _\<close> by (simp_all add: progress_def)
qed

lemma run_timer_inv:
  assumes "tick_inv s" "(i, f) \<in> set (tick_timers s)"
  shows "tick_inv (snd (run_timer f (runClearTimeout i s)))" "progress s (snd (run_timer f (runClearTimeout i s)))"
proof -
  define t where "t = runClearTimeout i s"
  have t: "tick_timers t = []" "queue t = queue s" "draining t = draining s" "currentQueue t = currentQueue s" "queueIndex t = queueIndex s"
    "started t = started s" "called t = called s"
    using assms by (auto simp: t_def runClearTimeout_def tick_inv_def split: if_splits)
  have "tick_inv (snd (run_timer f t)) \<and> progress s (snd (run_timer f t))"
  proof (cases "draining s")
    case False
    then have "f = Drain_queue" "queue s \<noteq> []" "queueIndex s = -1" "currentQueue s = None" "in_order s"
      using assms by (auto simp: tick_inv_def split: if_splits)
    then show ?thesis
      using drainQueue_drains [of t] t False by (auto simp: progress_def waiting_tasks_def in_order_def)
  next
    case True
    then obtain q where q: "f = Clean_up" "currentQueue s = Some q" "0 \<le> queueIndex s" "queueIndex s < int (length q)" "in_order s"
      using assms by (auto simp: tick_inv_def)
    define u where "u = t\<lparr>draining := False, queue := q @ queue s\<rparr>"
    have "cleanUpNextTick t = drainQueue u"
      using q t True by (cases q) (simp_all add: cleanUpNextTick_def u_def)
    moreover have "drop (nat (queueIndex s + 1)) (q @ queue s) = waiting_tasks s"
      using q by (simp add: waiting_tasks_def)
    ultimately show ?thesis
      using drainQueue_drains [of u] t q by (cases q) (auto simp: u_def progress_def in_order_def)
  qed
  then show "tick_inv (snd (run_timer f (runClearTimeout i s)))" "progress s (snd (run_timer f (runClearTimeout i s)))"
    by (simp_all add: t_def)
qed

inductive tick_reachable :: "shim \<Rightarrow> bool" where
  fresh: "tick_reachable new_shim"
| stepped: "tick_reachable s \<Longrightarrow> tick_step s s' \<Longrightarrow> tick_reachable s'"

lemma tick_inv_reachable: "tick_reachable s \<Longrightarrow> tick_inv s"
proof (induction rule: tick_reachable.induct)
  case (stepped s s')
  from stepped.hyps(2) show ?case
    by cases (use stepped.IH in \<open>simp_all add: tick_inv_nextTick run_timer_inv\<close>)
qed (rule tick_inv_new)

lemma tick_alive: "tick_inv s \<Longrightarrow> waiting_tasks s \<noteq> [] \<Longrightarrow> tick_timers s \<noteq> []"
  by (auto simp: tick_inv_def waiting_tasks_def split: if_splits)

text \<open>
  C38. Tasks are started in the order of their calls, each once and none left out, whatever tasks throw and whatever tasks they call for
  themselves; and while tasks wait there is a timer, each of which starts one more at least.
\<close>

theorem ticks_in_order:
  assumes "tick_reachable s"
  shows "started s @ waiting_tasks s = called s \<and> (waiting_tasks s \<noteq> [] \<longrightarrow> tick_timers s \<noteq> []) \<and>
    (\<forall>(i, f) \<in> set (tick_timers s). progress s (snd (run_timer f (runClearTimeout i s))))"
  using tick_inv_reachable [OF assms] tick_alive run_timer_inv(2) by (auto simp: tick_inv_def in_order_def)

text \<open>Three tasks, of which the first calls for a fourth and throws.\<close>

definition sample_shim :: shim where
  "sample_shim = snd (run_timer Drain_queue (runClearTimeout 0 (fold nextTick [Task 1 [Task 4 [] False] True, Task 2 [] False, Task 3 [] False] new_shim)))"

lemma sample_shim_reachable: "tick_reachable sample_shim"
proof -
  have "tick_reachable s \<Longrightarrow> tick_reachable (fold nextTick ts s)" for ts s
    by (induction ts arbitrary: s) (auto intro: stepped call)
  from this [OF fresh] show ?thesis
    unfolding sample_shim_def
    by (rule stepped [OF _ timer [of 0 Drain_queue]]) (simp add: new_shim_def nextTick_def runTimeout_def)
qed

theorem ticks_in_order_witness:
  "map label (started sample_shim) = [1] \<and> map label (waiting_tasks sample_shim) = [2, 3, 4] \<and> tick_timers sample_shim \<noteq> [] \<and>
    started sample_shim @ waiting_tasks sample_shim = called sample_shim"
proof -
  have "map label (started sample_shim) = [1] \<and> map label (waiting_tasks sample_shim) = [2, 3, 4]"
    unfolding sample_shim_def by code_simp
  moreover from this have "waiting_tasks sample_shim \<noteq> []" by auto
  ultimately show ?thesis using ticks_in_order [OF sample_shim_reachable] by simp
qed

end
