(* ===== verification/Debug.thy ===== *)
theory Debug
  imports Regex Json Complex_Main
begin

text \<open>
  Debug output: which namespaces are enabled, and what is written for a call (debug, modules 3 and 5, and the format of time spans, module
  6; modules 8 to 10 are an older copy that does not escape the special characters of a namespace). The console itself and the choice whether it has colours are the browser's.
\<close>

subsection \<open>Namespaces\<close>

text \<open>
  \<open>enable\<close> escapes every special character of a name but the asterisk, which becomes the dot with a lazy repetition. Lazy or greedy makes no
  difference to \<open>test\<close>, which only asks whether there is a match.
\<close>

definition no_line_terminator :: "jschar \<Rightarrow> bool" where
  "no_line_terminator x \<longleftrightarrow> x \<notin> {10, 13, 0x2028, 0x2029}"

fun name_re :: "jsstr \<Rightarrow> regex" where
  "name_re [] = At_end"
| "name_re (x # xs) = Sequence (if x = of_char (CHR ''*'') then Greedy (Char no_line_terminator) else Char (\<lambda>y. y = x)) (name_re xs)"

definition test_re :: "regex \<Rightarrow> jsstr \<Rightarrow> bool" where
  "test_re r s \<longleftrightarrow> exec r s \<noteq> None"

record debug_modes =
  names :: "regex list"
  skips :: "regex list"
  storage :: jsstr

definition separator :: "jschar \<Rightarrow> bool" where
  "separator x \<longleftrightarrow> is_space x \<or> x = of_char (CHR '','')"

text \<open>The pieces of \<open>split\<close> that are not empty.\<close>

function pieces :: "jsstr \<Rightarrow> jsstr list" where
  "pieces s = (case dropWhile separator s of [] \<Rightarrow> []
     | x # t \<Rightarrow> (x # takeWhile (\<lambda>y. \<not> separator y) t) # pieces (dropWhile (\<lambda>y. \<not> separator y) t))"
  by pat_completeness auto
termination
proof (relation "measure length")
  fix s t :: jsstr and x
  assume "dropWhile separator s = x # t"
  then have "length t < length s" by (metis length_dropWhile_le length_Cons Suc_le_eq)
  then show "(dropWhile (\<lambda>y. \<not> separator y) t, s) \<in> measure length"
    using length_dropWhile_le [of "\<lambda>y. \<not> separator y" t] by simp
qed simp

declare pieces.simps [simp del]

definition enable_name :: "jsstr \<Rightarrow> debug_modes \<Rightarrow> debug_modes" where
  "enable_name n s =
     (if n \<noteq> [] \<and> hd n = of_char (CHR ''-'') then s\<lparr>skips := skips s @ [name_re (tl n)]\<rparr> else s\<lparr>names := names s @ [name_re n]\<rparr>)"

definition enable :: "jsstr \<Rightarrow> debug_modes \<Rightarrow> debug_modes" where
  "enable namespaces s = fold enable_name (pieces namespaces) (s\<lparr>storage := namespaces\<rparr>)"

definition disable :: "debug_modes \<Rightarrow> debug_modes" where
  "disable = enable []"

definition enabled :: "jsstr \<Rightarrow> debug_modes \<Rightarrow> bool" where
  "enabled n s \<longleftrightarrow> \<not> list_ex (\<lambda>r. test_re r n) (skips s) \<and> list_ex (\<lambda>r. test_re r n) (names s)"

text \<open>What a name with asterisks stands for.\<close>

inductive stands_for :: "jsstr \<Rightarrow> jsstr \<Rightarrow> bool" where
  empty: "stands_for [] []"
| same: "x \<noteq> of_char (CHR ''*'') \<Longrightarrow> stands_for p s \<Longrightarrow> stands_for (x # p) (x # s)"
| asterisk: "list_all no_line_terminator u \<Longrightarrow> stands_for p s \<Longrightarrow> stands_for (of_char (CHR ''*'') # p) (u @ s)"

inductive_cases stands_for_Nil: "stands_for [] s"
inductive_cases stands_for_Cons: "stands_for (x # p) s"

lemma greedy_class_iff:
  "match (Greedy (Char p)) k s c \<noteq> None \<longleftrightarrow> (\<exists>u t. s = u @ t \<and> list_all p u \<and> k t c \<noteq> None)"
proof (induction s)
  case Nil
  then show ?case by (subst match.simps(6)) simp
next
  case (Cons x s)
  have "match (Greedy (Char p)) k (x # s) c \<noteq> None \<longleftrightarrow> (p x \<and> match (Greedy (Char p)) k s c \<noteq> None) \<or> k (x # s) c \<noteq> None"
    by (subst match.simps(6)) (simp split: option.split)
  also have "\<dots> \<longleftrightarrow> (\<exists>u t. x # s = u @ t \<and> list_all p u \<and> k t c \<noteq> None)"
  proof
    assume "(p x \<and> match (Greedy (Char p)) k s c \<noteq> None) \<or> k (x # s) c \<noteq> None"
    then show "\<exists>u t. x # s = u @ t \<and> list_all p u \<and> k t c \<noteq> None"
    proof
      assume "p x \<and> match (Greedy (Char p)) k s c \<noteq> None"
      then obtain u t where "s = u @ t" "list_all p u" "k t c \<noteq> None" "p x" using Cons by blast
      then show ?thesis by (intro exI [of _ "x # u"] exI [of _ t]) simp
    qed (intro exI [of _ "[]"] exI [of _ "x # s"], simp)
  next
    assume "\<exists>u t. x # s = u @ t \<and> list_all p u \<and> k t c \<noteq> None"
    then obtain u t where "x # s = u @ t" "list_all p u" "k t c \<noteq> None" by blast
    then show "(p x \<and> match (Greedy (Char p)) k s c \<noteq> None) \<or> k (x # s) c \<noteq> None"
      using Cons by (cases u) auto
  qed
  finally show ?case .
qed

lemma name_re_match: "match (name_re p) k s c \<noteq> None \<longleftrightarrow> stands_for p s \<and> k [] c \<noteq> None"
proof (induction p arbitrary: s)
  case Nil
  then show ?case by (auto elim: stands_for_Nil intro: empty)
next
  case (Cons x p)
  show ?case
  proof (cases "x = of_char (CHR ''*'')")
    case True
    then have "match (name_re (x # p)) k s c \<noteq> None \<longleftrightarrow> (\<exists>u t. s = u @ t \<and> list_all no_line_terminator u \<and> stands_for p t \<and> k [] c \<noteq> None)"
      using greedy_class_iff [of no_line_terminator "match (name_re p) k" s c] Cons by (simp del: not_None_eq)
    then show ?thesis using True by (auto elim!: stands_for_Cons intro: asterisk [simplified])
  next
    case False
    then show ?thesis using Cons by (cases s) (auto elim!: stands_for_Cons intro: same)
  qed
qed

lemma test_name_re: "test_re (name_re p) s \<longleftrightarrow> stands_for p s"
  using name_re_match [of p] by (simp add: test_re_def exec_def del: not_None_eq)

text \<open>The names and the exceptions that were enabled, and what that says of a namespace.\<close>

definition exception :: "jsstr \<Rightarrow> bool" where
  "exception n \<longleftrightarrow> n \<noteq> [] \<and> hd n = of_char (CHR ''-'')"

lemma enable_names:
  "names (fold enable_name ns s) = names s @ map name_re (filter (\<lambda>n. \<not> exception n) ns)"
  "skips (fold enable_name ns s) = skips s @ map (\<lambda>n. name_re (tl n)) (filter exception ns)"
  by (induction ns arbitrary: s) (auto simp: enable_name_def exception_def)

lemma enabled_iff:
  "enabled n (enable namespaces \<lparr>names = [], skips = [], storage = st\<rparr>) \<longleftrightarrow>
    (\<exists>p \<in> set (pieces namespaces). \<not> exception p \<and> stands_for p n) \<and>
    \<not> (\<exists>p \<in> set (pieces namespaces). exception p \<and> stands_for (tl p) n)"
  by (auto simp: enabled_def enable_def enable_names list_ex_iff test_name_re)

text \<open>\<open>disable\<close> disables nothing: it enables no further name.\<close>

lemma disable_keeps: "enabled n (disable s) = enabled n s"
  by (simp add: disable_def enable_def enabled_def pieces.simps [of "[]"])

subsection \<open>Time spans\<close>

text \<open>The client only formats differences of two times, in milliseconds.\<close>

definition int_string :: "int \<Rightarrow> jsstr" where
  "int_string n = (if n < 0 then lit ''-'' else []) @ nat_digits (nat \<bar>n\<bar>)"

definition s_unit :: int where "s_unit = 1000"
definition m_unit :: int where "m_unit = s_unit * 60"
definition h_unit :: int where "h_unit = m_unit * 60"
definition d_unit :: int where "d_unit = h_unit * 24"

text \<open>\<open>Math.round(ms / unit)\<close> rounds halves up.\<close>

definition round_quotient :: "int \<Rightarrow> int \<Rightarrow> int" where
  "round_quotient ms u = (2 * ms + u) div (2 * u)"

definition fmtShort :: "int \<Rightarrow> jsstr" where
  "fmtShort ms =
     (if ms \<ge> d_unit then int_string (round_quotient ms d_unit) @ lit ''d''
      else if ms \<ge> h_unit then int_string (round_quotient ms h_unit) @ lit ''h''
      else if ms \<ge> m_unit then int_string (round_quotient ms m_unit) @ lit ''m''
      else if ms \<ge> s_unit then int_string (round_quotient ms s_unit) @ lit ''s''
      else int_string ms @ lit ''ms'')"

definition plural :: "int \<Rightarrow> int \<Rightarrow> string \<Rightarrow> jsstr option" where
  "plural ms n u =
     (if ms < n then None
      else if 2 * ms < 3 * n then Some (int_string (ms div n) @ lit '' '' @ lit u)
      else Some (int_string (- ((- ms) div n)) @ lit '' '' @ lit u @ lit ''s''))"

definition fmtLong :: "int \<Rightarrow> jsstr" where
  "fmtLong ms =
     (case plural ms d_unit ''day'' of Some t \<Rightarrow> t
      | None \<Rightarrow> case plural ms h_unit ''hour'' of Some t \<Rightarrow> t
      | None \<Rightarrow> case plural ms m_unit ''minute'' of Some t \<Rightarrow> t
      | None \<Rightarrow> case plural ms s_unit ''second'' of Some t \<Rightarrow> t
      | None \<Rightarrow> int_string ms @ lit '' ms'')"

text \<open>The short form names the largest unit that is not above the span, and is off by half of it at most.\<close>

definition span_units :: "(int \<times> string) list" where
  "span_units = [(d_unit, ''d''), (h_unit, ''h''), (m_unit, ''m''), (s_unit, ''s'')]"

lemma round_quotient_close:
  assumes "0 < u"
  shows "2 * \<bar>round_quotient ms u * u - ms\<bar> \<le> u"
proof -
  define q r where "q = (2 * ms + u) div (2 * u)" and "r = (2 * ms + u) mod (2 * u)"
  have "2 * ms + u = 2 * u * q + r" by (simp add: q_def r_def)
  moreover have "0 \<le> r" "r < 2 * u" using assms by (simp_all add: r_def)
  moreover define e where "e = q * u - ms"
  ultimately have "2 * e = u - r" "0 \<le> r" "r < 2 * u" by (simp_all add: algebra_simps)
  then have "2 * \<bar>e\<bar> \<le> u" by (cases "0 \<le> e") simp_all
  then show ?thesis by (simp add: round_quotient_def q_def [symmetric] e_def)
qed

lemma fmtShort_close:
  assumes "1000 \<le> ms"
  shows "\<exists>n u l. (u, l) \<in> set span_units \<and> u \<le> ms \<and> (\<forall>(u', _) \<in> set span_units. u' \<le> ms \<longrightarrow> u' \<le> u) \<and>
    fmtShort ms = int_string n @ lit l \<and> 2 * \<bar>n * u - ms\<bar> \<le> u"
proof -
  have units: "d_unit = 86400000" "h_unit = 3600000" "m_unit = 60000" "s_unit = 1000"
    by (simp_all add: d_unit_def h_unit_def m_unit_def s_unit_def)
  have *: ?thesis if "(u, l) \<in> set span_units" "u \<le> ms" "\<forall>(u', _) \<in> set span_units. u' \<le> ms \<longrightarrow> u' \<le> u"
    "fmtShort ms = int_string (round_quotient ms u) @ lit l" for u l
  proof -
    have "0 < u" using that(1) by (auto simp: span_units_def units)
    then show ?thesis using that round_quotient_close [of u ms] by blast
  qed
  consider "ms \<ge> 86400000" | "3600000 \<le> ms" "ms < 86400000" | "60000 \<le> ms" "ms < 3600000" | "1000 \<le> ms" "ms < 60000"
    using assms by linarith
  then show ?thesis
  proof cases
    case 1
    then show ?thesis by (intro * [of d_unit "''d''"]) (simp_all add: units fmtShort_def span_units_def)
  next
    case 2
    then show ?thesis by (intro * [of h_unit "''h''"]) (simp_all add: units fmtShort_def span_units_def)
  next
    case 3
    then show ?thesis by (intro * [of m_unit "''m''"]) (simp_all add: units fmtShort_def span_units_def)
  next
    case 4
    then show ?thesis by (intro * [of s_unit "''s''"]) (simp_all add: units fmtShort_def span_units_def)
  qed
qed

subsection \<open>A line of output\<close>

record debug_state =
  prevTime :: "int option"
  prevColor :: nat

record debugger =
  d_namespace :: jsstr
  d_color :: "jsstr option"
  d_diff :: int

definition colors :: "jsstr list" where
  "colors = map lit [''lightseagreen'', ''forestgreen'', ''goldenrod'', ''dodgerblue'', ''darkorchid'', ''crimson'']"

definition selectColor :: "debug_state \<Rightarrow> jsstr \<times> debug_state" where
  "selectColor s = (colors ! (prevColor s mod length colors), s\<lparr>prevColor := prevColor s + 1\<rparr>)"

text \<open>
  The directives of a format are replaced from left to right; only \<open>%j\<close> has a formatter. \<open>index\<close> counts the arguments behind the format
  that are kept.
\<close>

definition is_directive :: "jschar \<Rightarrow> bool" where
  "is_directive x \<longleftrightarrow> 97 \<le> x \<and> x \<le> 122"

definition percent :: jschar where
  "percent = of_char (CHR ''%'')"

definition format_j :: "jsval \<Rightarrow> jsstr" where
  "format_j v = (case json_stringify v None NoWidth of Some t \<Rightarrow> t | None \<Rightarrow> lit ''undefined'')"

fun apply_formatters :: "jsstr \<Rightarrow> nat \<Rightarrow> jsval list \<Rightarrow> jsstr \<times> jsval list" where
  "apply_formatters (x # y # r) index args =
     (if x = percent \<and> y = percent then (case apply_formatters r index args of (t, args) \<Rightarrow> (x # y # t, args))
      else if x = percent \<and> is_directive y then
        (if y = of_char (CHR ''j'') then
           let v = (if index < length args then args ! index else JUndef) in
           (case apply_formatters r index (take index args @ drop (index + 1) args) of (t, args) \<Rightarrow> (format_j v @ t, args))
         else (case apply_formatters r (index + 1) args of (t, args) \<Rightarrow> (x # y # t, args)))
      else (case apply_formatters (y # r) index args of (t, args) \<Rightarrow> (x # t, args)))"
| "apply_formatters s index args = (s, args)"

fun directives :: "jsstr \<Rightarrow> jsstr" where
  "directives (x # y # r) =
     (if x = percent \<and> y = percent then directives r
      else if x = percent \<and> is_directive y then y # directives r
      else directives (y # r))"
| "directives _ = []"

text \<open>The number of the last \<open>%c\<close> among the directives, from 1, or 0.\<close>

fun last_c :: "jsstr \<Rightarrow> nat \<Rightarrow> nat \<Rightarrow> nat" where
  "last_c [] index lastC = lastC"
| "last_c (y # ys) index lastC = last_c ys (index + 1) (if y = of_char (CHR ''c'') then index + 1 else lastC)"

definition color_style :: "debugger \<Rightarrow> jsstr" where
  "color_style self = lit ''color: '' @ (case d_color self of Some c \<Rightarrow> c | None \<Rightarrow> lit ''undefined'')"

definition formatArgs :: "bool \<Rightarrow> debugger \<Rightarrow> jsstr \<Rightarrow> jsval list \<Rightarrow> jsval list" where
  "formatArgs useColors self msg args =
     (let fmt = (if useColors then lit ''%c'' else []) @ d_namespace self @ (if useColors then lit '' %c'' else lit '' '') @ msg @
            (if useColors then lit ''%c '' else lit '' '') @ lit ''+'' @ fmtShort (d_diff self)
      in if \<not> useColors then JStr fmt # args
         else
           let args = [JStr fmt, JStr (color_style self), JStr (lit ''color: inherit'')] @ args;
               lastC = last_c (directives fmt) 0 0
           in take lastC args @ [JStr (color_style self)] @ drop lastC args)"

definition debug_line :: "bool \<Rightarrow> int \<Rightarrow> jsval list \<Rightarrow> debugger \<Rightarrow> debug_state \<Rightarrow> jsval list \<times> debugger \<times> debug_state" where
  "debug_line useColors now args self s =
     (let prev = (case prevTime s of None \<Rightarrow> now | Some t \<Rightarrow> if t = 0 then now else t);
          self = self\<lparr>d_diff := now - prev\<rparr>; s = s\<lparr>prevTime := Some now\<rparr>;
          (self, s) = (if d_color self = None \<and> useColors then (case selectColor s of (c, s) \<Rightarrow> (self\<lparr>d_color := Some c\<rparr>, s)) else (self, s));
          args = (if args = [] then [JUndef] else args);
          (fmt, args) = (case hd args of JStr f \<Rightarrow> (f, tl args) | _ \<Rightarrow> (lit ''%o'', args));
          (fmt, args) = apply_formatters fmt 0 args
      in (formatArgs useColors self fmt args, self, s))"

text \<open>Every argument meets its directive, and the three styles the three \<open>%c\<close> around the namespace and behind the message.\<close>

fun open_percent :: "jsstr \<Rightarrow> bool" where
  "open_percent (x # y # r) =
     (if x = percent \<and> y = percent then open_percent r
      else if x = percent \<and> is_directive y then open_percent r
      else open_percent (y # r))"
| "open_percent [x] \<longleftrightarrow> x = percent"
| "open_percent [] = False"

lemma directives_plain [simp]: "x \<noteq> percent \<Longrightarrow> directives (x # s) = directives s"
  by (cases s) simp_all

lemma percent_no_directive [simp]: "\<not> is_directive percent"
  by (simp add: is_directive_def percent_def)

lemma directives_append: "\<not> open_percent s \<Longrightarrow> directives (s @ t) = directives s @ directives t"
  by (induction s rule: open_percent.induct) (auto split: if_splits)

lemma last_c_append: "last_c (xs @ [of_char (CHR ''c'')]) index lastC = index + length xs + 1"
  by (induction xs arbitrary: index lastC) simp_all

lemma no_directives: "percent \<notin> set s \<Longrightarrow> directives s = []"
  by (induction s rule: directives.induct) auto

lemma fmtShort_no_percent: "percent \<notin> set (fmtShort ms)"
proof -
  have "percent \<notin> set (nat_digits n)" for n
    using nat_digits_digits [of percent n] by (auto simp: percent_def is_digit_def)
  then show ?thesis by (auto simp: fmtShort_def int_string_def percent_def lit_def)
qed

lemma formatArgs_aligned:
  assumes "directives (d_namespace self) = []" "\<not> open_percent (d_namespace self)" "\<not> open_percent msg" "length args = length (directives msg)"
  obtains fmt args' where "formatArgs True self msg args = JStr fmt # args'" "length args' = length (directives fmt)"
    "zip (directives fmt) args' = [(99, JStr (color_style self)), (99, JStr (lit ''color: inherit''))] @ zip (directives msg) args @
       [(99, JStr (color_style self))]"
proof -
  define tail where "tail = lit ''+'' @ fmtShort (d_diff self)"
  define fmt where "fmt = lit ''%c'' @ d_namespace self @ lit '' %c'' @ msg @ lit ''%c '' @ tail"
  have lits: "lit ''%c'' = [percent, 99]" "lit '' %c'' = [32, percent, 99]" "lit ''%c '' = [percent, 99, 32]" "lit ''+'' = [43]"
    by (simp_all add: lit_def percent_def)
  have c: "is_directive 99" "\<not> is_directive 32" "32 \<noteq> percent" "99 \<noteq> percent" "43 \<noteq> percent" by (simp_all add: is_directive_def percent_def)
  have "directives tail = []" using no_directives [of "fmtShort (d_diff self)"] fmtShort_no_percent c by (simp add: tail_def lits)
  then have d: "directives fmt = 99 # 99 # directives msg @ [99]"
    using assms(1-3) c by (simp add: fmt_def lits directives_append)
  have "last_c (directives fmt) 0 0 = 3 + length args"
    using last_c_append [of "99 # 99 # directives msg" 0 0] assms(4) by (simp add: d)
  then have f: "formatArgs True self msg args =
      JStr fmt # [JStr (color_style self), JStr (lit ''color: inherit'')] @ args @ [JStr (color_style self)]"
    by (simp add: formatArgs_def Let_def fmt_def tail_def)
  show ?thesis by (rule that [OF f]) (use assms(4) in \<open>simp_all add: d\<close>)
qed

end
