(* ===== verification/Spec2Isabelle.thy ===== *)
theory Spec2Isabelle
  imports Wtf8 Base64 Yeast Backoff Emitter Json Qs BinaryPacket IoParser EioParser Transport EngineFlow SocketFlow Uri Request Jsonp Lookup JsonDate JsonRevive Ticks Debug
begin

text \<open>
  A verification development of the socket.io client 1.7 that the dashboard of the repository loads:
  \<open>static/js/socket.io.js\<close> under the dashboard's \<open>labproject\<close>, the largest program of the repository. It is a
  bundle of 49 numbered modules; the theories follow them.

  The program. An application calls \<open>lookup\<close> (module 0), which completes the URI (module 1, with parseuri, module 2) and finds or makes
  a \<open>Manager\<close> (module 17); the manager has one \<open>Socket\<close> (module 44) for each
  namespace. The manager encodes their packets with socket.io-parser (module 7, with modules 14, 15 and 16 for
  binary data and JSON 3, module 11, for text) and writes the frames to one engine.io socket (module 20),
  whose packets travel over a transport: polling by XHR or JSONP (modules 24, 25, 39) or a web socket (40), chosen by
  modules 21 and 22 and encoded by engine.io-parser (module 27, with 28 to 34). Emitters (13 and 35) connect the
  parts, parseqs (36) and yeast (38) make the query strings, backo2 (48) the delays of reconnection.

  The theories, in the order of their imports:

  \<^item> \<open>Prelude\<close>: strings of UTF-16 code units (\<open>jsstr\<close>, 16-bit words), exceptions, error propagation, digits.
  \<^item> \<open>JsNum\<close>: the language's numbers and \<open>Number(s)\<close>/\<open>String(n)\<close>, as decimals with a bounded exponent.
  \<^item> \<open>Wtf8\<close>, \<open>Base64\<close>, \<open>Yeast\<close>, \<open>Qs\<close>, \<open>Backoff\<close>: modules 32, 33, 38, 36 and 48, each with its round trip, injectivity
    or bounds. \<open>Base64\<close> is compared with the bit string definition of RFC 4648.
  \<^item> \<open>Emitter\<close>: modules 13 and 35 as one definition over the name of the slot that keeps an event's listeners;
    a locale states what the naming must satisfy and is interpreted for both.
  \<^item> \<open>Json\<close>: values, \<open>stringify\<close> and \<open>parse\<close> of module 11.
  \<^item> \<open>BinaryPacket\<close>, \<open>IoParser\<close>: what carries a packet over the wire, file readers of blobs included, whose order of
    completion is an argument.
  \<^item> \<open>EioParser\<close>: packets and payloads of engine.io, with \<open>after\<close> and \<open>map\<close> as explicit states of their callbacks.
  \<^item> \<open>Transport\<close>: a transport as a record with the list of the actions it asks the browser for; pausing, polling, writing.
  \<^item> \<open>EngineSocket\<close>, \<open>EngineFlow\<close>: the engine as an extension of its current transport, one definition for each operation,
    listener and timer callback; \<open>engine_step\<close> is everything that can happen to it and \<open>engine_reachable\<close> its runs.
    \<open>EngineFlow\<close> shows the order of packets, closing, upgrades and the heartbeat.
  \<^item> \<open>EngineFrame\<close>: what lies beside the engine changes only in the listeners of the engine (locale \<open>engine_owner\<close>).
  \<^item> \<open>Manager\<close>: the manager as an extension of its engine, with its sockets; \<open>manager_step\<close> is everything that can
    happen to it: an input of the engine, a timer, a file reader or a call of the application.
  \<^item> \<open>ManagerInv\<close>: the invariant of the manager, for every application whose listeners call the interface
    (locales \<open>application\<close> and \<open>connected_application\<close>, interpreted on applications that react to every event with a list of calls).
  \<^item> \<open>SocketFlow\<close>: the promises to the application: order of packets, connection, acknowledgements, end-to-end arrival of
    an event, reconnection, closing.
  \<^item> \<open>Uri\<close>, \<open>Request\<close>, \<open>Jsonp\<close>: the URIs of the transports; one XHR request from its creation to its report (module 24); the
    script, form and iframe of a JSONP transport (module 39).
  \<^item> \<open>Regex\<close>, \<open>Parseuri\<close>: a backtracking matcher for the regular expressions of the language, and parseuri (module 2).
  \<^item> \<open>Lookup\<close>: url and lookup (modules 1 and 0), the entry of the client, and the cache of its managers.
  \<^item> \<open>JsonDate\<close>, \<open>JsonRevive\<close>: the dates of JSON 3, compared with the Gregorian calendar by counting days, and the callback of \<open>parse\<close>.
  \<^item> \<open>Ticks\<close>, \<open>Debug\<close>: the task queue of the process shim (module 4); the namespaces and the lines of debug output (modules 3, 5, 6).

  How the model reads the code. An object is a record and a method a function on it; an object that owns another is an
  extension of its record, so that the listeners the owner registers are functions on the owner's whole state. Listeners of
  the application are an argument (\<open>eh\<close>, \<open>ah\<close>). Since a listener may call back into the object that
  emits, hooks are nested to a finite depth \<open>n\<close> (\<open>scripted\<close>, \<open>manager_hook\<close>, \<open>scripted_app\<close>), and every theorem is proved for every
  depth. An exception that would leave an event handler is recorded in the field \<open>thrown\<close>. Timers, requests, file readers
  and frames are inputs that may come in any order. \<open>browser\<close> collects what the code asks of its environment: blobs, array
  buffers, web sockets, the page's location. The only fuel is that of the nested closing of an engine
  (\<open>onClose_nested\<close>, two levels): a closed socket does nothing when it is closed again.

  Not modelled: the console of debug output and its older copy (modules 8 to 10); the feature tests of JSON 3, \<open>toJSON\<close>
  and replacer functions; modules that only re-export or test the browser (12, 18, 19, 23, 34, 37); options that are only handed on
  (certificates, compression, agents); callbacks
  the application passes to \<open>write\<close>; an engine that has been replaced while it was still closing. \<open>highcharts.js\<close>, \<open>exporting.js\<close> and
  \<open>jquery-3.1.1.min.js\<close> are minified third-party libraries beside the client; the Java, Scala and Python parts of
  the repository are examples of calls to frameworks.
\<close>

end
